(* ===== verification/Condy_Prelude.thy ===== *)
theory Condy_Prelude
  imports Main "HOL-Library.Word" "HOL-Library.Monad_Syntax"
begin

text \<open>
  Shared vocabulary of the development: the machine integers and pointers of the C++ sources,
  the errno values they return, the result type of fallible code, and the generic facts on
  words, powers of two and lists that the component theories use.

  A pointer is the 64-bit word that \<open>reinterpret_cast<uintptr_t>\<close> yields, and the null pointer
  is the word 0. Signed 32-bit results (\<open>int32_t\<close>) are \<open>int\<close>: the library only compares,
  copies and negates them. Sizes that the sources let wrap around are kept at their width.
\<close>

unbundle bit_operations_syntax

section \<open>Machine integers and pointers\<close>

type_synonym u8 = "8 word"
type_synonym u16 = "16 word"
type_synonym u32 = "32 word"
type_synonym u64 = "64 word"
type_synonym ptr = "64 word"
type_synonym i32 = int

abbreviation nullptr :: ptr where "nullptr \<equiv> 0"

section \<open>errno values (Linux)\<close>

abbreviation EINTR :: i32 where "EINTR \<equiv> 4"
abbreviation EAGAIN :: i32 where "EAGAIN \<equiv> 11"
abbreviation EINVAL :: i32 where "EINVAL \<equiv> 22"
abbreviation EPIPE :: i32 where "EPIPE \<equiv> 32"
abbreviation EIDRM :: i32 where "EIDRM \<equiv> 43"
abbreviation ECANCELED :: i32 where "ECANCELED \<equiv> 125"
abbreviation ENOTRECOVERABLE :: i32 where "ENOTRECOVERABLE \<equiv> 131"

section \<open>Failures\<close>

text \<open>
  \<open>Panic\<close> is \<open>detail::panic_on\<close>, which terminates the process; the other constructors are the
  C++ exceptions the library throws, by their standard class.
\<close>

datatype failure =
    Panic string
  | Logic_error string
  | Invalid_argument string
  | Runtime_error string
  | System_error string i32

type_synonym 'a result = "failure + 'a"

text \<open>
  The calls an operation makes on a runtime, or on the memory of a handle. Operations return the
  calls in the order they make them.
\<close>

datatype call =
    Schedule_internal ptr ptr  \<comment> \<open>\<open>runtime->schedule_internal(work)\<close>\<close>
  | Delete_handle ptr          \<comment> \<open>\<open>delete\<close> of a fake push handle\<close>
  | Pend_work ptr              \<comment> \<open>\<open>runtime->pend_work_internal()\<close>\<close>
  | Resume_work ptr            \<comment> \<open>\<open>runtime->resume_work_internal()\<close>\<close>

text \<open>
  Code with preconditions is modelled in the option monad: \<open>None\<close> is a failed \<open>assert\<close>, a read
  of memory outside the lifetime of an object, or a loop that does not return. A theorem that
  such code yields \<open>Some\<close> shows that none of these happens.
\<close>

definition massert :: "bool \<Rightarrow> unit option" where
  "massert b = (if b then Some () else None)"

lemma massert_simps [simp]: "massert True = Some ()" "massert False = None"
  by (simp_all add: massert_def)

lemma massert_bind [simp]: "b \<Longrightarrow> (massert b \<bind> f) = f ()"
  by (simp add: massert_def)

section \<open>Lemma collections\<close>

named_theorems rep_intros \<open>introduction rules of representation relations\<close>
named_theorems word_idx \<open>index arithmetic of the ring buffers\<close>

section \<open>Powers of two\<close>

text \<open>\<open>std::bit_width\<close> and \<open>std::bit_ceil\<close> of the C++ standard library.\<close>

fun bit_width :: "nat \<Rightarrow> nat" where
  "bit_width n = (if n = 0 then 0 else Suc (bit_width (n div 2)))"

declare bit_width.simps [simp del]

definition bit_ceil :: "nat \<Rightarrow> nat" where
  "bit_ceil n = (if n \<le> 1 then 1 else 2 ^ bit_width (n - 1))"

lemma bit_width_upper: "n < 2 ^ bit_width n"
proof (induction n rule: bit_width.induct)
  case (1 n)
  show ?case
  proof (cases "n = 0")
    case True
    then show ?thesis by (simp add: bit_width.simps)
  next
    case False
    then have "n div 2 < 2 ^ bit_width (n div 2)" using "1.IH" by simp
    with False show ?thesis by (subst bit_width.simps) simp
  qed
qed

lemma bit_width_lower: "0 < n \<Longrightarrow> 2 ^ bit_width n \<le> 2 * n"
proof (induction n rule: bit_width.induct)
  case (1 n)
  show ?case
  proof (cases "n div 2 = 0")
    case True
    with "1.prems" have "n = 1" by simp
    then show ?thesis by (simp add: bit_width.simps)
  next
    case False
    then have "2 ^ bit_width (n div 2) \<le> 2 * (n div 2)" using "1.IH" "1.prems" by simp
    with "1.prems" show ?thesis by (subst bit_width.simps) simp
  qed
qed

lemma bit_ceil_pow2: "\<exists>k. bit_ceil n = 2 ^ k"
  by (auto simp: bit_ceil_def intro: exI [of _ 0])

lemma bit_ceil_ge: "n \<le> bit_ceil n"
  using bit_width_upper [of "n - 1"] by (auto simp: bit_ceil_def)

lemma bit_ceil_pos [simp]: "0 < bit_ceil n"
  by (simp add: bit_ceil_def)

lemma bit_ceil_less: "1 < n \<Longrightarrow> bit_ceil n < 2 * n"
  using bit_width_lower [of "n - 1"] by (auto simp: bit_ceil_def)

lemma bit_ceil_bound:
  assumes "n \<le> 2 ^ k"
  shows "bit_ceil n \<le> 2 ^ k"
proof (cases "n \<le> 1")
  case True
  then show ?thesis by (simp add: bit_ceil_def)
next
  case False
  then have lt: "bit_ceil n < 2 * 2 ^ k" using bit_ceil_less [of n] assms by simp
  obtain j where j: "bit_ceil n = 2 ^ j" using bit_ceil_pow2 by blast
  with lt have "(2::nat) ^ j < 2 ^ Suc k" by simp
  then have "j < Suc k" by (rule power_less_imp_less_exp [rotated]) simp
  then have "j \<le> k" by simp
  then show ?thesis unfolding j by (rule power_increasing) simp
qed

section \<open>Masked indices\<close>

text \<open>
  The ring buffers index with \<open>i & (capacity - 1)\<close>, where the capacity is a power of two and
  \<open>i\<close> is a counter that wraps around.
\<close>

lemma mask_word: "(2 ^ k - 1 :: 'a::len word) = mask k"
  by (simp add: mask_eq_exp_minus_1)

lemma unat_and_mask: "unat (x AND mask k :: 'a::len word) = unat x mod 2 ^ k"
proof -
  have "unat (take_bit k x) = take_bit k (unat x)"
    by (rule unsigned_take_bit_eq)
  then show ?thesis by (simp only: take_bit_eq_mask [symmetric] take_bit_eq_mod [of k "unat x"])
qed

lemma and_not_diff: "x AND NOT m = x - (x AND m)" for x m :: "'a::len word"
proof -
  have "(x AND m) + (x AND NOT m) = (x AND m) OR (x AND NOT m)"
    by (rule disjunctive_add_eq_or) (auto simp: bit_eq_iff bit_simps)
  also have "\<dots> = x" by (auto simp: bit_eq_iff bit_simps)
  finally show ?thesis by (metis add_diff_cancel_left')
qed

lemma unat_and_not_mask: "unat (x AND NOT (mask k) :: 'a::len word) = unat x - unat x mod 2 ^ k"
proof -
  have "x AND mask k \<le> x" by (rule word_and_le2)
  then show ?thesis by (simp add: and_not_diff unat_sub unat_and_mask)
qed

lemma word_less_Suc: "(n :: 'a::len word) < t \<Longrightarrow> i < n + 1 \<longleftrightarrow> i \<le> n"
  by (metis inc_less_eq_iff less_eq_dec_iff add_diff_cancel_right' add_0 add.commute
      inc_le leD linorder_not_less word_zero_le)

lemma unat_pow2: "k < LENGTH('a) \<Longrightarrow> unat (2 ^ k :: 'a::len word) = 2 ^ k"
proof -
  assume k: "k < LENGTH('a)"
  have "unat (of_nat (2 ^ k) :: 'a word) = 2 ^ k mod 2 ^ LENGTH('a)"
    by (rule unat_of_nat)
  with k show ?thesis by simp
qed

lemma unat_of_nat_lt: "n < 2 ^ LENGTH('a) \<Longrightarrow> unat (of_nat n :: 'a::len word) = n"
  by (simp add: unat_of_nat)

lemma of_nat_word_eq_iff:
  "m < 2 ^ LENGTH('a) \<Longrightarrow> n < 2 ^ LENGTH('a) \<Longrightarrow> (of_nat m :: 'a::len word) = of_nat n \<longleftrightarrow> m = n"
  by (metis unat_of_nat_lt)

lemma pow2_lt_64: "k < 64 \<Longrightarrow> (2::nat) ^ k < 2 ^ 64"
  by (rule power_strict_increasing) simp_all

lemma unat_plus_mod:
  assumes "k \<le> LENGTH('a)"
  shows "unat (x + of_nat i :: 'a::len word) mod 2 ^ k = (unat x + i) mod 2 ^ k"
proof -
  have dvd: "(2::nat) ^ k dvd 2 ^ LENGTH('a)"
    using assms by (rule le_imp_power_dvd)
  have "unat (x + of_nat i) = (unat x + i) mod 2 ^ LENGTH('a)"
    by (simp add: unat_word_ariths unat_of_nat mod_add_right_eq)
  then show ?thesis using dvd by (simp add: mod_mod_cancel)
qed

lemma ring_index [word_idx]:
  assumes "k \<le> LENGTH('a)"
  shows "unat ((x + of_nat i) AND mask k :: 'a::len word) = (unat x + i) mod 2 ^ k"
  by (simp add: unat_and_mask unat_plus_mod [OF assms])

lemma mod_offset_eq_iff:
  fixes a :: nat
  assumes "i < n" and "j < n"
  shows "(a + i) mod n = (a + j) mod n \<longleftrightarrow> i = j"
proof
  assume eq: "(a + i) mod n = (a + j) mod n"
  show "i = j"
  proof (cases "i \<le> j")
    case True
    from eq have "n dvd (a + j) - (a + i)" using True
      by (metis add_le_cancel_left mod_eq_dvd_iff_nat)
    then have "n dvd j - i" by simp
    with assms True show ?thesis by (metis diff_is_0_eq' dvd_imp_le
          le_antisym less_imp_diff_less not_less zero_less_diff)
  next
    case False
    from eq have "n dvd (a + i) - (a + j)" using False
      by (metis add_le_cancel_left mod_eq_dvd_iff_nat nat_le_linear)
    then have "n dvd i - j" by simp
    with assms False show ?thesis by (metis dvd_imp_le less_imp_diff_less
          not_less nat_le_linear zero_less_diff)
  qed
qed simp

section \<open>Views of a ring\<close>

text \<open>
  The \<open>n\<close> entries of a ring of \<open>2 ^ k\<close> slots from position \<open>h\<close> on, where \<open>h\<close> counts without
  bound and \<open>f\<close> is the content of the slots.
\<close>

definition ring_view :: "nat \<Rightarrow> (nat \<Rightarrow> 'a) \<Rightarrow> nat \<Rightarrow> nat \<Rightarrow> 'a list" where
  "ring_view k f h n = map (\<lambda>i. f ((h + i) mod 2 ^ k)) [0..<n]"

lemma ring_view_length [simp]: "length (ring_view k f h n) = n"
  by (simp add: ring_view_def)

lemma ring_view_0 [simp]: "ring_view k f h 0 = []"
  by (simp add: ring_view_def)

lemma ring_view_Suc: "ring_view k f h (Suc n) = f (h mod 2 ^ k) # ring_view k f (h + 1) n"
  by (simp add: ring_view_def upt_conv_Cons map_Suc_upt [symmetric] comp_def del: upt_Suc)

lemma ring_view_mod_cong: "h mod 2 ^ k = h' mod 2 ^ k \<Longrightarrow> ring_view k f h n = ring_view k f h' n"
  unfolding ring_view_def by (metis mod_add_left_eq)

lemma ring_view_snoc:
  assumes "n < 2 ^ k"
  shows "ring_view k (f((h + n) mod 2 ^ k := v)) h (Suc n) = ring_view k f h n @ [v]"
proof -
  have "(h + i) mod 2 ^ k \<noteq> (h + n) mod 2 ^ k" if "i < n" for i
    using mod_offset_eq_iff [of i "2 ^ k" n h] that assms by simp
  then show ?thesis by (simp add: ring_view_def)
qed

end
