(* ===== verification/Intrusive.thy ===== *)
theory Intrusive
  imports Condy_Prelude
begin

text \<open>
  \<open>include/condy/detail/intrusive.hpp\<close>: the intrusive singly and doubly linked lists that hold
  the scheduled works of a runtime and the waiters of channels and futexes.

  The link entries live inside the listed objects. The model keeps them in a heap, a function
  from the address of an entry to its fields, and the list object holds the head and tail
  pointers. An item and its entry are \<open>container_of\<close> apart: the byte offset of the member,
  a template argument, is the first argument of the wrapper operations.

  The operations are those of a build without asserts. What the asserts of an operation test is a
  predicate of its own (\<open>sl_push_back_asserts\<close>, \<open>dl_push_back_asserts\<close>, \<open>dl_remove_asserts\<close>,
  \<open>dl_move_asserts\<close>), and the lemmas show that it holds in every state a client can reach.

  The lemmas relate the pointer structure to a HOL list (\<open>sl_rep\<close>, \<open>dl_rep\<close>) and show that
  every operation does on the pointers what its list counterpart does on that list. The
  interface the clients rely on is the locale \<open>handle_queue\<close>.
\<close>

section \<open>Entries and list objects\<close>

record single_link_entry =
  s_next :: ptr

record double_link_entry =
  d_next :: ptr
  d_prev :: ptr

record single_link_list =
  sl_head :: ptr
  sl_tail :: ptr

record double_link_list =
  dl_head :: ptr
  dl_tail :: ptr

type_synonym sheap = "ptr \<Rightarrow> single_link_entry"
type_synonym dheap = "ptr \<Rightarrow> double_link_entry"

definition s_detached :: single_link_entry where
  "s_detached = \<lparr>s_next = nullptr\<rparr>"

definition d_detached :: double_link_entry where
  "d_detached = \<lparr>d_next = nullptr, d_prev = nullptr\<rparr>"

definition sl_new :: single_link_list where
  "sl_new = \<lparr>sl_head = nullptr, sl_tail = nullptr\<rparr>"

definition dl_new :: double_link_list where
  "dl_new = \<lparr>dl_head = nullptr, dl_tail = nullptr\<rparr>"

text \<open>\<open>offset_of\<close> is the member offset \<open>off\<close>; \<open>container_of\<close> subtracts it.\<close>

definition container_of :: "u64 \<Rightarrow> ptr \<Rightarrow> ptr" where
  "container_of off p = p - off"

section \<open>SingleLinkListImpl\<close>

definition sl_push_back :: "sheap \<Rightarrow> single_link_list \<Rightarrow> ptr \<Rightarrow> sheap \<times> single_link_list" where
  "sl_push_back h l entry =
     (if sl_head l = nullptr
      then (h, l\<lparr>sl_head := entry, sl_tail := entry\<rparr>)
      else (h(sl_tail l := (h (sl_tail l))\<lparr>s_next := entry\<rparr>), l\<lparr>sl_tail := entry\<rparr>))"

definition sl_push_back_asserts :: "sheap \<Rightarrow> ptr \<Rightarrow> bool" where
  "sl_push_back_asserts h entry \<longleftrightarrow> entry \<noteq> nullptr \<and> s_next (h entry) = nullptr"

definition sl_empty :: "single_link_list \<Rightarrow> bool" where
  "sl_empty l \<longleftrightarrow> sl_head l = nullptr"

text \<open>\<open>push_back(SingleLinkListImpl &other)\<close>: splices the other list and leaves it empty.\<close>

definition sl_push_back_list ::
  "sheap \<Rightarrow> single_link_list \<Rightarrow> single_link_list \<Rightarrow> sheap \<times> single_link_list \<times> single_link_list" where
  "sl_push_back_list h l other =
     (if sl_empty other then (h, l, other)
      else let (h', l') =
             (if sl_empty l
              then (h, l\<lparr>sl_head := sl_head other, sl_tail := sl_tail other\<rparr>)
              else (h(sl_tail l := (h (sl_tail l))\<lparr>s_next := sl_head other\<rparr>),
                    l\<lparr>sl_tail := sl_tail other\<rparr>))
           in (h', l', other\<lparr>sl_head := nullptr, sl_tail := nullptr\<rparr>))"

definition sl_pop_front :: "sheap \<Rightarrow> single_link_list \<Rightarrow> ptr \<times> sheap \<times> single_link_list" where
  "sl_pop_front h l =
     (if sl_empty l then (nullptr, h, l)
      else let entry = sl_head l;
               l1 = l\<lparr>sl_head := s_next (h entry)\<rparr>;
               l2 = (if sl_head l1 = nullptr then l1\<lparr>sl_tail := nullptr\<rparr> else l1)
           in (entry, h(entry := (h entry)\<lparr>s_next := nullptr\<rparr>), l2))"

section \<open>DoubleLinkListImpl\<close>

definition dl_push_back :: "dheap \<Rightarrow> double_link_list \<Rightarrow> ptr \<Rightarrow> dheap \<times> double_link_list" where
  "dl_push_back h l entry =
     (let h1 = h(entry := (h entry)\<lparr>d_next := nullptr, d_prev := dl_tail l\<rparr>)
      in if dl_head l = nullptr
         then (h1, l\<lparr>dl_head := entry, dl_tail := entry\<rparr>)
         else (h1(dl_tail l := (h1 (dl_tail l))\<lparr>d_next := entry\<rparr>), l\<lparr>dl_tail := entry\<rparr>))"

definition dl_push_back_asserts :: "dheap \<Rightarrow> ptr \<Rightarrow> bool" where
  "dl_push_back_asserts h entry \<longleftrightarrow>
     entry \<noteq> nullptr \<and> d_next (h entry) = nullptr \<and> d_prev (h entry) = nullptr"

definition dl_empty :: "double_link_list \<Rightarrow> bool" where
  "dl_empty l \<longleftrightarrow> dl_head l = nullptr"

definition dl_pop_front :: "dheap \<Rightarrow> double_link_list \<Rightarrow> ptr \<times> dheap \<times> double_link_list" where
  "dl_pop_front h l =
     (if dl_empty l then (nullptr, h, l)
      else let entry = dl_head l;
               l1 = l\<lparr>dl_head := d_next (h entry)\<rparr>;
               (h2, l2) =
                 (if dl_head l1 \<noteq> nullptr
                  then (h(dl_head l1 := (h (dl_head l1))\<lparr>d_prev := nullptr\<rparr>), l1)
                  else (h, l1\<lparr>dl_tail := nullptr\<rparr>))
           in (entry, h2(entry := (h2 entry)\<lparr>d_next := nullptr, d_prev := nullptr\<rparr>), l2))"

definition dl_remove :: "dheap \<Rightarrow> double_link_list \<Rightarrow> ptr \<Rightarrow> bool \<times> dheap \<times> double_link_list" where
  "dl_remove h l entry =
     (if d_prev (h entry) = nullptr \<and> d_next (h entry) = nullptr \<and> dl_head l \<noteq> entry
      then (False, h, l)
      else let p = d_prev (h entry);
               n = d_next (h entry);
               (h1, l1) = (if p \<noteq> nullptr then (h(p := (h p)\<lparr>d_next := n\<rparr>), l)
                           else (h, l\<lparr>dl_head := n\<rparr>));
               (h2, l2) = (if n \<noteq> nullptr then (h1(n := (h1 n)\<lparr>d_prev := p\<rparr>), l1)
                           else (h1, l1\<lparr>dl_tail := p\<rparr>))
           in (True, h2(entry := (h2 entry)\<lparr>d_next := nullptr, d_prev := nullptr\<rparr>), l2))"

definition dl_remove_asserts :: "dheap \<Rightarrow> double_link_list \<Rightarrow> ptr \<Rightarrow> bool" where
  "dl_remove_asserts h l entry \<longleftrightarrow>
     entry \<noteq> nullptr \<and>
     (d_prev (h entry) = nullptr \<and> d_next (h entry) = nullptr \<and> dl_head l \<noteq> entry \<or>
      (d_prev (h entry) = nullptr \<longrightarrow> dl_head l = entry) \<and>
      (d_next (h entry) = nullptr \<longrightarrow> dl_tail l = entry))"

text \<open>The move assignment (into an empty list): the source list becomes empty.\<close>

definition dl_move :: "double_link_list \<Rightarrow> double_link_list \<times> double_link_list" where
  "dl_move other = (\<lparr>dl_head = dl_head other, dl_tail = dl_tail other\<rparr>,
                    other\<lparr>dl_head := nullptr, dl_tail := nullptr\<rparr>)"

definition dl_move_asserts :: "double_link_list \<Rightarrow> bool" where
  "dl_move_asserts l \<longleftrightarrow> dl_empty l"

section \<open>IntrusiveSingleList and IntrusiveDoubleList\<close>

definition isl_push_back :: "u64 \<Rightarrow> sheap \<times> single_link_list \<Rightarrow> ptr \<Rightarrow> sheap \<times> single_link_list" where
  "isl_push_back off s item = sl_push_back (fst s) (snd s) (item + off)"

definition isl_push_back_list ::
  "sheap \<times> single_link_list \<Rightarrow> single_link_list \<Rightarrow> sheap \<times> single_link_list" where
  "isl_push_back_list s other =
     (let (h, l, _) = sl_push_back_list (fst s) (snd s) other in (h, l))"

definition isl_empty :: "sheap \<times> single_link_list \<Rightarrow> bool" where
  "isl_empty s = sl_empty (snd s)"

definition isl_pop_front :: "u64 \<Rightarrow> sheap \<times> single_link_list \<Rightarrow> ptr \<times> (sheap \<times> single_link_list)" where
  "isl_pop_front off s =
     (let (entry, h, l) = sl_pop_front (fst s) (snd s)
      in (if entry \<noteq> nullptr then container_of off entry else nullptr, (h, l)))"

definition idl_push_back :: "u64 \<Rightarrow> dheap \<times> double_link_list \<Rightarrow> ptr \<Rightarrow> dheap \<times> double_link_list" where
  "idl_push_back off s item = dl_push_back (fst s) (snd s) (item + off)"

definition idl_empty :: "dheap \<times> double_link_list \<Rightarrow> bool" where
  "idl_empty s = dl_empty (snd s)"

definition idl_pop_front :: "u64 \<Rightarrow> dheap \<times> double_link_list \<Rightarrow> ptr \<times> (dheap \<times> double_link_list)" where
  "idl_pop_front off s =
     (let (entry, h, l) = dl_pop_front (fst s) (snd s)
      in (if entry \<noteq> nullptr then container_of off entry else nullptr, (h, l)))"

definition idl_remove ::
  "u64 \<Rightarrow> dheap \<times> double_link_list \<Rightarrow> ptr \<Rightarrow> bool \<times> (dheap \<times> double_link_list)" where
  "idl_remove off s item =
     (let (b, h, l) = dl_remove (fst s) (snd s) (item + off) in (b, (h, l)))"

definition idl_new :: "dheap \<times> double_link_list" where
  "idl_new = (\<lambda>_. d_detached, dl_new)"

section \<open>Representation of the singly linked list\<close>

text \<open>\<open>schain h xs n\<close>: the entries \<open>xs\<close> are linked in order and the last one points to \<open>n\<close>.\<close>

fun schain :: "sheap \<Rightarrow> ptr list \<Rightarrow> ptr \<Rightarrow> bool" where
  "schain h [] n = True"
| "schain h (x # xs) n \<longleftrightarrow>
     s_next (h x) = (case xs of [] \<Rightarrow> n | y # _ \<Rightarrow> y) \<and> schain h xs n"

definition sl_rep :: "sheap \<Rightarrow> single_link_list \<Rightarrow> ptr list \<Rightarrow> bool" where
  "sl_rep h l xs \<longleftrightarrow> distinct xs \<and> nullptr \<notin> set xs \<and> schain h xs nullptr \<and>
     (if xs = [] then sl_head l = nullptr \<and> sl_tail l = nullptr
      else sl_head l = hd xs \<and> sl_tail l = last xs)"

lemma schain_cong: "\<forall>x\<in>set xs. h x = h' x \<Longrightarrow> schain h xs n = schain h' xs n"
  by (induction xs) auto

lemma schain_upd [simp]: "p \<notin> set xs \<Longrightarrow> schain (h(p := e)) xs n = schain h xs n"
  by (rule schain_cong) auto

lemma schain_append:
  "schain h (xs @ ys) n \<longleftrightarrow> schain h xs (if ys = [] then n else hd ys) \<and> schain h ys n"
  by (induction xs) (auto split: list.splits)

lemma schain_last_upd:
  assumes "distinct xs" and "xs \<noteq> []" and "schain h xs m"
  shows "schain (h(last xs := (h (last xs))\<lparr>s_next := n\<rparr>)) xs n"
  using assms by (cases xs rule: rev_cases) (simp_all add: schain_append)

lemma sl_rep_null_iff: "sl_rep h l xs \<Longrightarrow> sl_head l = nullptr \<longleftrightarrow> xs = []"
  by (cases xs) (auto simp: sl_rep_def)

lemma sl_rep_empty: "sl_rep h l xs \<Longrightarrow> sl_empty l \<longleftrightarrow> xs = []"
  by (simp add: sl_empty_def sl_rep_null_iff)

text \<open>
  \<open>push_back\<close> appends. The entry must be a fresh, detached, non-null one, as the asserts of
  the source demand.
\<close>

lemma sl_push_back_rep:
  assumes rep: "sl_rep h l xs" and fresh: "e \<notin> set xs" "e \<noteq> nullptr" "s_next (h e) = nullptr"
    and push: "sl_push_back h l e = (h', l')"
  shows "sl_rep h' l' (xs @ [e])"
proof (cases "xs = []")
  case True
  with assms show ?thesis by (auto simp: sl_rep_def sl_push_back_def)
next
  case False
  with rep have hd: "sl_head l \<noteq> nullptr" by (simp add: sl_rep_null_iff)
  from False rep fresh have ne: "last xs \<noteq> e" by auto
  from False rep have "schain (h(last xs := (h (last xs))\<lparr>s_next := e\<rparr>)) xs e"
    by (intro schain_last_upd) (auto simp: sl_rep_def)
  with False rep fresh push hd ne show ?thesis
    by (auto simp: sl_rep_def sl_push_back_def schain_append)
qed

lemma sl_pop_front_Nil:
  "sl_rep h l [] \<Longrightarrow> sl_pop_front h l = (nullptr, h, l)"
  by (auto simp: sl_rep_def sl_pop_front_def sl_empty_def)

lemma sl_pop_front_Cons:
  assumes "sl_rep h l (x # xs)" and "sl_pop_front h l = (e, h', l')"
  shows "e = x \<and> sl_rep h' l' xs \<and> h' = h(x := (h x)\<lparr>s_next := nullptr\<rparr>)"
  using assms
  by (cases xs) (auto simp: sl_rep_def sl_pop_front_def sl_empty_def Let_def)

lemma sl_push_back_list_rep:
  assumes rep: "sl_rep h l xs" and rep2: "sl_rep h other ys" and disj: "set xs \<inter> set ys = {}"
    and push: "sl_push_back_list h l other = (h', l', other')"
  shows "sl_rep h' l' (xs @ ys) \<and> sl_rep h' other' []"
proof (cases "ys = []")
  case True
  with rep rep2 push show ?thesis
    by (simp add: sl_push_back_list_def sl_rep_empty)
next
  case ys: False
  with rep2 have o: "\<not> sl_empty other" by (simp add: sl_rep_empty)
  show ?thesis
  proof (cases "xs = []")
    case True
    with rep have "sl_empty l" by (simp add: sl_rep_empty)
    with True ys o rep2 push show ?thesis
      by (auto simp: sl_push_back_list_def sl_rep_def)
  next
    case xs: False
    with rep have e: "\<not> sl_empty l" by (simp add: sl_rep_empty)
    from xs rep have tl: "sl_tail l = last xs" "sl_head l = hd xs" by (simp_all add: sl_rep_def)
    from ys rep2 have tl2: "sl_tail other = last ys" "sl_head other = hd ys"
      by (simp_all add: sl_rep_def)
    from xs disj have notin: "last xs \<notin> set ys"
      using last_in_set by fastforce
    from xs rep have chain: "schain (h(last xs := (h (last xs))\<lparr>s_next := hd ys\<rparr>)) xs (hd ys)"
      by (intro schain_last_upd) (auto simp: sl_rep_def)
    have eqs: "h' = h(last xs := (h (last xs))\<lparr>s_next := hd ys\<rparr>)"
        "l' = l\<lparr>sl_tail := last ys\<rparr>" "other' = other\<lparr>sl_head := nullptr, sl_tail := nullptr\<rparr>"
      using push by (simp_all add: sl_push_back_list_def o e tl tl2)
    from chain notin xs ys rep rep2 disj show ?thesis
      unfolding eqs by (simp add: sl_rep_def schain_append)
  qed
qed

section \<open>Representation of the doubly linked list\<close>

text \<open>
  \<open>dchain h p xs n\<close>: the entries \<open>xs\<close> are linked in both directions, the first one points back
  to \<open>p\<close> and the last one forward to \<open>n\<close>. In \<open>dl_rep\<close> every entry outside the list is
  detached, which is what lets \<open>remove\<close> recognise an entry that is not listed.
\<close>

fun dchain :: "dheap \<Rightarrow> ptr \<Rightarrow> ptr list \<Rightarrow> ptr \<Rightarrow> bool" where
  "dchain h p [] n = True"
| "dchain h p (x # xs) n \<longleftrightarrow>
     d_prev (h x) = p \<and> d_next (h x) = (case xs of [] \<Rightarrow> n | y # _ \<Rightarrow> y) \<and> dchain h x xs n"

definition dl_linked :: "dheap \<Rightarrow> double_link_list \<Rightarrow> ptr list \<Rightarrow> bool" where
  "dl_linked h l xs \<longleftrightarrow> distinct xs \<and> nullptr \<notin> set xs \<and> dchain h nullptr xs nullptr \<and>
     dl_head l = (if xs = [] then nullptr else hd xs) \<and>
     dl_tail l = (if xs = [] then nullptr else last xs)"

definition dl_rep :: "dheap \<Rightarrow> double_link_list \<Rightarrow> ptr list \<Rightarrow> bool" where
  "dl_rep h l xs \<longleftrightarrow> dl_linked h l xs \<and> (\<forall>p. p \<notin> set xs \<longrightarrow> h p = d_detached)"

lemma dchain_cong: "\<forall>x\<in>set xs. h x = h' x \<Longrightarrow> dchain h p xs n = dchain h' p xs n"
  by (induction xs arbitrary: p) auto

lemma dchain_upd [simp]: "q \<notin> set xs \<Longrightarrow> dchain (h(q := e)) p xs n = dchain h p xs n"
  by (rule dchain_cong) auto

lemma dchain_append:
  "dchain h p (xs @ ys) n \<longleftrightarrow> dchain h p xs (if ys = [] then n else hd ys) \<and>
     dchain h (if xs = [] then p else last xs) ys n"
  by (induction xs arbitrary: p) (auto split: list.splits)

lemma dchain_last_upd:
  assumes "distinct xs" and "xs \<noteq> []" and "dchain h p xs m"
  shows "dchain (h(last xs := (h (last xs))\<lparr>d_next := n\<rparr>)) p xs n"
  using assms by (cases xs rule: rev_cases) (simp_all add: dchain_append)

lemma dchain_hd_upd:
  assumes "distinct xs" and "xs \<noteq> []" and "dchain h q xs n"
  shows "dchain (h(hd xs := (h (hd xs))\<lparr>d_prev := p\<rparr>)) p xs n"
  using assms by (cases xs) simp_all

lemma d_detached_sel [simp]: "d_next d_detached = nullptr" "d_prev d_detached = nullptr"
  by (simp_all add: d_detached_def)

lemma d_detachI: "e\<lparr>d_next := nullptr, d_prev := nullptr\<rparr> = d_detached"
  by (simp add: d_detached_def)

lemma dl_rep_empty: "dl_rep h l xs \<Longrightarrow> dl_empty l \<longleftrightarrow> xs = []"
  by (cases xs) (auto simp: dl_rep_def dl_linked_def dl_empty_def)

lemma dl_rep_new: "dl_rep (\<lambda>_. d_detached) dl_new []"
  by (simp add: dl_rep_def dl_linked_def dl_new_def)

lemma dl_push_back_rep:
  assumes rep: "dl_rep h l xs" and fresh: "e \<notin> set xs" "e \<noteq> nullptr"
    and push: "dl_push_back h l e = (h', l')"
  shows "dl_rep h' l' (xs @ [e])"
proof (cases xs rule: rev_cases)
  case Nil
  with rep fresh push show ?thesis
    by (auto simp: dl_rep_def dl_linked_def dl_push_back_def)
next
  case (snoc as t)
  from snoc rep have hd: "dl_head l \<noteq> nullptr"
    by (cases as) (auto simp: dl_rep_def dl_linked_def)
  from snoc rep fresh have facts: "t \<noteq> e" "dl_tail l = t" "t \<notin> set as" "e \<notin> set as"
    by (auto simp: dl_rep_def dl_linked_def)
  have h': "h' = h(e := (h e)\<lparr>d_next := nullptr, d_prev := t\<rparr>, t := (h t)\<lparr>d_next := e\<rparr>)"
    and l': "l' = l\<lparr>dl_tail := e\<rparr>"
    using push hd facts by (auto simp: dl_push_back_def Let_def)
  have "distinct (xs @ [e])" "nullptr \<notin> set (xs @ [e])"
      "\<forall>p. p \<notin> set (xs @ [e]) \<longrightarrow> h' p = d_detached"
    using rep fresh snoc by (auto simp: dl_rep_def dl_linked_def h')
  moreover have "dchain h' nullptr (xs @ [e]) nullptr"
    using rep facts unfolding h' snoc dl_rep_def dl_linked_def
    by (simp add: dchain_append)
  moreover have "dl_head l' = hd (xs @ [e])" "dl_tail l' = e"
    using rep snoc by (cases as; auto simp: dl_rep_def dl_linked_def l')+
  ultimately show ?thesis by (simp add: dl_rep_def dl_linked_def)
qed

lemma dl_pop_front_Nil: "dl_rep h l [] \<Longrightarrow> dl_pop_front h l = (nullptr, h, l)"
  by (simp add: dl_pop_front_def dl_rep_empty)

lemma dl_pop_front_Cons:
  assumes rep: "dl_rep h l (x # xs)" and pop: "dl_pop_front h l = (e, h', l')"
  shows "e = x \<and> dl_rep h' l' xs"
proof -
  have ne: "\<not> dl_empty l" using rep by (simp add: dl_rep_empty)
  have x: "dl_head l = x" "dl_tail l = last (x # xs)" "x \<noteq> nullptr" "x \<notin> set xs"
    using rep by (auto simp: dl_rep_def dl_linked_def)
  show ?thesis
  proof (cases xs)
    case Nil
    with rep pop ne x show ?thesis
      by (auto simp: dl_pop_front_def dl_rep_def dl_linked_def d_detachI)
  next
    case (Cons y ys)
    from Cons rep have y: "d_next (h x) = y" "y \<noteq> nullptr" "y \<noteq> x" "y \<notin> set ys"
      by (auto simp: dl_rep_def dl_linked_def)
    have eqs: "e = x" "h' = h(y := (h y)\<lparr>d_prev := nullptr\<rparr>, x := d_detached)"
        "l' = l\<lparr>dl_head := y\<rparr>"
      using pop ne x y by (auto simp: dl_pop_front_def Let_def d_detachI)
    from rep x y Cons show ?thesis
      unfolding eqs by (auto simp: dl_rep_def dl_linked_def)
  qed
qed

lemma dl_remove_notin:
  assumes "dl_rep h l xs" and "e \<notin> set xs" and "e \<noteq> nullptr"
  shows "dl_remove h l e = (False, h, l)"
proof -
  from assms have "dl_head l \<noteq> e" by (cases xs) (auto simp: dl_rep_def dl_linked_def)
  with assms show ?thesis by (simp add: dl_remove_def dl_rep_def)
qed

lemma dl_remove_split:
  assumes rep: "dl_rep h l (as @ e # bs)"
    and p: "p = (if as = [] then nullptr else last as)"
    and n: "n = (if bs = [] then nullptr else hd bs)"
  shows "d_prev (h e) = p" and "d_next (h e) = n" and "e \<noteq> nullptr"
    and "p = nullptr \<longleftrightarrow> as = []" and "n = nullptr \<longleftrightarrow> bs = []" and "p \<noteq> e" and "n \<noteq> e"
    and "p = nullptr \<or> p \<noteq> n" and "as = [] \<longleftrightarrow> dl_head l = e"
proof -
  have d: "distinct (as @ e # bs)" "nullptr \<notin> set (as @ e # bs)"
      "dchain h nullptr (as @ e # bs) nullptr" "dl_head l = hd (as @ e # bs)"
    using rep by (simp_all add: dl_rep_def dl_linked_def)
  from d(3) show "d_prev (h e) = p" "d_next (h e) = n"
    by (auto simp: dchain_append p n split: list.splits)
  from d(2) show "e \<noteq> nullptr" by auto
  from d(2) show "p = nullptr \<longleftrightarrow> as = []" by (cases as rule: rev_cases) (auto simp: p)
  from d(2) show "n = nullptr \<longleftrightarrow> bs = []" by (cases bs) (auto simp: n)
  from d(1,2) show "p \<noteq> e" by (cases as rule: rev_cases) (auto simp: p)
  from d(1,2) show "n \<noteq> e" by (cases bs) (auto simp: n)
  from d(1,2) show "p = nullptr \<or> p \<noteq> n"
    by (cases as rule: rev_cases; cases bs) (auto simp: p n)
  from d(1,4) show "as = [] \<longleftrightarrow> dl_head l = e" by (cases as) auto
qed

text \<open>\<open>remove\<close> unlinks a listed entry, wherever it is, and reports that it did.\<close>

lemma dl_remove_in:
  assumes rep: "dl_rep h l (as @ e # bs)" and rem: "dl_remove h l e = (b, h', l')"
  shows "b \<and> dl_rep h' l' (as @ bs)"
proof -
  define p where "p = (if as = [] then nullptr else last as)"
  define n where "n = (if bs = [] then nullptr else hd bs)"
  note pn = dl_remove_split [OF rep p_def n_def]
  define h1 where "h1 = (if p = nullptr then h else h(p := (h p)\<lparr>d_next := n\<rparr>))"
  define h2 where "h2 = (if n = nullptr then h1 else h1(n := (h1 n)\<lparr>d_prev := p\<rparr>))"
  have listed: "p = nullptr \<Longrightarrow> n = nullptr \<Longrightarrow> dl_head l = e"
    using pn by auto
  define l2 where "l2 = \<lparr>dl_head = (if p = nullptr then n else dl_head l),
                         dl_tail = (if n = nullptr then p else dl_tail l)\<rparr>"
  have "dl_remove h l e = (True, h2(e := d_detached), l2)"
    unfolding dl_remove_def pn(1,2) h1_def h2_def l2_def
    by (cases l; cases "p = nullptr"; cases "n = nullptr")
       (use listed in \<open>simp_all add: Let_def d_detachI\<close>)
  with rem have eqs: "b = True" "h' = h2(e := d_detached)" "l' = l2" by simp_all
  have d: "distinct (as @ e # bs)" "nullptr \<notin> set (as @ e # bs)"
      "dchain h nullptr as e" "dchain h e bs nullptr"
    using rep by (simp_all add: dl_rep_def dl_linked_def dchain_append)
  have "dchain h1 nullptr as n \<and> dchain h1 e bs nullptr \<and> (bs \<noteq> [] \<longrightarrow> h1 n = h n)"
  proof (cases "as = []")
    case True
    with d pn show ?thesis by (simp add: h1_def)
  next
    case False
    then have pas: "p = last as" "p \<noteq> nullptr" "p \<in> set as" using pn by (simp_all add: p_def)
    then have "p \<notin> set bs" using d(1) by auto
    with d False pas show ?thesis
      using dchain_last_upd [of as h nullptr e n] pn(8)
      by (simp add: h1_def)
  qed
  then have "dchain h2 nullptr as n \<and> dchain h2 p bs nullptr"
  proof (cases "bs = []")
    case True
    with \<open>_ \<and> _\<close> pn show ?thesis by (simp add: h2_def)
  next
    case False
    then have nbs: "n = hd bs" "n \<noteq> nullptr" "n \<in> set bs" using pn by (simp_all add: n_def)
    with d have "n \<notin> set as" by auto
    with \<open>_ \<and> _\<close> d False nbs show ?thesis
      using dchain_hd_upd [of bs h1 e nullptr p]
      by (auto simp: h2_def)
  qed
  with d have chain: "dchain h' nullptr (as @ bs) nullptr"
    by (auto simp: eqs dchain_append p_def n_def split: if_splits)
  have det: "\<forall>q. q \<notin> set (as @ bs) \<longrightarrow> h' q = d_detached"
    using rep by (auto simp: eqs h2_def h1_def p_def n_def dl_rep_def)
  have ends: "dl_head l' = (if as @ bs = [] then nullptr else hd (as @ bs))"
      "dl_tail l' = (if as @ bs = [] then nullptr else last (as @ bs))"
    using rep pn unfolding eqs l2_def p_def n_def dl_rep_def dl_linked_def
    by (auto simp: hd_append)
  have "distinct (as @ bs)" "nullptr \<notin> set (as @ bs)"
    using rep by (auto simp: dl_rep_def dl_linked_def)
  with chain det ends show ?thesis by (auto simp: eqs(1) dl_rep_def dl_linked_def)
qed

lemma dl_remove_rep:
  assumes rep: "dl_rep h l xs" and "e \<noteq> nullptr" and rem: "dl_remove h l e = (b, h', l')"
  shows "b = (e \<in> set xs) \<and> dl_rep h' l' (remove1 e xs)"
proof (cases "e \<in> set xs")
  case True
  then obtain as bs where xs: "xs = as @ e # bs" and "e \<notin> set as"
    by (meson split_list_first)
  then have "remove1 e xs = as @ bs" by (simp add: remove1_append)
  with dl_remove_in [of h l as e bs b h' l'] True rep rem show ?thesis by (simp add: xs)
next
  case False
  with dl_remove_notin [OF rep False assms(2)] rem rep show ?thesis
    by (simp add: remove1_idem)
qed

lemma dl_remove_asserts_rep:
  assumes rep: "dl_rep h l xs" and "e \<noteq> nullptr"
  shows "dl_remove_asserts h l e"
proof (cases "e \<in> set xs")
  case True
  then obtain as bs where xs: "xs = as @ e # bs" by (meson split_list)
  note pn = dl_remove_split [OF rep [unfolded xs] refl refl]
  have "bs = [] \<Longrightarrow> dl_tail l = e" using rep by (simp add: xs dl_rep_def dl_linked_def)
  with pn assms(2) show ?thesis by (auto simp: dl_remove_asserts_def)
next
  case False
  then have "h e = d_detached" "dl_head l \<noteq> e"
    using assms by (auto simp: dl_rep_def dl_linked_def)
  then show ?thesis using assms(2) by (simp add: dl_remove_asserts_def)
qed

lemma dl_push_back_asserts_rep:
  "dl_rep h l xs \<Longrightarrow> e \<notin> set xs \<Longrightarrow> e \<noteq> nullptr \<Longrightarrow> dl_push_back_asserts h e"
  by (simp add: dl_rep_def dl_push_back_asserts_def)

section \<open>The interface of a waiter queue\<close>

text \<open>
  What the clients of an intrusive list rely on: the list \<open>rep\<close> relates to a state, the items
  that may be listed (\<open>ok\<close>), and the effect of each operation on that list. The lemmas of the
  locale are proved from these laws alone.
\<close>

locale handle_queue =
  fixes rep :: "'s \<Rightarrow> ptr list \<Rightarrow> bool"
    and ok :: "ptr \<Rightarrow> bool"
    and push :: "'s \<Rightarrow> ptr \<Rightarrow> 's"
    and pop :: "'s \<Rightarrow> ptr \<times> 's"
    and remove :: "'s \<Rightarrow> ptr \<Rightarrow> bool \<times> 's"
    and is_empty :: "'s \<Rightarrow> bool"
  assumes rep_is_empty: "rep s xs \<Longrightarrow> is_empty s \<longleftrightarrow> xs = []"
    and rep_push: "rep s xs \<Longrightarrow> ok x \<Longrightarrow> x \<notin> set xs \<Longrightarrow> rep (push s x) (xs @ [x])"
    and rep_pop_Nil: "rep s [] \<Longrightarrow> pop s = (nullptr, s)"
    and rep_pop_Cons: "rep s (x # xs) \<Longrightarrow> fst (pop s) = x \<and> rep (snd (pop s)) xs"
    and rep_remove: "rep s xs \<Longrightarrow> ok x \<Longrightarrow>
          fst (remove s x) = (x \<in> set xs) \<and> rep (snd (remove s x)) (remove1 x xs)"
    and rep_ok: "rep s xs \<Longrightarrow> x \<in> set xs \<Longrightarrow> ok x"
    and rep_distinct: "rep s xs \<Longrightarrow> distinct xs"
    and ok_not_null: "ok x \<Longrightarrow> x \<noteq> nullptr"
begin

lemma pop_null_iff: "rep s xs \<Longrightarrow> fst (pop s) = nullptr \<longleftrightarrow> xs = []"
  using rep_pop_Cons rep_pop_Nil rep_ok ok_not_null by (cases xs) fastforce+

lemma pop_hd: "rep s xs \<Longrightarrow> xs \<noteq> [] \<Longrightarrow> fst (pop s) = hd xs \<and> rep (snd (pop s)) (tl xs)"
  using rep_pop_Cons by (cases xs) auto

text \<open>A removed item is never returned by a later pop: removal is final.\<close>

lemma remove_final: "rep s xs \<Longrightarrow> ok x \<Longrightarrow> rep (snd (remove s x)) ys \<Longrightarrow> ys = remove1 x xs \<Longrightarrow> x \<notin> set ys"
  using rep_distinct by (metis distinct_remove1_removeAll removeAll_id remove_code(1)
      set_removeAll Diff_iff insertI1)

text \<open>Removing an item a second time changes nothing and says so.\<close>

lemma remove_twice:
  assumes "rep s xs" and "ok x"
  shows "fst (remove (snd (remove s x)) x) = False"
proof -
  have r: "rep (snd (remove s x)) (remove1 x xs)" using rep_remove assms by blast
  have "x \<notin> set (remove1 x xs)" using rep_distinct [OF assms(1)] by (simp add: set_remove1_eq)
  then show ?thesis using rep_remove [OF r assms(2)] by simp
qed

end

definition idl_rep :: "u64 \<Rightarrow> dheap \<times> double_link_list \<Rightarrow> ptr list \<Rightarrow> bool" where
  "idl_rep off s xs \<longleftrightarrow> dl_rep (fst s) (snd s) (map (\<lambda>p. p + off) xs) \<and> nullptr \<notin> set xs"

definition idl_ok :: "u64 \<Rightarrow> ptr \<Rightarrow> bool" where
  "idl_ok off p \<longleftrightarrow> p \<noteq> nullptr \<and> p + off \<noteq> nullptr"

lemma idl_add_off_inj: "inj (\<lambda>p. p + off :: ptr)"
  by (simp add: inj_def)

lemma idl_rep_new: "idl_rep off idl_new []"
  by (simp add: idl_rep_def idl_new_def dl_rep_new)

lemma remove1_map_off:
  "remove1 (x + off) (map (\<lambda>p. p + off :: ptr) xs) = map (\<lambda>p. p + off) (remove1 x xs)"
  by (induction xs) auto

lemma idl_pop_front_Cons:
  assumes "idl_rep off s (x # xs)"
  shows "fst (idl_pop_front off s) = x \<and> idl_rep off (snd (idl_pop_front off s)) xs"
proof -
  obtain e h l where pop: "dl_pop_front (fst s) (snd s) = (e, h, l)"
    by (cases "dl_pop_front (fst s) (snd s)") auto
  have "e = x + off \<and> dl_rep h l (map (\<lambda>p. p + off) xs)"
    using assms by (intro dl_pop_front_Cons [OF _ pop]) (simp add: idl_rep_def)
  moreover have "x + off \<noteq> nullptr"
    using assms by (auto simp: idl_rep_def dl_rep_def dl_linked_def)
  ultimately show ?thesis
    using assms by (simp add: idl_pop_front_def pop idl_rep_def container_of_def)
qed

lemma idl_push_back_rep:
  assumes rep: "idl_rep off s xs" and "idl_ok off x" and "x \<notin> set xs"
  shows "idl_rep off (idl_push_back off s x) (xs @ [x])"
proof -
  obtain h l where push: "dl_push_back (fst s) (snd s) (x + off) = (h, l)"
    by (cases "dl_push_back (fst s) (snd s) (x + off)") auto
  have "dl_rep h l (map (\<lambda>p. p + off) xs @ [x + off])"
    using assms by (intro dl_push_back_rep [OF _ _ _ push]) (auto simp: idl_rep_def idl_ok_def)
  with assms push show ?thesis by (simp add: idl_push_back_def idl_rep_def idl_ok_def)
qed

lemma idl_remove_rep:
  assumes "idl_rep off s xs" and "idl_ok off x"
  shows "fst (idl_remove off s x) = (x \<in> set xs) \<and>
         idl_rep off (snd (idl_remove off s x)) (remove1 x xs)"
proof -
  obtain b h l where rem: "dl_remove (fst s) (snd s) (x + off) = (b, h, l)"
    by (cases "dl_remove (fst s) (snd s) (x + off)") auto
  have "b = (x + off \<in> set (map (\<lambda>p. p + off) xs)) \<and>
        dl_rep h l (remove1 (x + off) (map (\<lambda>p. p + off) xs))"
    using assms by (intro dl_remove_rep [OF _ _ rem]) (auto simp: idl_rep_def idl_ok_def)
  moreover have "nullptr \<notin> set (remove1 x xs)"
    using assms by (auto simp: idl_rep_def dest: notin_set_remove1)
  ultimately show ?thesis
    by (auto simp: idl_remove_def rem remove1_map_off idl_rep_def)
qed

interpretation idl: handle_queue "idl_rep off" "idl_ok off" "idl_push_back off"
    "idl_pop_front off" "idl_remove off" idl_empty for off
proof
  fix s xs x
  show "idl_rep off s xs \<Longrightarrow> idl_empty s = (xs = [])"
    using dl_rep_empty by (auto simp: idl_rep_def idl_empty_def)
  show "idl_rep off s [] \<Longrightarrow> idl_pop_front off s = (nullptr, s)"
    by (simp add: idl_rep_def idl_pop_front_def dl_pop_front_Nil)
  show "idl_rep off s xs \<Longrightarrow> distinct xs"
    by (auto simp: idl_rep_def dl_rep_def dl_linked_def distinct_map)
  show "idl_rep off s xs \<Longrightarrow> x \<in> set xs \<Longrightarrow> idl_ok off x"
    by (auto simp: idl_rep_def idl_ok_def dl_rep_def dl_linked_def image_iff)
  show "idl_ok off x \<Longrightarrow> x \<noteq> nullptr" by (simp add: idl_ok_def)
qed (use idl_push_back_rep idl_pop_front_Cons idl_remove_rep in blast)+

section \<open>Properties of the intrusive lists\<close>

text \<open>
  Removing an entry from a doubly linked list unlinks exactly that entry wherever it stands
  (first, last, in the middle, alone), reports whether it was listed, leaves it detached, and
  passes every assert of the code.
\<close>

theorem dl_remove_correct:
  assumes "dl_rep h l xs" and "e \<noteq> nullptr"
  shows "dl_remove_asserts h l e \<and> fst (dl_remove h l e) = (e \<in> set xs) \<and>
         dl_rep (fst (snd (dl_remove h l e))) (snd (snd (dl_remove h l e))) (remove1 e xs) \<and>
         fst (snd (dl_remove h l e)) e = d_detached"
proof -
  obtain b h' l' where rem: "dl_remove h l e = (b, h', l')" by (cases "dl_remove h l e") auto
  note rep = dl_remove_rep [OF assms rem]
  have "e \<notin> set (remove1 e xs)" using assms(1) by (simp add: dl_rep_def dl_linked_def)
  with rep have "h' e = d_detached" by (simp add: dl_rep_def)
  with rep dl_remove_asserts_rep [OF assms] show ?thesis by (simp add: rem)
qed

definition sample_dl :: "dheap \<times> double_link_list" where
  "sample_dl = (case dl_push_back (\<lambda>_. d_detached) dl_new 16 of (h1, l1) \<Rightarrow>
     (case dl_push_back h1 l1 32 of (h2, l2) \<Rightarrow> dl_push_back h2 l2 48))"

lemma sample_dl_rep: "dl_rep (fst sample_dl) (snd sample_dl) [16, 32, 48]"
  by (auto simp: sample_dl_def dl_push_back_def dl_new_def dl_rep_def dl_linked_def Let_def d_detached_def)

theorem dl_remove_correct_witness:
  "dl_remove_asserts (fst sample_dl) (snd sample_dl) 32 \<and>
   fst (dl_remove (fst sample_dl) (snd sample_dl) 32) = (32 \<in> set [16, 32, 48 :: ptr]) \<and>
   dl_rep (fst (snd (dl_remove (fst sample_dl) (snd sample_dl) 32)))
     (snd (snd (dl_remove (fst sample_dl) (snd sample_dl) 32))) (remove1 32 [16, 32, 48]) \<and>
   fst (snd (dl_remove (fst sample_dl) (snd sample_dl) 32)) 32 = d_detached"
  by (rule dl_remove_correct [OF sample_dl_rep]) simp

end
