(* ===== verification/Utils.thy ===== *)
theory Utils
  imports Condy_Prelude
begin

text \<open>
  \<open>include/condy/detail/utils.hpp\<close>: the identifier pool, the raw storage slots and the
  small array behind the channel's ring buffer, \<open>align_up\<close> and \<open>tuple_at\<close>.

  The interface of an indexed store is the locale \<open>slot_array\<close>; \<open>SmallArray\<close> is interpreted
  in it, so the channel can reason about its buffer without the stack/heap distinction.
\<close>

section \<open>IdPool\<close>

text \<open>
  \<open>IdPool<T, From, To>\<close>: the template bounds are arguments of the operations that read them.
  \<open>std::stack\<close> is a list with its top first.
\<close>

record 'a id_pool =
  next_id :: 'a
  recycled_ids :: "'a list"

definition idp_new :: "'w::len word \<Rightarrow> 'w word id_pool" where
  "idp_new From = \<lparr>next_id = From, recycled_ids = []\<rparr>"

definition idp_allocate :: "'w::len word \<Rightarrow> 'w word id_pool \<Rightarrow> ('w word \<times> 'w word id_pool) result" where
  "idp_allocate To p =
     (case recycled_ids p of
        i # rest \<Rightarrow> Inr (i, p\<lparr>recycled_ids := rest\<rparr>)
      | [] \<Rightarrow> if next_id p < To then Inr (next_id p, p\<lparr>next_id := next_id p + 1\<rparr>)
              else Inl (Runtime_error ''ID pool exhausted''))"

definition idp_recycle_asserts :: "'w::len word \<Rightarrow> 'w word \<Rightarrow> 'w word id_pool \<Rightarrow> 'w word \<Rightarrow> bool" where
  "idp_recycle_asserts From To p i \<longleftrightarrow> From \<le> i \<and> i < next_id p \<and> i < To"

definition idp_recycle :: "'w::len word id_pool \<Rightarrow> 'w word \<Rightarrow> 'w word id_pool" where
  "idp_recycle p i = p\<lparr>recycled_ids := i # recycled_ids p\<rparr>"

definition idp_reset :: "'w::len word \<Rightarrow> 'w word id_pool \<Rightarrow> 'w word id_pool" where
  "idp_reset From p = p\<lparr>next_id := From, recycled_ids := []\<rparr>"

text \<open>
  Well-formedness, and the identifiers that are out: handed out and not yet recycled.
\<close>

definition idp_wf :: "'w::len word \<Rightarrow> 'w word \<Rightarrow> 'w word id_pool \<Rightarrow> bool" where
  "idp_wf From To p \<longleftrightarrow> From \<le> next_id p \<and> next_id p \<le> To \<and>
     distinct (recycled_ids p) \<and> (\<forall>i\<in>set (recycled_ids p). From \<le> i \<and> i < next_id p)"

definition idp_out :: "'w::len word \<Rightarrow> 'w word id_pool \<Rightarrow> 'w word set" where
  "idp_out From p = {i. From \<le> i \<and> i < next_id p \<and> i \<notin> set (recycled_ids p)}"

lemma idp_wf_new: "From \<le> To \<Longrightarrow> idp_wf From To (idp_new From) \<and> idp_out From (idp_new From) = {}"
  by (auto simp: idp_wf_def idp_new_def idp_out_def)

lemma idp_wf_reset: "From \<le> To \<Longrightarrow> idp_wf From To (idp_reset From p) \<and> idp_out From (idp_reset From p) = {}"
  by (auto simp: idp_wf_def idp_reset_def idp_out_def)

lemma idp_allocate_fresh:
  assumes wf: "idp_wf From To p" and alloc: "idp_allocate To p = Inr (i, p')"
  shows "i \<notin> idp_out From p \<and> From \<le> i \<and> i < To \<and> idp_wf From To p' \<and>
         idp_out From p' = insert i (idp_out From p)"
proof (cases "recycled_ids p")
  case Nil
  with alloc have lt: "next_id p < To" and id: "i = next_id p"
    and p': "p' = p\<lparr>next_id := next_id p + 1\<rparr>"
    by (auto simp: idp_allocate_def split: if_splits)
  have "next_id p + 1 \<le> To" using lt by (rule inc_le)
  moreover have "From \<le> next_id p + 1"
    using wf lt by (meson idp_wf_def less_imp_le order_trans word_less_Suc order_refl)
  ultimately show ?thesis using wf lt Nil
    by (auto simp: id p' idp_wf_def idp_out_def word_less_Suc [OF lt])
next
  case (Cons r rest)
  with alloc have id: "i = r" and p': "p' = p\<lparr>recycled_ids := rest\<rparr>"
    by (auto simp: idp_allocate_def)
  from wf Cons show ?thesis
    by (auto simp: id p' idp_wf_def idp_out_def)
qed

lemma idp_recycle_wf:
  assumes wf: "idp_wf From To p" and out: "i \<in> idp_out From p"
  shows "idp_recycle_asserts From To p i \<and> idp_wf From To (idp_recycle p i) \<and>
         idp_out From (idp_recycle p i) = idp_out From p - {i}"
  using assms by (auto simp: idp_wf_def idp_out_def idp_recycle_def idp_recycle_asserts_def)

text \<open>Exhaustion means that every identifier of the range is out.\<close>

lemma idp_allocate_exhausted:
  assumes wf: "idp_wf From To p"
  shows "idp_allocate To p = Inl (Runtime_error ''ID pool exhausted'') \<longleftrightarrow>
         idp_out From p = {From..<To}"
proof (cases "recycled_ids p")
  case Nil
  show ?thesis
  proof
    assume "idp_allocate To p = Inl (Runtime_error ''ID pool exhausted'')"
    with Nil have "\<not> next_id p < To" by (auto simp: idp_allocate_def split: if_splits)
    with wf have "next_id p = To" by (auto simp: idp_wf_def)
    with Nil show "idp_out From p = {From..<To}" by (auto simp: idp_out_def)
  next
    assume out: "idp_out From p = {From..<To}"
    have "\<not> next_id p < To"
    proof
      assume "next_id p < To"
      with wf have "next_id p \<in> {From..<To}" by (auto simp: idp_wf_def)
      with out have "next_id p \<in> idp_out From p" by simp
      then show False by (simp add: idp_out_def)
    qed
    with Nil show "idp_allocate To p = Inl (Runtime_error ''ID pool exhausted'')"
      by (simp add: idp_allocate_def)
  qed
next
  case (Cons r rest)
  with wf have "r \<in> {From..<To}" "r \<notin> idp_out From p" by (auto simp: idp_wf_def idp_out_def)
  with Cons show ?thesis by (auto simp: idp_allocate_def)
qed

text \<open>Sequences of pool operations; an exhausted pool answers \<open>None\<close> and stays as it is.\<close>

datatype 'a idp_op = Allocate | Recycle 'a | Reset

fun idp_step :: "'w::len word \<Rightarrow> 'w word \<Rightarrow> 'w word idp_op \<Rightarrow> 'w word id_pool \<Rightarrow> 'w word option \<times> 'w word id_pool" where
  "idp_step From To Allocate p =
     (case idp_allocate To p of Inr (i, p') \<Rightarrow> (Some i, p') | Inl _ \<Rightarrow> (None, p))"
| "idp_step From To (Recycle i) p = (None, idp_recycle p i)"
| "idp_step From To Reset p = (None, idp_reset From p)"

text \<open>What a client holds: the identifiers allocated and neither recycled nor reset since.\<close>

fun idp_held :: "'w::len word \<Rightarrow> 'w word \<Rightarrow> 'w word idp_op list \<Rightarrow> 'w word id_pool \<Rightarrow> 'w word set \<Rightarrow> ('w word set \<times> 'w word id_pool) option" where
  "idp_held From To [] p held = Some (held, p)"
| "idp_held From To (Allocate # ops) p held =
     (case idp_step From To Allocate p of
        (Some i, p') \<Rightarrow> if i \<in> held then None else idp_held From To ops p' (insert i held)
      | (None, p') \<Rightarrow> idp_held From To ops p' held)"
| "idp_held From To (Recycle i # ops) p held =
     (if i \<in> held
      then if idp_recycle_asserts From To p i
           then idp_held From To ops (snd (idp_step From To (Recycle i) p)) (held - {i})
           else None
      else idp_held From To ops p held)"
| "idp_held From To (Reset # ops) p held = idp_held From To ops (snd (idp_step From To Reset p)) {}"

lemma idp_held_out:
  "idp_wf From To p \<Longrightarrow> From \<le> To \<Longrightarrow> idp_out From p = held \<Longrightarrow>
     \<exists>held' p'. idp_held From To ops p held = Some (held', p') \<and> idp_wf From To p' \<and> idp_out From p' = held'"
proof (induction ops arbitrary: p held)
  case (Cons op ops)
  show ?case
  proof (cases op)
    case Allocate
    show ?thesis
    proof (cases "idp_allocate To p")
      case (Inl e)
      with Allocate Cons show ?thesis by simp
    next
      case (Inr a)
      obtain i p1 where a: "a = (i, p1)" by (cases a)
      note fresh = idp_allocate_fresh [OF Cons.prems(1) Inr [unfolded a]]
      with Allocate Inr a Cons.prems Cons.IH [of p1 "insert i held"] show ?thesis by simp
    qed
  next
    case (Recycle i)
    show ?thesis
    proof (cases "i \<in> held")
      case True
      with Cons.prems have "i \<in> idp_out From p" by simp
      note rec = idp_recycle_wf [OF Cons.prems(1) this]
      with Recycle True Cons.prems Cons.IH [of "idp_recycle p i" "held - {i}"] show ?thesis by simp
    next
      case False
      with Recycle Cons show ?thesis by simp
    qed
  next
    case Reset
    with Cons.IH [of "idp_reset From p" "{}"] idp_wf_reset [OF Cons.prems(2)] Cons.prems(2)
    show ?thesis by simp
  qed
qed auto

text \<open>
  The identifier pool never hands out an identifier that is still held, over any sequence of
  allocations, recyclings of held identifiers and resets; held identifiers stay in the template's
  range, recycling one passes its assert, and allocation fails only when the whole range is held.
\<close>

theorem idp_unique_ids:
  assumes "From \<le> To"
  shows "\<exists>held p. idp_held From To ops (idp_new From) {} = Some (held, p) \<and> held \<subseteq> {From..<To} \<and>
    (idp_allocate To p = Inl (Runtime_error ''ID pool exhausted'') \<longleftrightarrow> held = {From..<To})"
proof -
  obtain held p where hp: "idp_held From To ops (idp_new From) {} = Some (held, p)"
      "idp_wf From To p" "idp_out From p = held"
    using idp_held_out [of From To "idp_new From" "{}" ops] idp_wf_new [OF assms] assms by blast
  have "held \<subseteq> {From..<To}" using hp(2,3) by (auto simp: idp_wf_def idp_out_def)
  with hp idp_allocate_exhausted [OF hp(2)] show ?thesis by blast
qed

theorem idp_unique_ids_witness:
  "\<exists>held p. idp_held 0 2 [Allocate, Allocate, Recycle 0, Allocate, Allocate] (idp_new 0) {} = Some (held, p) \<and>
    held \<subseteq> {0..<2 :: u16} \<and>
    (idp_allocate 2 p = Inl (Runtime_error ''ID pool exhausted'') \<longleftrightarrow> held = {0..<2})"
  by (rule idp_unique_ids) simp

section \<open>RawStorage\<close>

text \<open>
  A slot is raw memory (\<open>None\<close>) or holds a live object. \<open>construct\<close> and \<open>accept\<close> start the
  lifetime, \<open>destroy\<close> ends it; reading a raw slot is undefined behaviour, \<open>None\<close> here.
\<close>

type_synonym 'a raw_storage = "'a option"

definition rs_construct :: "'a \<Rightarrow> 'a raw_storage" where
  "rs_construct v = Some v"

definition rs_get :: "'a raw_storage \<Rightarrow> 'a option" where
  "rs_get s = s"

definition rs_destroy :: "'a raw_storage \<Rightarrow> 'a raw_storage" where
  "rs_destroy s = None"

definition rs_raw :: "'a raw_storage" where
  "rs_raw = None"

section \<open>SmallArray\<close>

text \<open>
  The elements are in the in-object array of \<open>N\<close> elements or in a heap array of \<open>capacity\<close>
  elements, a union that \<open>is_small_\<close> discriminates.
\<close>

record 'a small_array =
  sa_capacity :: nat
  sa_N :: nat
  sa_small :: "'a list"
  sa_large :: "'a list"

definition sa_is_small :: "'a small_array \<Rightarrow> bool" where
  "sa_is_small a \<longleftrightarrow> sa_capacity a \<le> sa_N a"

definition sa_new :: "nat \<Rightarrow> nat \<Rightarrow> 'a \<Rightarrow> 'a small_array" where
  "sa_new n cap init =
     \<lparr>sa_capacity = cap, sa_N = n,
      sa_small = (if cap \<le> n then replicate n init else []),
      sa_large = (if cap \<le> n then [] else replicate cap init)\<rparr>"

definition sa_get :: "'a small_array \<Rightarrow> nat \<Rightarrow> 'a option" where
  "sa_get a i =
     (let xs = (if sa_is_small a then sa_small a else sa_large a)
      in if i < length xs then Some (xs ! i) else None)"

definition sa_set :: "'a small_array \<Rightarrow> nat \<Rightarrow> 'a \<Rightarrow> 'a small_array" where
  "sa_set a i v =
     (if sa_is_small a then a\<lparr>sa_small := (sa_small a)[i := v]\<rparr>
      else a\<lparr>sa_large := (sa_large a)[i := v]\<rparr>)"

definition sa_wf :: "'a small_array \<Rightarrow> bool" where
  "sa_wf a \<longleftrightarrow> (if sa_is_small a then length (sa_small a) = sa_N a
               else length (sa_large a) = sa_capacity a)"

text \<open>The interface of an indexed store.\<close>

locale slot_array =
  fixes wf :: "'s \<Rightarrow> bool"
    and cap :: "'s \<Rightarrow> nat"
    and get :: "'s \<Rightarrow> nat \<Rightarrow> 'v option"
    and set_at :: "'s \<Rightarrow> nat \<Rightarrow> 'v \<Rightarrow> 's"
  assumes get_bound: "wf a \<Longrightarrow> i < cap a \<Longrightarrow> \<exists>v. get a i = Some v"
    and get_set_same: "wf a \<Longrightarrow> i < cap a \<Longrightarrow> get (set_at a i v) i = Some v"
    and get_set_other: "wf a \<Longrightarrow> i \<noteq> j \<Longrightarrow> get (set_at a i v) j = get a j"
    and wf_set: "wf a \<Longrightarrow> wf (set_at a i v)"
    and cap_set: "cap (set_at a i v) = cap a"
begin

lemma get_set: "wf a \<Longrightarrow> i < cap a \<Longrightarrow> get (set_at a i v) j = (if i = j then Some v else get a j)"
  by (simp add: get_set_same get_set_other)

end

interpretation sa: slot_array sa_wf sa_capacity sa_get sa_set
  by unfold_locales
     (auto simp: sa_wf_def sa_get_def sa_set_def sa_is_small_def Let_def split: if_splits)

lemma sa_new_wf: "sa_wf (sa_new n cap v) \<and> sa_capacity (sa_new n cap v) = cap"
  by (simp add: sa_wf_def sa_new_def sa_is_small_def)

lemma sa_new_get: "i < cap \<Longrightarrow> sa_get (sa_new n cap v) i = Some v"
  by (simp add: sa_get_def sa_new_def sa_is_small_def)

section \<open>align\_up\<close>

definition align_up :: "u64 \<Rightarrow> u64 \<Rightarrow> u64" where
  "align_up value alignment = (value + alignment - 1) AND NOT (alignment - 1)"

text \<open>
  For a power-of-two alignment and no overflow, the result is the least multiple of the
  alignment that is not below the value.
\<close>

lemma align_up_correct:
  assumes "k < 64" and "unat value + 2 ^ k \<le> 2 ^ 64"
  shows "unat (align_up value (2 ^ k)) = ((unat value + 2 ^ k - 1) div 2 ^ k) * 2 ^ k"
proof -
  have k: "unat (2 ^ k :: u64) = 2 ^ k" using assms(1) by (simp add: unat_pow2)
  have "unat (value + (2 ^ k - 1) :: u64) = unat value + (2 ^ k - 1)"
  proof -
    have "unat (2 ^ k - 1 :: u64) = 2 ^ k - 1"
      by (subst unat_minus_one) (use assms(1) k in auto)
    then show ?thesis using assms(2) by (subst unat_add_lem [THEN iffD1]) auto
  qed
  then have "unat (align_up value (2 ^ k)) =
      (unat value + (2 ^ k - 1)) - (unat value + (2 ^ k - 1)) mod 2 ^ k"
    by (simp add: align_up_def mask_word unat_and_not_mask add_diff_eq [symmetric])
  then show ?thesis by (simp add: minus_mod_eq_div_mult)
qed

section \<open>tuple\_at\<close>

text \<open>
  The tuple is the list of its elements, the variant the pair of the alternative's index and
  its value. The recursion on the template argument \<open>Idx\<close> walks the tuple; past its end the
  function panics (with clang an assert fails instead).
\<close>

fun tuple_at_from :: "nat \<Rightarrow> 'a list \<Rightarrow> nat \<Rightarrow> (nat \<times> 'a) result" where
  "tuple_at_from Idx [] idx = Inl (Panic ''Index out of bounds in tuple_at'')"
| "tuple_at_from Idx (r # rs) idx =
     (if idx = Idx then Inr (Idx, r) else tuple_at_from (Suc Idx) rs idx)"

definition tuple_at :: "'a list \<Rightarrow> nat \<Rightarrow> (nat \<times> 'a) result" where
  "tuple_at results idx = tuple_at_from 0 results idx"

lemma tuple_at_from_nth:
  "tuple_at_from k rs (k + i) =
     (if i < length rs then Inr (k + i, rs ! i) else Inl (Panic ''Index out of bounds in tuple_at''))"
proof (induction rs arbitrary: k i)
  case (Cons r rs)
  show ?case
  proof (cases i)
    case (Suc j)
    with Cons.IH [of "Suc k" j] show ?thesis by simp
  qed simp
qed simp

lemma tuple_at_nth: "i < length rs \<Longrightarrow> tuple_at rs i = Inr (i, rs ! i)"
  using tuple_at_from_nth [of 0 rs i] by (simp add: tuple_at_def)

end
