(* ===== verification/Channel.thy ===== *)
theory Channel
  imports Intrusive Utils
begin

text \<open>
  \<open>include/condy/channel.hpp\<close>: the bounded channel. This theory holds the channel object, its
  ring buffer and every operation that runs under the channel's mutex, translated with their
  asserts; \<open>Channel_Spec\<close> holds the abstract channel and the refinement.

  The awaiters are the intrusive doubly linked lists of \<open>Intrusive\<close>. The finish handles are kept
  in two heaps, one per handle class. Calls that leave the channel (scheduling a handle on its
  runtime, deleting a fake handle) are returned in the order they are made; none of them reads
  or writes the channel.
\<close>

section \<open>State\<close>

record 'a push_handle =
  ph_runtime :: ptr
  ph_item :: 'a
  ph_moved :: bool
  ph_result :: i32
  ph_stop_callback :: bool

record 'a pop_handle =
  qh_runtime :: ptr
  qh_result :: "i32 \<times> 'a"
  qh_stop_callback :: bool

record 'a channel =
  ch_push_off :: u64
  ch_pop_off :: u64
  ch_push_handles :: "ptr \<Rightarrow> 'a push_handle"
  ch_pop_handles :: "ptr \<Rightarrow> 'a pop_handle"
  ch_push_awaiters :: "dheap \<times> double_link_list"
  ch_pop_awaiters :: "dheap \<times> double_link_list"
  ch_head :: u64
  ch_tail :: u64
  ch_buffer :: "'a raw_storage small_array"
  ch_closed :: bool

text \<open>\<open>Channel(capacity)\<close>; \<open>N\<close> is the template argument of the small buffer.\<close>

definition ch_new :: "nat \<Rightarrow> nat \<Rightarrow> u64 \<Rightarrow> u64 \<Rightarrow> (ptr \<Rightarrow> 'a push_handle) \<Rightarrow> (ptr \<Rightarrow> 'a pop_handle) \<Rightarrow> 'a channel" where
  "ch_new N capacity push_off pop_off phs qhs =
     \<lparr>ch_push_off = push_off, ch_pop_off = pop_off,
      ch_push_handles = phs, ch_pop_handles = qhs,
      ch_push_awaiters = idl_new, ch_pop_awaiters = idl_new,
      ch_head = 0, ch_tail = 0,
      ch_buffer = sa_new N (if capacity \<noteq> 0 then bit_ceil capacity else 0) rs_raw,
      ch_closed = False\<rparr>"

section \<open>The ring buffer\<close>

definition ch_capacity :: "'a channel \<Rightarrow> u64" where
  "ch_capacity c = of_nat (sa_capacity (ch_buffer c))"

definition ch_size_inner :: "'a channel \<Rightarrow> u64" where
  "ch_size_inner c = ch_tail c - ch_head c"

definition ch_no_buffer :: "'a channel \<Rightarrow> bool" where
  "ch_no_buffer c \<longleftrightarrow> ch_capacity c = 0"

definition ch_empty_inner :: "'a channel \<Rightarrow> bool" where
  "ch_empty_inner c \<longleftrightarrow> ch_size_inner c = 0"

definition ch_full_inner :: "'a channel \<Rightarrow> bool" where
  "ch_full_inner c \<longleftrightarrow> ch_size_inner c = ch_capacity c"

definition ch_push_inner :: "'a \<Rightarrow> 'a channel \<Rightarrow> 'a channel option" where
  "ch_push_inner item c = do {
     massert (\<not> ch_full_inner c);
     let m = ch_capacity c - 1;
     let i = unat (ch_tail c AND m);
     _ \<leftarrow> sa_get (ch_buffer c) i;
     Some (c\<lparr>ch_buffer := sa_set (ch_buffer c) i (rs_construct item), ch_tail := ch_tail c + 1\<rparr>)
   }"

definition ch_pop_inner :: "'a channel \<Rightarrow> ('a \<times> 'a channel) option" where
  "ch_pop_inner c = do {
     massert (\<not> ch_empty_inner c);
     let m = ch_capacity c - 1;
     let i = unat (ch_head c AND m);
     slot \<leftarrow> sa_get (ch_buffer c) i;
     item \<leftarrow> rs_get slot;
     Some (item, c\<lparr>ch_buffer := sa_set (ch_buffer c) i (rs_destroy slot), ch_head := ch_head c + 1\<rparr>)
   }"

definition ch_pop_and_push :: "'a \<Rightarrow> 'a channel \<Rightarrow> ('a \<times> 'a channel) option" where
  "ch_pop_and_push item c =
     (if ch_no_buffer c then Some (item, c)
      else do {
        (r, c1) \<leftarrow> ch_pop_inner c;
        c2 \<leftarrow> ch_push_inner item c1;
        Some (r, c2)
      })"

section \<open>Finish handles\<close>

definition ch_upd_push :: "ptr \<Rightarrow> ('a push_handle \<Rightarrow> 'a push_handle) \<Rightarrow> 'a channel \<Rightarrow> 'a channel" where
  "ch_upd_push p f c = c\<lparr>ch_push_handles := (ch_push_handles c)(p := f (ch_push_handles c p))\<rparr>"

definition ch_upd_pop :: "ptr \<Rightarrow> ('a pop_handle \<Rightarrow> 'a pop_handle) \<Rightarrow> 'a channel \<Rightarrow> 'a channel" where
  "ch_upd_pop p f c = c\<lparr>ch_pop_handles := (ch_pop_handles c)(p := f (ch_pop_handles c p))\<rparr>"

text \<open>\<open>PushFinishHandleBase::schedule\<close>: a handle with no runtime is a fake one.\<close>

definition ph_schedule :: "ptr \<Rightarrow> 'a channel \<Rightarrow> call list" where
  "ph_schedule p c =
     (let rt = ph_runtime (ch_push_handles c p)
      in if rt = nullptr then [Delete_handle p] else [Schedule_internal rt p])"

definition qh_schedule :: "ptr \<Rightarrow> 'a channel \<Rightarrow> call list option" where
  "qh_schedule p c = do {
     let rt = qh_runtime (ch_pop_handles c p);
     massert (rt \<noteq> nullptr);
     Some [Schedule_internal rt p]
   }"

definition ph_set_result :: "ptr \<Rightarrow> i32 \<Rightarrow> 'a channel \<Rightarrow> 'a channel" where
  "ph_set_result p r = ch_upd_push p (\<lambda>h. h\<lparr>ph_result := r\<rparr>)"

definition qh_set_result :: "ptr \<Rightarrow> i32 \<times> 'a \<Rightarrow> 'a channel \<Rightarrow> 'a channel" where
  "qh_set_result p r = ch_upd_pop p (\<lambda>h. h\<lparr>qh_result := r\<rparr>)"

text \<open>Moving the item out of a push handle.\<close>

definition ph_move_item :: "ptr \<Rightarrow> 'a channel \<Rightarrow> 'a \<times> 'a channel" where
  "ph_move_item p c = (ph_item (ch_push_handles c p), ch_upd_push p (\<lambda>h. h\<lparr>ph_moved := True\<rparr>) c)"

section \<open>Push and pop under the mutex\<close>

definition ch_try_push_inner :: "'a \<Rightarrow> 'a channel \<Rightarrow> (bool \<times> 'a channel \<times> call list) option" where
  "ch_try_push_inner item c =
     (if \<not> idl_empty (ch_pop_awaiters c) then do {
        massert (ch_empty_inner c);
        let (p, q) = idl_pop_front (ch_pop_off c) (ch_pop_awaiters c);
        let c1 = qh_set_result p (0, item) (c\<lparr>ch_pop_awaiters := q\<rparr>);
        cs \<leftarrow> qh_schedule p c1;
        Some (True, c1, cs)
      }
      else if \<not> ch_full_inner c then do {
        c1 \<leftarrow> ch_push_inner item c;
        Some (True, c1, [])
      }
      else Some (False, c, []))"

definition ch_try_pop_inner :: "'a channel \<Rightarrow> ('a option \<times> 'a channel \<times> call list) option" where
  "ch_try_pop_inner c =
     (if \<not> idl_empty (ch_push_awaiters c) then do {
        massert (ch_full_inner c);
        let (p, q) = idl_pop_front (ch_push_off c) (ch_push_awaiters c);
        let (item, c1) = ph_move_item p (c\<lparr>ch_push_awaiters := q\<rparr>);
        let c2 = ph_set_result p 0 c1;
        let cs = ph_schedule p c2;
        (r, c3) \<leftarrow> ch_pop_and_push item c2;
        Some (Some r, c3, cs)
      }
      else if \<not> ch_empty_inner c then do {
        (r, c1) \<leftarrow> ch_pop_inner c;
        Some (Some r, c1, [])
      }
      else Some (None, c, []))"

definition ch_try_push :: "'a \<Rightarrow> 'a channel \<Rightarrow> (i32 \<times> 'a channel \<times> call list) option" where
  "ch_try_push item c =
     (if ch_closed c then Some (- EPIPE, c, [])
      else do {
        (b, c1, cs) \<leftarrow> ch_try_push_inner item c;
        Some (if b then 0 else - EAGAIN, c1, cs)
      })"

text \<open>\<open>dflt\<close> is the value-initialised \<open>T()\<close>.\<close>

definition ch_try_pop :: "'a \<Rightarrow> 'a channel \<Rightarrow> ((i32 \<times> 'a) \<times> 'a channel \<times> call list) option" where
  "ch_try_pop dflt c = do {
     (r, c1, cs) \<leftarrow> ch_try_pop_inner c;
     Some (case r of Some x \<Rightarrow> (0, x)
           | None \<Rightarrow> if ch_closed c1 then (- EPIPE, dflt) else (- EAGAIN, dflt), c1, cs)
   }"

text \<open>
  \<open>force_push\<close>: \<open>fake\<close> is the address the allocation of the fake handle yields, null when it
  fails. The fake handle has no runtime and owns its item.
\<close>

definition ch_force_push :: "ptr \<Rightarrow> 'a \<Rightarrow> 'a channel \<Rightarrow> ('a channel \<times> call list) result option" where
  "ch_force_push fake item c =
     (if ch_closed c then Some (Inl (Panic ''Push to closed channel''))
      else do {
        (b, c1, cs) \<leftarrow> ch_try_push_inner item c;
        if b then Some (Inr (c1, cs))
        else if fake = nullptr then Some (Inl (Panic ''Allocation failed for PushFinishHandle''))
        else do {
          massert (idl_empty (ch_pop_awaiters c1));
          let c2 = ch_upd_push fake (\<lambda>_. \<lparr>ph_runtime = nullptr, ph_item = item, ph_moved = False,
                     ph_result = - ENOTRECOVERABLE, ph_stop_callback = False\<rparr>) c1;
          Some (Inr (c2\<lparr>ch_push_awaiters := idl_push_back (ch_push_off c2) (ch_push_awaiters c2) fake\<rparr>, cs))
        }
      })"

definition ch_request_push :: "ptr \<Rightarrow> 'a channel \<Rightarrow> (i32 \<times> 'a channel \<times> call list) option" where
  "ch_request_push p c =
     (if ch_closed c then Some (- EPIPE, c, [])
      else do {
        (b, c1, cs) \<leftarrow> ch_try_push_inner (ph_item (ch_push_handles c p)) c;
        if b then Some (0, ch_upd_push p (\<lambda>h. h\<lparr>ph_moved := True\<rparr>) c1, cs)
        else do {
          massert (idl_empty (ch_pop_awaiters c1));
          Some (- EAGAIN,
                c1\<lparr>ch_push_awaiters := idl_push_back (ch_push_off c1) (ch_push_awaiters c1) p\<rparr>, cs)
        }
      })"

definition ch_cancel_push :: "ptr \<Rightarrow> 'a channel \<Rightarrow> bool \<times> 'a channel" where
  "ch_cancel_push p c =
     (let (b, q) = idl_remove (ch_push_off c) (ch_push_awaiters c) p
      in (b, c\<lparr>ch_push_awaiters := q\<rparr>))"

definition ch_request_pop :: "'a \<Rightarrow> ptr \<Rightarrow> 'a channel \<Rightarrow> ((i32 \<times> 'a) \<times> 'a channel \<times> call list) option" where
  "ch_request_pop dflt p c = do {
     (r, c1, cs) \<leftarrow> ch_try_pop_inner c;
     case r of
       Some x \<Rightarrow> Some ((0, x), c1, cs)
     | None \<Rightarrow> do {
         massert (idl_empty (ch_push_awaiters c1));
         if ch_closed c1 then Some ((- EPIPE, dflt), c1, cs)
         else Some ((- EAGAIN, dflt),
                c1\<lparr>ch_pop_awaiters := idl_push_back (ch_pop_off c1) (ch_pop_awaiters c1) p\<rparr>, cs)
       }
   }"

definition ch_cancel_pop :: "ptr \<Rightarrow> 'a channel \<Rightarrow> bool \<times> 'a channel" where
  "ch_cancel_pop p c =
     (let (b, q) = idl_remove (ch_pop_off c) (ch_pop_awaiters c) p
      in (b, c\<lparr>ch_pop_awaiters := q\<rparr>))"

section \<open>Closing and destruction\<close>

text \<open>The two loops of \<open>push_close_inner_\<close>; the calls made so far are an accumulator.\<close>

partial_function (option) ch_close_pops ::
  "'a \<Rightarrow> 'a channel \<Rightarrow> call list \<Rightarrow> ('a channel \<times> call list) option" where
  "ch_close_pops dflt c acc =
     (case idl_pop_front (ch_pop_off c) (ch_pop_awaiters c) of
        (p, q) \<Rightarrow>
          let c1 = c\<lparr>ch_pop_awaiters := q\<rparr> in
          if p = nullptr then Some (c1, acc)
          else do {
            massert (ch_empty_inner c1);
            let c2 = qh_set_result p (- EPIPE, dflt) c1;
            cs \<leftarrow> qh_schedule p c2;
            ch_close_pops dflt c2 (acc @ cs)
          })"

partial_function (option) ch_close_pushes ::
  "'a channel \<Rightarrow> call list \<Rightarrow> ('a channel \<times> call list) option" where
  "ch_close_pushes c acc =
     (case idl_pop_front (ch_push_off c) (ch_push_awaiters c) of
        (p, q) \<Rightarrow>
          let c1 = c\<lparr>ch_push_awaiters := q\<rparr> in
          if p = nullptr then Some (c1, acc)
          else do {
            massert (ch_full_inner c1);
            let c2 = ph_set_result p (- EPIPE) c1;
            ch_close_pushes c2 (acc @ ph_schedule p c2)
          })"

definition ch_push_close :: "'a \<Rightarrow> 'a channel \<Rightarrow> ('a channel \<times> call list) option" where
  "ch_push_close dflt c =
     (if ch_closed c then Some (c, [])
      else do {
        (c1, cs) \<leftarrow> ch_close_pops dflt (c\<lparr>ch_closed := True\<rparr>) [];
        ch_close_pushes c1 cs
      })"

partial_function (option) ch_destruct_all :: "'a channel \<Rightarrow> 'a channel option" where
  "ch_destruct_all c =
     (if \<not> ch_empty_inner c then do {
        (_, c1) \<leftarrow> ch_pop_inner c;
        ch_destruct_all c1
      }
      else do {
        massert (ch_head c = ch_tail c);
        Some c
      })"

text \<open>\<open>~Channel\<close>: close, then destroy what is still buffered.\<close>

definition ch_destroy :: "'a \<Rightarrow> 'a channel \<Rightarrow> ('a channel \<times> call list) option" where
  "ch_destroy dflt c = do {
     (c1, cs) \<leftarrow> ch_push_close dflt c;
     c2 \<leftarrow> ch_destruct_all c1;
     Some (c2, cs)
   }"

section \<open>The operations of the finish handles\<close>

text \<open>
  Each operation returns what the receiver is invoked with, if it is. The receiver's stop token
  is two flags: whether a stop is possible, and whether it has been requested already, in which
  case constructing the stop callback runs it at once.
\<close>

definition ph_new :: "'a \<Rightarrow> 'a push_handle" where
  "ph_new item = \<lparr>ph_runtime = nullptr, ph_item = item, ph_moved = False,
                  ph_result = - ENOTRECOVERABLE, ph_stop_callback = False\<rparr>"

definition qh_new :: "'a \<Rightarrow> 'a pop_handle" where
  "qh_new dflt = \<lparr>qh_runtime = nullptr, qh_result = (- ENOTRECOVERABLE, dflt),
                  qh_stop_callback = False\<rparr>"

definition ph_cancel :: "ptr \<Rightarrow> 'a channel \<Rightarrow> ('a channel \<times> call list) option" where
  "ph_cancel p c =
     (let (b, c1) = ch_cancel_push p c
      in if b then do {
           massert (ph_result (ch_push_handles c1 p) = - ENOTRECOVERABLE);
           let c2 = ph_set_result p (- ECANCELED) c1;
           massert (ph_runtime (ch_push_handles c2 p) \<noteq> nullptr);
           Some (c2, [Schedule_internal (ph_runtime (ch_push_handles c2 p)) p])
         }
         else Some (c1, []))"

definition ph_start :: "bool \<Rightarrow> bool \<Rightarrow> ptr \<Rightarrow> ptr \<Rightarrow> 'a channel \<Rightarrow> (i32 option \<times> 'a channel \<times> call list) option" where
  "ph_start stop_possible stop_requested rt p c = do {
     (r, c1, cs) \<leftarrow> ch_request_push p (ch_upd_push p (\<lambda>h. h\<lparr>ph_runtime := rt\<rparr>) c);
     if r \<noteq> - EAGAIN then Some (Some r, c1, cs)
     else do {
       massert (rt \<noteq> nullptr);
       let cs1 = cs @ [Pend_work rt];
       if \<not> stop_possible then Some (None, c1, cs1)
       else do {
         (c2, cs2) \<leftarrow> (if stop_requested then ph_cancel p c1 else Some (c1, []));
         Some (None, ch_upd_push p (\<lambda>h. h\<lparr>ph_stop_callback := True\<rparr>) c2, cs1 @ cs2)
       }
     }
   }"

definition ph_invoke :: "ptr \<Rightarrow> 'a channel \<Rightarrow> (i32 \<times> 'a channel \<times> call list) option" where
  "ph_invoke p c = do {
     let c1 = ch_upd_push p (\<lambda>h. h\<lparr>ph_stop_callback := False\<rparr>) c;
     let h = ch_push_handles c1 p;
     massert (ph_runtime h \<noteq> nullptr);
     Some (ph_result h, c1, [Resume_work (ph_runtime h)])
   }"

definition qh_cancel :: "ptr \<Rightarrow> 'a channel \<Rightarrow> ('a channel \<times> call list) option" where
  "qh_cancel p c =
     (let (b, c1) = ch_cancel_pop p c
      in if b then do {
           massert (fst (qh_result (ch_pop_handles c1 p)) = - ENOTRECOVERABLE);
           let c2 = qh_set_result p (- ECANCELED, snd (qh_result (ch_pop_handles c1 p))) c1;
           massert (qh_runtime (ch_pop_handles c2 p) \<noteq> nullptr);
           Some (c2, [Schedule_internal (qh_runtime (ch_pop_handles c2 p)) p])
         }
         else Some (c1, []))"

definition qh_start ::
  "'a \<Rightarrow> bool \<Rightarrow> bool \<Rightarrow> ptr \<Rightarrow> ptr \<Rightarrow> 'a channel \<Rightarrow> ((i32 \<times> 'a) option \<times> 'a channel \<times> call list) option" where
  "qh_start dflt stop_possible stop_requested rt p c = do {
     (r, c1, cs) \<leftarrow> ch_request_pop dflt p (ch_upd_pop p (\<lambda>h. h\<lparr>qh_runtime := rt\<rparr>) c);
     if fst r \<noteq> - EAGAIN then Some (Some r, c1, cs)
     else do {
       massert (rt \<noteq> nullptr);
       let cs1 = cs @ [Pend_work rt];
       if \<not> stop_possible then Some (None, c1, cs1)
       else do {
         (c2, cs2) \<leftarrow> (if stop_requested then qh_cancel p c1 else Some (c1, []));
         Some (None, ch_upd_pop p (\<lambda>h. h\<lparr>qh_stop_callback := True\<rparr>) c2, cs1 @ cs2)
       }
     }
   }"

definition qh_invoke :: "ptr \<Rightarrow> 'a channel \<Rightarrow> ((i32 \<times> 'a) \<times> 'a channel \<times> call list) option" where
  "qh_invoke p c = do {
     let c1 = ch_upd_pop p (\<lambda>h. h\<lparr>qh_stop_callback := False\<rparr>) c;
     let h = ch_pop_handles c1 p;
     massert (qh_runtime h \<noteq> nullptr);
     Some (qh_result h, c1, [Resume_work (qh_runtime h)])
   }"

section \<open>The ring buffer as a list\<close>

text \<open>
  \<open>ring_rep h t buf xs\<close>: the slots from \<open>h\<close> on hold \<open>xs\<close>, every other slot is raw. The counters
  run freely modulo $2^{64}$.
\<close>

definition ring_rep :: "u64 \<Rightarrow> u64 \<Rightarrow> 'a raw_storage small_array \<Rightarrow> 'a list \<Rightarrow> bool" where
  "ring_rep h t buf xs \<longleftrightarrow>
     sa_wf buf \<and> (sa_capacity buf = 0 \<or> (\<exists>k<64. sa_capacity buf = 2 ^ k)) \<and>
     length xs \<le> sa_capacity buf \<and> t = h + of_nat (length xs) \<and>
     (\<forall>i. i < sa_capacity buf \<longrightarrow> sa_get buf ((unat h + i) mod sa_capacity buf) =
        Some (if i < length xs then Some (xs ! i) else None))"

lemma ring_capE:
  assumes "ring_rep h t buf xs" and "0 < sa_capacity buf"
  obtains k where "k < 64" and "sa_capacity buf = 2 ^ k"
    and "of_nat (sa_capacity buf) - 1 = (mask k :: u64)"
  using assms by (auto simp: ring_rep_def mask_eq_exp_minus_1)

lemma ring_len_bound: "ring_rep h t buf xs \<Longrightarrow> length xs < 2 ^ 64 \<and> sa_capacity buf < 2 ^ 64"
proof -
  assume rep: "ring_rep h t buf xs"
  have "sa_capacity buf < 2 ^ 64"
  proof (cases "sa_capacity buf = 0")
    case False
    with rep obtain k where "k < 64" "sa_capacity buf = 2 ^ k" by (auto simp: ring_rep_def)
    then show ?thesis using pow2_lt_64 by metis
  qed simp
  with rep show ?thesis by (simp add: ring_rep_def)
qed

lemma ring_size: "ring_rep h t buf xs \<Longrightarrow> t - h = of_nat (length xs)"
  by (simp add: ring_rep_def)

lemma ring_size_eq_iff:
  assumes "ring_rep h t buf xs" and "n < 2 ^ 64"
  shows "t - h = of_nat n \<longleftrightarrow> length xs = n"
proof -
  have "length xs < 2 ^ LENGTH(64)" "n < 2 ^ LENGTH(64)"
    using ring_len_bound [OF assms(1)] assms(2) by simp_all
  then have "(of_nat (length xs) :: u64) = of_nat n \<longleftrightarrow> length xs = n"
    by (rule of_nat_word_eq_iff)
  then show ?thesis by (simp add: ring_size [OF assms(1)])
qed

lemma ring_empty_iff: "ring_rep h t buf xs \<Longrightarrow> t - h = 0 \<longleftrightarrow> xs = []"
  using ring_size_eq_iff [of h t buf xs 0] by simp

lemma ring_full_iff:
  "ring_rep h t buf xs \<Longrightarrow> t - h = of_nat (sa_capacity buf) \<longleftrightarrow> length xs = sa_capacity buf"
  using ring_size_eq_iff [of h t buf xs "sa_capacity buf"] ring_len_bound [of h t buf xs] by simp

text \<open>Writing at the tail appends.\<close>

lemma ring_push:
  assumes rep: "ring_rep h t buf xs" and room: "length xs < sa_capacity buf"
    and i: "i = unat (t AND (of_nat (sa_capacity buf) - 1))"
  shows "sa_get buf i \<noteq> None" and "ring_rep h (t + 1) (sa_set buf i (Some x)) (xs @ [x])"
proof -
  have wf: "sa_wf buf" using rep by (simp add: ring_rep_def)
  from room have pos: "0 < sa_capacity buf" by simp
  then obtain k where k: "k < 64" "sa_capacity buf = 2 ^ k"
      "of_nat (sa_capacity buf) - 1 = (mask k :: u64)"
    by (rule ring_capE [OF rep])
  have t: "t = h + of_nat (length xs)" using rep by (simp add: ring_rep_def)
  have idx: "i = (unat h + length xs) mod sa_capacity buf"
    unfolding i k(3) t using k(1) by (simp add: ring_index k(2))
  have lt: "i < sa_capacity buf" unfolding idx k(2) by simp
  show "sa_get buf i \<noteq> None" using sa.get_bound [OF wf lt] by auto
  show "ring_rep h (t + 1) (sa_set buf i (Some x)) (xs @ [x])"
    unfolding ring_rep_def sa.cap_set
  proof (intro conjI allI impI)
    fix j assume j: "j < sa_capacity buf"
    have "(unat h + j) mod sa_capacity buf = i \<longleftrightarrow> j = length xs"
      unfolding idx using j room by (rule mod_offset_eq_iff)
    with rep j show "sa_get (sa_set buf i (Some x)) ((unat h + j) mod sa_capacity buf) =
        Some (if j < length (xs @ [x]) then Some ((xs @ [x]) ! j) else None)"
      by (auto simp: sa.get_set [OF wf lt] ring_rep_def nth_append)
  qed (use rep room sa.wf_set [OF wf] t in \<open>auto simp: ring_rep_def\<close>)
qed

text \<open>Reading at the head yields the first element; destroying it leaves the rest.\<close>

lemma ring_pop:
  assumes rep: "ring_rep h t buf (x # xs)"
    and i: "i = unat (h AND (of_nat (sa_capacity buf) - 1))"
  shows "sa_get buf i = Some (Some x)" and "ring_rep (h + 1) t (sa_set buf i None) xs"
proof -
  have wf: "sa_wf buf" and room: "Suc (length xs) \<le> sa_capacity buf"
    using rep by (simp_all add: ring_rep_def)
  then have pos: "0 < sa_capacity buf" by simp
  from pos obtain k where k: "k < 64" "sa_capacity buf = 2 ^ k"
      "of_nat (sa_capacity buf) - 1 = (mask k :: u64)"
    by (rule ring_capE [OF rep])
  have idx: "i = unat h mod sa_capacity buf"
    unfolding i k(3) by (simp add: unat_and_mask k(2))
  have lt: "i < sa_capacity buf" unfolding idx k(2) by simp
  have get: "sa_get buf ((unat h + j) mod sa_capacity buf) =
      Some (if j < Suc (length xs) then Some ((x # xs) ! j) else None)"
    if "j < sa_capacity buf" for j
    using rep that by (simp add: ring_rep_def)
  from get [OF pos] show "sa_get buf i = Some (Some x)" by (simp add: idx)
  have shift: "(unat (h + 1) + j) mod sa_capacity buf = (unat h + Suc j) mod sa_capacity buf" for j
  proof -
    have "unat (h + of_nat 1) mod 2 ^ k = (unat h + 1) mod 2 ^ k"
      by (rule unat_plus_mod) (use k(1) in simp)
    then have "(unat (h + 1) mod 2 ^ k + j) mod 2 ^ k = ((unat h + 1) mod 2 ^ k + j) mod 2 ^ k"
      by simp
    then show ?thesis by (simp add: k(2) mod_add_left_eq)
  qed
  show "ring_rep (h + 1) t (sa_set buf i None) xs"
    unfolding ring_rep_def sa.cap_set
  proof (intro conjI allI impI)
    fix j assume j: "j < sa_capacity buf"
    show "sa_get (sa_set buf i None) ((unat (h + 1) + j) mod sa_capacity buf) =
        Some (if j < length xs then Some (xs ! j) else None)"
    proof (cases "Suc j < sa_capacity buf")
      case True
      have "(unat h + Suc j) mod sa_capacity buf = (unat h + 0) mod sa_capacity buf \<longleftrightarrow> Suc j = 0"
        using True pos by (rule mod_offset_eq_iff)
      then have "i \<noteq> (unat h + Suc j) mod sa_capacity buf" by (simp add: idx)
      with get [OF True] show ?thesis
        by (simp add: shift sa.get_set [OF wf lt])
    next
      case False
      with j have last: "Suc j = sa_capacity buf" by simp
      then have "(unat h + Suc j) mod sa_capacity buf = i" by (simp add: idx)
      with last room show ?thesis by (simp add: shift sa.get_set [OF wf lt])
    qed
  qed (use rep sa.wf_set [OF wf] in \<open>auto simp: ring_rep_def algebra_simps\<close>)
qed

lemma ring_new:
  assumes "n \<le> 2 ^ 63"
  shows "ring_rep 0 0 (sa_new N (if n \<noteq> 0 then bit_ceil n else 0) rs_raw) []"
proof -
  have "\<exists>k<64. bit_ceil n = 2 ^ k"
  proof -
    obtain k where k: "bit_ceil n = 2 ^ k" using bit_ceil_pow2 by blast
    have "(2::nat) ^ k < 2 ^ 64" using bit_ceil_bound [OF assms] by (simp add: k)
    then have "k < 64" by (rule power_less_imp_less_exp [rotated]) simp
    with k show ?thesis by blast
  qed
  then show ?thesis
    by (auto simp: ring_rep_def sa_new_wf sa_new_get rs_raw_def)
qed

end
