(* ===== verification/Channel_Spec.thy ===== *)
theory Channel_Spec
  imports Channel
begin

text \<open>
  The contract of the channel: a bounded FIFO with two queues of waiters, and the refinement of
  the contract by the operations of \<open>Channel\<close>. Every refinement lemma also says that the
  concrete operation returns, that is, that no assert of the source fails on the way.
\<close>

section \<open>The abstract channel\<close>

text \<open>
  A waiting push is its handle, the handle's runtime (null for a forced push) and the item; a
  waiting pop is its handle and the handle's runtime. A completion names the handle and the
  result it is woken with. \<open>a_offs\<close> is the layout of the two handle classes (the offsets of their
  link entries), which says what addresses can wait.
\<close>

record 'a achannel =
  a_offs :: "u64 \<times> u64"
  a_cap :: nat
  a_buf :: "'a list"
  a_push :: "(ptr \<times> ptr \<times> 'a) list"
  a_pop :: "(ptr \<times> ptr) list"
  a_closed :: bool

datatype 'a completion =
    Push_done ptr ptr i32
  | Pop_done ptr ptr "i32 \<times> 'a"

fun completion_call :: "'a completion \<Rightarrow> call" where
  "completion_call (Push_done p rt r) =
     (if rt = nullptr then Delete_handle p else Schedule_internal rt p)"
| "completion_call (Pop_done p rt r) = Schedule_internal rt p"

definition a_try_push_inner :: "'a \<Rightarrow> 'a achannel \<Rightarrow> bool \<times> 'a achannel \<times> 'a completion list" where
  "a_try_push_inner x a =
     (case a_pop a of
        (p, rt) # ps \<Rightarrow> (True, a\<lparr>a_pop := ps\<rparr>, [Pop_done p rt (0, x)])
      | [] \<Rightarrow> if length (a_buf a) < a_cap a then (True, a\<lparr>a_buf := a_buf a @ [x]\<rparr>, [])
              else (False, a, []))"

definition a_try_pop_inner :: "'a achannel \<Rightarrow> 'a option \<times> 'a achannel \<times> 'a completion list" where
  "a_try_pop_inner a =
     (case a_push a of
        (p, rt, x) # ps \<Rightarrow>
          (Some (hd (a_buf a @ [x])), a\<lparr>a_push := ps, a_buf := tl (a_buf a @ [x])\<rparr>,
           [Push_done p rt 0])
      | [] \<Rightarrow> (case a_buf a of
                 [] \<Rightarrow> (None, a, [])
               | y # ys \<Rightarrow> (Some y, a\<lparr>a_buf := ys\<rparr>, [])))"

definition a_try_push :: "'a \<Rightarrow> 'a achannel \<Rightarrow> i32 \<times> 'a achannel \<times> 'a completion list" where
  "a_try_push x a =
     (if a_closed a then (- EPIPE, a, [])
      else let (b, a1, cs) = a_try_push_inner x a in (if b then 0 else - EAGAIN, a1, cs))"

definition a_try_pop :: "'a \<Rightarrow> 'a achannel \<Rightarrow> (i32 \<times> 'a) \<times> 'a achannel \<times> 'a completion list" where
  "a_try_pop dflt a =
     (let (r, a1, cs) = a_try_pop_inner a
      in (case r of Some x \<Rightarrow> (0, x)
          | None \<Rightarrow> (if a_closed a1 then - EPIPE else - EAGAIN, dflt), a1, cs))"

definition a_request_push :: "ptr \<Rightarrow> ptr \<Rightarrow> 'a \<Rightarrow> 'a achannel \<Rightarrow> i32 \<times> 'a achannel \<times> 'a completion list" where
  "a_request_push p rt x a =
     (if a_closed a then (- EPIPE, a, [])
      else let (b, a1, cs) = a_try_push_inner x a
           in if b then (0, a1, cs) else (- EAGAIN, a1\<lparr>a_push := a_push a1 @ [(p, rt, x)]\<rparr>, cs))"

definition a_request_pop :: "'a \<Rightarrow> ptr \<Rightarrow> ptr \<Rightarrow> 'a achannel \<Rightarrow> (i32 \<times> 'a) \<times> 'a achannel \<times> 'a completion list" where
  "a_request_pop dflt p rt a =
     (let (r, a1, cs) = a_try_pop_inner a
      in case r of Some x \<Rightarrow> ((0, x), a1, cs)
         | None \<Rightarrow> if a_closed a1 then ((- EPIPE, dflt), a1, cs)
                   else ((- EAGAIN, dflt), a1\<lparr>a_pop := a_pop a1 @ [(p, rt)]\<rparr>, cs))"

definition a_close :: "'a \<Rightarrow> 'a achannel \<Rightarrow> 'a achannel \<times> 'a completion list" where
  "a_close dflt a =
     (if a_closed a then (a, [])
      else (a\<lparr>a_closed := True, a_pop := [], a_push := []\<rparr>,
            map (\<lambda>(p, rt). Pop_done p rt (- EPIPE, dflt)) (a_pop a) @
            map (\<lambda>(p, rt, x). Push_done p rt (- EPIPE)) (a_push a)))"

definition a_cancel_push :: "ptr \<Rightarrow> 'a achannel \<Rightarrow> bool \<times> 'a achannel" where
  "a_cancel_push p a =
     (p \<in> fst ` set (a_push a), a\<lparr>a_push := filter (\<lambda>w. fst w \<noteq> p) (a_push a)\<rparr>)"

definition a_cancel_pop :: "ptr \<Rightarrow> 'a achannel \<Rightarrow> bool \<times> 'a achannel" where
  "a_cancel_pop p a =
     (p \<in> fst ` set (a_pop a), a\<lparr>a_pop := filter (\<lambda>w. fst w \<noteq> p) (a_pop a)\<rparr>)"

text \<open>
  The invariant: pops wait only on an empty channel with no waiting push, pushes wait only on a
  full one, and a closed channel has no waiters.
\<close>

definition a_wf :: "'a achannel \<Rightarrow> bool" where
  "a_wf a \<longleftrightarrow> length (a_buf a) \<le> a_cap a \<and>
     (a_pop a \<noteq> [] \<longrightarrow> a_buf a = [] \<and> a_push a = []) \<and>
     (a_push a \<noteq> [] \<longrightarrow> length (a_buf a) = a_cap a) \<and>
     (a_closed a \<longrightarrow> a_pop a = [] \<and> a_push a = [])"

lemma a_try_push_inner_wf:
  "a_wf a \<Longrightarrow> a_try_push_inner x a = (b, a', cs) \<Longrightarrow> a_wf a'"
  by (auto simp: a_wf_def a_try_push_inner_def split: list.splits if_splits)

lemma a_try_pop_inner_wf: "a_wf a \<Longrightarrow> a_try_pop_inner a = (r, a', cs) \<Longrightarrow> a_wf a'"
  by (auto simp: a_wf_def a_try_pop_inner_def split: list.splits if_splits)

section \<open>The simulation relation\<close>

text \<open>A push handle that holds its item and has no result yet.\<close>

definition push_fresh :: "'a push_handle \<Rightarrow> ptr \<Rightarrow> 'a \<Rightarrow> bool" where
  "push_fresh h rt x \<longleftrightarrow> ph_runtime h = rt \<and> ph_item h = x \<and> \<not> ph_moved h \<and>
     ph_result h = - ENOTRECOVERABLE"

definition ch_rel :: "'a channel \<Rightarrow> 'a achannel \<Rightarrow> bool" where
  "ch_rel c a \<longleftrightarrow>
     a_offs a = (ch_push_off c, ch_pop_off c) \<and>
     ring_rep (ch_head c) (ch_tail c) (ch_buffer c) (a_buf a) \<and>
     sa_capacity (ch_buffer c) = a_cap a \<and> ch_closed c = a_closed a \<and>
     idl_rep (ch_push_off c) (ch_push_awaiters c) (map fst (a_push a)) \<and>
     idl_rep (ch_pop_off c) (ch_pop_awaiters c) (map fst (a_pop a)) \<and>
     (\<forall>(p, rt, x) \<in> set (a_push a). push_fresh (ch_push_handles c p) rt x) \<and>
     (\<forall>(p, rt) \<in> set (a_pop a). rt \<noteq> nullptr \<and> qh_runtime (ch_pop_handles c p) = rt \<and>
        fst (qh_result (ch_pop_handles c p)) = - ENOTRECOVERABLE)"

text \<open>
  The results that completions carry are stored in the handles; the item of a pop is meaningful
  when its result is 0.
\<close>

fun delivered1 :: "'a channel \<Rightarrow> 'a completion \<Rightarrow> bool" where
  "delivered1 c (Push_done p rt r) \<longleftrightarrow>
     ph_result (ch_push_handles c p) = r \<and> ph_runtime (ch_push_handles c p) = rt"
| "delivered1 c (Pop_done p rt r) \<longleftrightarrow>
     fst (qh_result (ch_pop_handles c p)) = fst r \<and>
     (fst r = 0 \<longrightarrow> snd (qh_result (ch_pop_handles c p)) = snd r) \<and>
     qh_runtime (ch_pop_handles c p) = rt"

definition delivered :: "'a channel \<Rightarrow> 'a completion list \<Rightarrow> bool" where
  "delivered c cs \<longleftrightarrow> (\<forall>d \<in> set cs. delivered1 c d)"

lemma ch_rel_size:
  assumes "ch_rel c a"
  shows "ch_empty_inner c \<longleftrightarrow> a_buf a = []"
    and "ch_full_inner c \<longleftrightarrow> length (a_buf a) = a_cap a"
    and "ch_no_buffer c \<longleftrightarrow> a_cap a = 0"
    and "idl_empty (ch_push_awaiters c) \<longleftrightarrow> a_push a = []"
    and "idl_empty (ch_pop_awaiters c) \<longleftrightarrow> a_pop a = []"
proof -
  have ring: "ring_rep (ch_head c) (ch_tail c) (ch_buffer c) (a_buf a)"
    and cap: "sa_capacity (ch_buffer c) = a_cap a"
    using assms by (simp_all add: ch_rel_def)
  show "ch_empty_inner c \<longleftrightarrow> a_buf a = []"
    using ring_empty_iff [OF ring] by (simp add: ch_empty_inner_def ch_size_inner_def)
  show "ch_full_inner c \<longleftrightarrow> length (a_buf a) = a_cap a"
    using ring_full_iff [OF ring] cap
    by (simp add: ch_full_inner_def ch_size_inner_def ch_capacity_def)
  have "a_cap a < 2 ^ LENGTH(64)" using ring_len_bound [OF ring] cap by simp
  then have "(of_nat (a_cap a) :: u64) = of_nat 0 \<longleftrightarrow> a_cap a = 0"
    by (rule of_nat_word_eq_iff) simp
  then show "ch_no_buffer c \<longleftrightarrow> a_cap a = 0"
    by (simp add: ch_no_buffer_def ch_capacity_def cap)
  have "idl_rep (ch_push_off c) (ch_push_awaiters c) (map fst (a_push a))"
    using assms by (simp add: ch_rel_def)
  from idl.rep_is_empty [OF this] show "idl_empty (ch_push_awaiters c) \<longleftrightarrow> a_push a = []"
    by simp
  have "idl_rep (ch_pop_off c) (ch_pop_awaiters c) (map fst (a_pop a))"
    using assms by (simp add: ch_rel_def)
  from idl.rep_is_empty [OF this] show "idl_empty (ch_pop_awaiters c) \<longleftrightarrow> a_pop a = []"
    by simp
qed

text \<open>The channel after a change of the ring buffer only.\<close>

definition ch_ring_eq :: "'a channel \<Rightarrow> 'a channel \<Rightarrow> bool" where
  "ch_ring_eq c c' \<longleftrightarrow>
     ch_push_off c' = ch_push_off c \<and> ch_pop_off c' = ch_pop_off c \<and>
     ch_push_handles c' = ch_push_handles c \<and> ch_pop_handles c' = ch_pop_handles c \<and>
     ch_push_awaiters c' = ch_push_awaiters c \<and> ch_pop_awaiters c' = ch_pop_awaiters c \<and>
     ch_closed c' = ch_closed c"

lemma ch_push_inner_sim:
  assumes rel: "ch_rel c a" and room: "length (a_buf a) < a_cap a"
  shows "\<exists>c'. ch_push_inner x c = Some c' \<and> ch_rel c' (a\<lparr>a_buf := a_buf a @ [x]\<rparr>) \<and> ch_ring_eq c c'"
proof -
  let ?i = "unat (ch_tail c AND (ch_capacity c - 1))"
  have ring: "ring_rep (ch_head c) (ch_tail c) (ch_buffer c) (a_buf a)"
    and cap: "sa_capacity (ch_buffer c) = a_cap a"
    using rel by (simp_all add: ch_rel_def)
  have lt: "length (a_buf a) < sa_capacity (ch_buffer c)" using room cap by simp
  obtain v where v: "sa_get (ch_buffer c) ?i = Some v"
    using ring_push(1) [OF ring lt refl] by (auto simp: ch_capacity_def)
  have nf: "\<not> ch_full_inner c" using ch_rel_size(2) [OF rel] room by simp
  let ?c' = "c\<lparr>ch_buffer := sa_set (ch_buffer c) ?i (rs_construct x), ch_tail := ch_tail c + 1\<rparr>"
  have "ch_push_inner x c = Some ?c'"
    using nf v by (simp add: ch_push_inner_def Let_def)
  moreover have "ch_rel ?c' (a\<lparr>a_buf := a_buf a @ [x]\<rparr>)"
    using rel ring_push(2) [OF ring lt refl, of x] cap by (simp add: ch_rel_def rs_construct_def ch_capacity_def sa.cap_set)
  moreover have "ch_ring_eq c ?c'" by (simp add: ch_ring_eq_def)
  ultimately show ?thesis by blast
qed

lemma ch_pop_inner_sim:
  assumes rel: "ch_rel c a" and buf: "a_buf a = y # ys"
  shows "\<exists>c'. ch_pop_inner c = Some (y, c') \<and> ch_rel c' (a\<lparr>a_buf := ys\<rparr>) \<and> ch_ring_eq c c'"
proof -
  let ?i = "unat (ch_head c AND (ch_capacity c - 1))"
  have ring: "ring_rep (ch_head c) (ch_tail c) (ch_buffer c) (y # ys)"
    and cap: "sa_capacity (ch_buffer c) = a_cap a"
    using rel buf by (simp_all add: ch_rel_def)
  note pop = ring_pop [OF ring refl]
  have ne: "\<not> ch_empty_inner c" using ch_rel_size(1) [OF rel] buf by simp
  let ?c' = "c\<lparr>ch_buffer := sa_set (ch_buffer c) ?i None, ch_head := ch_head c + 1\<rparr>"
  have "ch_pop_inner c = Some (y, ?c')"
    using ne pop(1) by (simp add: ch_pop_inner_def Let_def rs_get_def rs_destroy_def ch_capacity_def)
  moreover have "ch_rel ?c' (a\<lparr>a_buf := ys\<rparr>)"
    using rel pop(2) cap by (simp add: ch_rel_def ch_capacity_def sa.cap_set)
  moreover have "ch_ring_eq c ?c'" by (simp add: ch_ring_eq_def)
  ultimately show ?thesis by blast
qed

text \<open>An operation changes only handles that were waiting.\<close>

definition ch_frame :: "'a achannel \<Rightarrow> 'a channel \<Rightarrow> 'a channel \<Rightarrow> bool" where
  "ch_frame a c c' \<longleftrightarrow>
     ch_push_off c' = ch_push_off c \<and> ch_pop_off c' = ch_pop_off c \<and>
     (\<forall>p. p \<notin> fst ` set (a_push a) \<longrightarrow> ch_push_handles c' p = ch_push_handles c p) \<and>
     (\<forall>p. p \<notin> fst ` set (a_pop a) \<longrightarrow> ch_pop_handles c' p = ch_pop_handles c p)"

lemma ch_frame_refl [simp]: "ch_frame a c c"
  by (simp add: ch_frame_def)

lemma ch_ring_eq_frame: "ch_ring_eq c c' \<Longrightarrow> ch_frame a c c'"
  by (simp add: ch_frame_def ch_ring_eq_def)

lemma ch_rel_pop_hd:
  assumes rel: "ch_rel c a" and hd: "a_pop a = (p, rt) # ps"
  obtains q where "idl_pop_front (ch_pop_off c) (ch_pop_awaiters c) = (p, q)"
    and "idl_rep (ch_pop_off c) q (map fst ps)" and "p \<notin> fst ` set ps"
    and "rt \<noteq> nullptr" and "qh_runtime (ch_pop_handles c p) = rt" and "p \<noteq> nullptr"
proof -
  have rep: "idl_rep (ch_pop_off c) (ch_pop_awaiters c) (p # map fst ps)"
    using rel hd by (simp add: ch_rel_def)
  show thesis
  proof (rule that [of "snd (idl_pop_front (ch_pop_off c) (ch_pop_awaiters c))"])
    show "idl_pop_front (ch_pop_off c) (ch_pop_awaiters c) =
        (p, snd (idl_pop_front (ch_pop_off c) (ch_pop_awaiters c)))"
      using idl.rep_pop_Cons [OF rep] by (metis prod.collapse)
    show "idl_rep (ch_pop_off c) (snd (idl_pop_front (ch_pop_off c) (ch_pop_awaiters c))) (map fst ps)"
      using idl.rep_pop_Cons [OF rep] by simp
    show "p \<notin> fst ` set ps" using idl.rep_distinct [OF rep] by simp
    show "rt \<noteq> nullptr" "qh_runtime (ch_pop_handles c p) = rt"
      using rel hd by (simp_all add: ch_rel_def)
    show "p \<noteq> nullptr" using idl.ok_not_null [OF idl.rep_ok [OF rep, of p]] by simp
  qed
qed

lemma ch_rel_push_hd:
  assumes rel: "ch_rel c a" and hd: "a_push a = (p, rt, x) # ps"
  obtains q where "idl_pop_front (ch_push_off c) (ch_push_awaiters c) = (p, q)"
    and "idl_rep (ch_push_off c) q (map fst ps)" and "p \<notin> fst ` set ps"
    and "ph_item (ch_push_handles c p) = x" and "ph_runtime (ch_push_handles c p) = rt"
    and "p \<noteq> nullptr"
proof -
  have rep: "idl_rep (ch_push_off c) (ch_push_awaiters c) (p # map fst ps)"
    using rel hd by (simp add: ch_rel_def)
  show thesis
  proof (rule that [of "snd (idl_pop_front (ch_push_off c) (ch_push_awaiters c))"])
    show "idl_pop_front (ch_push_off c) (ch_push_awaiters c) =
        (p, snd (idl_pop_front (ch_push_off c) (ch_push_awaiters c)))"
      using idl.rep_pop_Cons [OF rep] by (metis prod.collapse)
    show "idl_rep (ch_push_off c) (snd (idl_pop_front (ch_push_off c) (ch_push_awaiters c))) (map fst ps)"
      using idl.rep_pop_Cons [OF rep] by simp
    show "p \<notin> fst ` set ps" using idl.rep_distinct [OF rep] by simp
    show "ph_item (ch_push_handles c p) = x" "ph_runtime (ch_push_handles c p) = rt"
      using rel hd by (simp_all add: ch_rel_def push_fresh_def)
    show "p \<noteq> nullptr" using idl.ok_not_null [OF idl.rep_ok [OF rep, of p]] by simp
  qed
qed

text \<open>Waking the first waiting pop: the channel with that waiter gone and its result stored.\<close>

lemma ch_rel_wake_pop:
  assumes rel: "ch_rel c a" and hd: "a_pop a = (p, rt) # ps"
    and q: "idl_rep (ch_pop_off c) q (map fst ps)" and p: "p \<notin> fst ` set ps"
  shows "ch_rel (qh_set_result p r (c\<lparr>ch_pop_awaiters := q\<rparr>)) (a\<lparr>a_pop := ps\<rparr>)"
    and "delivered1 (qh_set_result p r (c\<lparr>ch_pop_awaiters := q\<rparr>)) (Pop_done p rt r)"
    and "ch_frame a c (qh_set_result p r (c\<lparr>ch_pop_awaiters := q\<rparr>))"
proof -
  have "p' \<noteq> p" if "(p', rt') \<in> set ps" for p' rt'
    using that p by force
  then show "ch_rel (qh_set_result p r (c\<lparr>ch_pop_awaiters := q\<rparr>)) (a\<lparr>a_pop := ps\<rparr>)"
    using rel hd q by (auto simp: ch_rel_def qh_set_result_def ch_upd_pop_def)
  show "delivered1 (qh_set_result p r (c\<lparr>ch_pop_awaiters := q\<rparr>)) (Pop_done p rt r)"
    using rel hd by (auto simp: ch_rel_def qh_set_result_def ch_upd_pop_def)
  show "ch_frame a c (qh_set_result p r (c\<lparr>ch_pop_awaiters := q\<rparr>))"
    using hd by (auto simp: ch_frame_def qh_set_result_def ch_upd_pop_def)
qed

lemma ch_rel_wake_push:
  assumes rel: "ch_rel c a" and hd: "a_push a = (p, rt, x) # ps"
    and q: "idl_rep (ch_push_off c) q (map fst ps)" and p: "p \<notin> fst ` set ps"
    and c': "c' = c\<lparr>ch_push_awaiters := q, ch_push_handles :=
               (ch_push_handles c)(p := (ch_push_handles c p)\<lparr>ph_moved := m, ph_result := r\<rparr>)\<rparr>"
  shows "ch_rel c' (a\<lparr>a_push := ps\<rparr>)" and "delivered1 c' (Push_done p rt r)" and "ch_frame a c c'"
    and "ph_schedule p c' = [completion_call (Push_done p rt r)]"
proof -
  have rt: "ph_runtime (ch_push_handles c p) = rt"
    by (rule ch_rel_push_hd [OF rel hd]) simp
  have "p' \<noteq> p" if "(p', w) \<in> set ps" for p' w
    using that p by force
  then show "ch_rel c' (a\<lparr>a_push := ps\<rparr>)"
    using rel hd q unfolding c' ch_rel_def by auto
  show "delivered1 c' (Push_done p rt r)" by (simp add: c' rt)
  show "ch_frame a c c'" using hd by (auto simp: ch_frame_def c')
  show "ph_schedule p c' = [completion_call (Push_done p rt r)]"
    by (simp add: ph_schedule_def c' rt)
qed

lemma ch_frame_ring: "ch_frame a c c1 \<Longrightarrow> ch_ring_eq c1 c2 \<Longrightarrow> ch_frame a c c2"
  by (simp add: ch_frame_def ch_ring_eq_def)

lemma delivered_ring: "ch_ring_eq c1 c2 \<Longrightarrow> delivered1 c2 d = delivered1 c1 d"
  by (cases d) (simp_all add: ch_ring_eq_def)

lemma ch_try_push_inner_sim:
  assumes rel: "ch_rel c a" and wf: "a_wf a" and spec: "a_try_push_inner x a = (b, a', ds)"
  shows "\<exists>c'. ch_try_push_inner x c = Some (b, c', map completion_call ds) \<and>
              ch_rel c' a' \<and> delivered c' ds \<and> ch_frame a c c'"
proof (cases "a_pop a")
  case Nil
  show ?thesis
  proof (cases "length (a_buf a) < a_cap a")
    case True
    obtain c' where "ch_push_inner x c = Some c'" "ch_rel c' (a\<lparr>a_buf := a_buf a @ [x]\<rparr>)" "ch_ring_eq c c'"
      using ch_push_inner_sim [OF rel True] by blast
    with Nil True spec ch_rel_size [OF rel] show ?thesis
      by (auto simp: a_try_push_inner_def ch_try_push_inner_def delivered_def ch_ring_eq_frame)
  next
    case False
    with wf have "length (a_buf a) = a_cap a" by (simp add: a_wf_def)
    with False Nil spec rel ch_rel_size [OF rel] show ?thesis
      by (auto simp: a_try_push_inner_def ch_try_push_inner_def delivered_def)
  qed
next
  case (Cons w ps)
  then obtain p rt where hd: "a_pop a = (p, rt) # ps" by (cases w) simp
  obtain q where q: "idl_pop_front (ch_pop_off c) (ch_pop_awaiters c) = (p, q)"
      "idl_rep (ch_pop_off c) q (map fst ps)" "p \<notin> fst ` set ps"
      "rt \<noteq> nullptr" "qh_runtime (ch_pop_handles c p) = rt"
    by (rule ch_rel_pop_hd [OF rel hd])
  note wake = ch_rel_wake_pop [OF rel hd q(2,3), of "(0, x)"]
  have "ch_empty_inner c" using wf hd by (simp add: ch_rel_size [OF rel] a_wf_def)
  moreover have "qh_schedule p (qh_set_result p (0, x) (c\<lparr>ch_pop_awaiters := q\<rparr>)) =
      Some [Schedule_internal rt p]"
    using q(4,5) by (simp add: qh_schedule_def qh_set_result_def ch_upd_pop_def)
  ultimately have "ch_try_push_inner x c =
      Some (True, qh_set_result p (0, x) (c\<lparr>ch_pop_awaiters := q\<rparr>), [Schedule_internal rt p])"
    using hd by (simp add: ch_try_push_inner_def ch_rel_size [OF rel] q(1))
  with wake spec hd show ?thesis
    by (auto simp: a_try_push_inner_def delivered_def)
qed

lemma ch_pop_and_push_sim:
  assumes rel: "ch_rel c a" and full: "length (a_buf a) = a_cap a"
  shows "\<exists>c'. ch_pop_and_push x c = Some (hd (a_buf a @ [x]), c') \<and>
              ch_rel c' (a\<lparr>a_buf := tl (a_buf a @ [x])\<rparr>) \<and> ch_ring_eq c c'"
proof (cases "a_buf a")
  case Nil
  then have "ch_no_buffer c" using full by (simp add: ch_rel_size [OF rel])
  moreover have "ch_rel c (a\<lparr>a_buf := []\<rparr>)" using rel Nil by (simp add: ch_rel_def)
  ultimately show ?thesis using Nil by (simp add: ch_pop_and_push_def ch_ring_eq_def)
next
  case (Cons y ys)
  then have nb: "\<not> ch_no_buffer c" using full by (auto simp: ch_rel_size [OF rel])
  obtain c1 where c1: "ch_pop_inner c = Some (y, c1)" "ch_rel c1 (a\<lparr>a_buf := ys\<rparr>)" "ch_ring_eq c c1"
    using ch_pop_inner_sim [OF rel Cons] by blast
  have "length (a_buf (a\<lparr>a_buf := ys\<rparr>)) < a_cap (a\<lparr>a_buf := ys\<rparr>)" using full Cons by simp
  from ch_push_inner_sim [OF c1(2) this] obtain c2 where
    c2: "ch_push_inner x c1 = Some c2" "ch_rel c2 (a\<lparr>a_buf := ys @ [x]\<rparr>)" "ch_ring_eq c1 c2"
    by auto
  have "ch_ring_eq c c2" using c1(3) c2(3) by (simp add: ch_ring_eq_def)
  with Cons nb c1(1) c2(1,2) show ?thesis by (simp add: ch_pop_and_push_def)
qed

lemma ch_try_pop_inner_sim:
  assumes rel: "ch_rel c a" and wf: "a_wf a" and spec: "a_try_pop_inner a = (r, a', ds)"
  shows "\<exists>c'. ch_try_pop_inner c = Some (r, c', map completion_call ds) \<and>
              ch_rel c' a' \<and> delivered c' ds \<and> ch_frame a c c'"
proof (cases "a_push a")
  case Nil
  show ?thesis
  proof (cases "a_buf a")
    case (Cons y ys)
    obtain c' where "ch_pop_inner c = Some (y, c')" "ch_rel c' (a\<lparr>a_buf := ys\<rparr>)" "ch_ring_eq c c'"
      using ch_pop_inner_sim [OF rel Cons] by blast
    with Nil Cons spec show ?thesis
      by (auto simp: a_try_pop_inner_def ch_try_pop_inner_def ch_rel_size [OF rel] delivered_def
            ch_ring_eq_frame)
  qed (use Nil spec rel in \<open>auto simp: a_try_pop_inner_def ch_try_pop_inner_def
          ch_rel_size [OF rel] delivered_def\<close>)
next
  case (Cons w ps)
  then obtain p rt x where hd: "a_push a = (p, rt, x) # ps" by (cases w) simp
  obtain q where q: "idl_pop_front (ch_push_off c) (ch_push_awaiters c) = (p, q)"
      "idl_rep (ch_push_off c) q (map fst ps)" "p \<notin> fst ` set ps"
      "ph_item (ch_push_handles c p) = x"
    by (rule ch_rel_push_hd [OF rel hd])
  let ?c1 = "c\<lparr>ch_push_awaiters := q, ch_push_handles :=
               (ch_push_handles c)(p := (ch_push_handles c p)\<lparr>ph_moved := True, ph_result := 0\<rparr>)\<rparr>"
  note wake = ch_rel_wake_push [OF rel hd q(2,3) refl, where m = True and r = 0]
  have full: "length (a_buf (a\<lparr>a_push := ps\<rparr>)) = a_cap (a\<lparr>a_push := ps\<rparr>)"
    using wf hd by (simp add: a_wf_def)
  from ch_pop_and_push_sim [OF wake(1) full, of x] obtain c' where
    c': "ch_pop_and_push x ?c1 = Some (hd (a_buf a @ [x]), c')"
      "ch_rel c' (a\<lparr>a_push := ps, a_buf := tl (a_buf a @ [x])\<rparr>)" "ch_ring_eq ?c1 c'"
    by auto
  have fc: "ch_full_inner c" using wf hd by (simp add: a_wf_def ch_rel_size [OF rel])
  have eff: "ph_set_result p 0 (snd (ph_move_item p (c\<lparr>ch_push_awaiters := q\<rparr>))) = ?c1"
      "fst (ph_move_item p (c\<lparr>ch_push_awaiters := q\<rparr>)) = x"
    using q(4) by (simp_all add: ph_set_result_def ph_move_item_def ch_upd_push_def)
  have "ch_try_pop_inner c = Some (Some (hd (a_buf a @ [x])), c', [completion_call (Push_done p rt 0)])"
    using hd fc c'(1) wake(4) eff
    by (simp add: ch_try_pop_inner_def ch_rel_size [OF rel] q(1) Let_def split_beta)
  moreover have "delivered1 c' (Push_done p rt 0)"
    using wake(2) delivered_ring [OF c'(3)] by blast
  moreover have "ch_frame a c c'" using ch_frame_ring [OF wake(3) c'(3)] .
  moreover have "r = Some (hd (a_buf a @ [x]))"
      "a' = a\<lparr>a_push := ps, a_buf := tl (a_buf a @ [x])\<rparr>" "ds = [Push_done p rt 0]"
    using spec hd by (auto simp: a_try_pop_inner_def)
  ultimately show ?thesis using c'(2) by (simp add: delivered_def)
qed

section \<open>Refinement of the public operations\<close>

lemma ch_rel_closed: "ch_rel c a \<Longrightarrow> ch_closed c = a_closed a"
  by (simp add: ch_rel_def)

lemma ch_try_push_sim:
  assumes rel: "ch_rel c a" and wf: "a_wf a" and spec: "a_try_push x a = (r, a', ds)"
  shows "\<exists>c'. ch_try_push x c = Some (r, c', map completion_call ds) \<and>
              ch_rel c' a' \<and> a_wf a' \<and> delivered c' ds \<and> ch_frame a c c'"
proof (cases "a_closed a")
  case True
  with spec rel wf show ?thesis
    by (auto simp: a_try_push_def ch_try_push_def ch_rel_closed delivered_def)
next
  case False
  obtain b where inner: "a_try_push_inner x a = (b, a', ds)" and r: "r = (if b then 0 else - EAGAIN)"
    using spec False by (auto simp: a_try_push_def split: prod.splits)
  from ch_try_push_inner_sim [OF rel wf inner] False a_try_push_inner_wf [OF wf inner]
  show ?thesis by (auto simp: ch_try_push_def ch_rel_closed [OF rel] r)
qed

lemma ch_try_pop_sim:
  assumes rel: "ch_rel c a" and wf: "a_wf a" and spec: "a_try_pop dflt a = (r, a', ds)"
  shows "\<exists>c'. ch_try_pop dflt c = Some (r, c', map completion_call ds) \<and>
              ch_rel c' a' \<and> a_wf a' \<and> delivered c' ds \<and> ch_frame a c c'"
proof -
  obtain q where inner: "a_try_pop_inner a = (q, a', ds)"
    and r: "r = (case q of Some x \<Rightarrow> (0, x) | None \<Rightarrow> (if a_closed a' then - EPIPE else - EAGAIN, dflt))"
    using spec by (auto simp: a_try_pop_def split: prod.splits)
  obtain c' where c': "ch_try_pop_inner c = Some (q, c', map completion_call ds)"
      "ch_rel c' a'" "delivered c' ds" "ch_frame a c c'"
    using ch_try_pop_inner_sim [OF rel wf inner] by blast
  with a_try_pop_inner_wf [OF wf inner] show ?thesis
    by (auto simp: ch_try_pop_def ch_rel_closed [OF c'(2)] r split: option.splits)
qed

text \<open>Facts about a handle that is not waiting.\<close>

lemma ch_rel_upd_push:
  "ch_rel c a \<Longrightarrow> p \<notin> fst ` set (a_push a) \<Longrightarrow> ch_rel (ch_upd_push p f c) a"
  unfolding ch_rel_def ch_upd_push_def by (auto; force)

lemma ch_rel_upd_pop:
  "ch_rel c a \<Longrightarrow> p \<notin> fst ` set (a_pop a) \<Longrightarrow> ch_rel (ch_upd_pop p f c) a"
  unfolding ch_rel_def ch_upd_pop_def by (auto; force)

lemma a_try_push_inner_False:
  "a_wf a \<Longrightarrow> a_try_push_inner x a = (False, a', ds) \<Longrightarrow>
     a' = a \<and> ds = [] \<and> a_pop a = [] \<and> length (a_buf a) = a_cap a"
  by (auto simp: a_try_push_inner_def a_wf_def split: list.splits if_splits)

lemma a_try_push_inner_True:
  "a_try_push_inner x a = (True, a', ds) \<Longrightarrow>
     a_push a' = a_push a \<and> (\<forall>d\<in>set ds. \<exists>p rt r. d = Pop_done p rt r)"
  by (auto simp: a_try_push_inner_def split: list.splits if_splits)

text \<open>Listing a handle as a waiting push.\<close>

lemma ch_rel_enlist_push:
  assumes rel: "ch_rel c a" and ok: "idl_ok (ch_push_off c) p" and fresh: "p \<notin> fst ` set (a_push a)"
    and h: "push_fresh (ch_push_handles c p) rt x"
  shows "ch_rel (c\<lparr>ch_push_awaiters := idl_push_back (ch_push_off c) (ch_push_awaiters c) p\<rparr>)
           (a\<lparr>a_push := a_push a @ [(p, rt, x)]\<rparr>)"
proof -
  have "idl_rep (ch_push_off c) (ch_push_awaiters c) (map fst (a_push a))"
    using rel by (simp add: ch_rel_def)
  then have "idl_rep (ch_push_off c) (idl_push_back (ch_push_off c) (ch_push_awaiters c) p)
      (map fst (a_push a) @ [p])"
    by (rule idl.rep_push) (use ok fresh in auto)
  with rel h show ?thesis by (auto simp: ch_rel_def)
qed

lemma ch_rel_enlist_pop:
  assumes rel: "ch_rel c a" and ok: "idl_ok (ch_pop_off c) p" and fresh: "p \<notin> fst ` set (a_pop a)"
    and h: "qh_runtime (ch_pop_handles c p) = rt" "rt \<noteq> nullptr"
      "fst (qh_result (ch_pop_handles c p)) = - ENOTRECOVERABLE"
  shows "ch_rel (c\<lparr>ch_pop_awaiters := idl_push_back (ch_pop_off c) (ch_pop_awaiters c) p\<rparr>)
           (a\<lparr>a_pop := a_pop a @ [(p, rt)]\<rparr>)"
proof -
  have "idl_rep (ch_pop_off c) (ch_pop_awaiters c) (map fst (a_pop a))"
    using rel by (simp add: ch_rel_def)
  then have "idl_rep (ch_pop_off c) (idl_push_back (ch_pop_off c) (ch_pop_awaiters c) p)
      (map fst (a_pop a) @ [p])"
    by (rule idl.rep_push) (use ok fresh in auto)
  with rel h show ?thesis by (auto simp: ch_rel_def)
qed

text \<open>
  A handle that is ready to be started: it has its runtime, its item, and no result yet.
\<close>

definition push_ready :: "'a channel \<Rightarrow> ptr \<Rightarrow> ptr \<Rightarrow> 'a \<Rightarrow> bool" where
  "push_ready c p rt x \<longleftrightarrow> idl_ok (ch_push_off c) p \<and> push_fresh (ch_push_handles c p) rt x"

definition pop_ready :: "'a channel \<Rightarrow> ptr \<Rightarrow> ptr \<Rightarrow> bool" where
  "pop_ready c p rt \<longleftrightarrow> idl_ok (ch_pop_off c) p \<and> rt \<noteq> nullptr \<and>
     qh_runtime (ch_pop_handles c p) = rt \<and> fst (qh_result (ch_pop_handles c p)) = - ENOTRECOVERABLE"

lemma ch_request_push_sim:
  assumes rel: "ch_rel c a" and wf: "a_wf a" and spec: "a_request_push p rt x a = (r, a', ds)"
    and ready: "push_ready c p rt x" and fresh: "p \<notin> fst ` set (a_push a)"
  shows "\<exists>c'. ch_request_push p c = Some (r, c', map completion_call ds) \<and>
              ch_rel c' a' \<and> a_wf a' \<and> delivered c' ds \<and>
              ph_moved (ch_push_handles c' p) = (r = 0)"
proof -
  have h: "push_fresh (ch_push_handles c p) rt x" and ok: "idl_ok (ch_push_off c) p"
    using ready by (simp_all add: push_ready_def)
  have item: "ph_item (ch_push_handles c p) = x" and moved: "\<not> ph_moved (ch_push_handles c p)"
    using h by (simp_all add: push_fresh_def)
  show ?thesis
  proof (cases "a_closed a")
    case True
    with spec rel wf moved show ?thesis
      by (auto simp: a_request_push_def ch_request_push_def ch_rel_closed delivered_def)
  next
    case opn: False
    obtain b a1 ds1 where inner: "a_try_push_inner x a = (b, a1, ds1)"
      by (cases "a_try_push_inner x a") auto
    obtain c1 where c1: "ch_try_push_inner x c = Some (b, c1, map completion_call ds1)"
        "ch_rel c1 a1" "delivered c1 ds1" "ch_frame a c c1"
      using ch_try_push_inner_sim [OF rel wf inner] by blast
    show ?thesis
    proof (cases b)
      case True
      let ?c' = "ch_upd_push p (\<lambda>h. h\<lparr>ph_moved := True\<rparr>) c1"
      have "a_try_push_inner x a = (True, a1, ds1)" using inner True by simp
      note pops = a_try_push_inner_True [OF this]
      have "ch_rel ?c' a1" using ch_rel_upd_push [OF c1(2)] fresh pops by simp
      moreover have "delivered ?c' ds1" using c1(3) pops
        by (fastforce simp: delivered_def ch_upd_push_def)
      moreover have "ch_request_push p c = Some (0, ?c', map completion_call ds1)"
        using opn c1(1) True by (simp add: ch_request_push_def item ch_rel_closed [OF rel])
      ultimately show ?thesis
        using spec opn True a_try_push_inner_wf [OF wf inner]
        by (simp add: a_request_push_def inner ch_upd_push_def)
    next
      case False
      have "a_try_push_inner x a = (False, a1, ds1)" using inner False by simp
      note same = a_try_push_inner_False [OF wf this]
      have hc1: "ch_push_handles c1 p = ch_push_handles c p" "ch_push_off c1 = ch_push_off c"
        using c1(4) fresh by (simp_all add: ch_frame_def)
      let ?c' = "c1\<lparr>ch_push_awaiters := idl_push_back (ch_push_off c1) (ch_push_awaiters c1) p\<rparr>"
      have "ch_rel ?c' (a\<lparr>a_push := a_push a @ [(p, rt, x)]\<rparr>)"
        using c1(2) same ok fresh h hc1 by (intro ch_rel_enlist_push) auto
      moreover have "a_wf (a\<lparr>a_push := a_push a @ [(p, rt, x)]\<rparr>)"
        using wf same opn by (simp add: a_wf_def)
      moreover have "ch_request_push p c = Some (- EAGAIN, ?c', [])"
        using opn c1(1) False same ch_rel_size(5) [OF c1(2)]
        by (simp add: ch_request_push_def item ch_rel_closed [OF rel])
      ultimately show ?thesis
        using spec opn False same moved hc1 by (simp add: a_request_push_def inner delivered_def)
    qed
  qed
qed

lemma a_try_pop_inner_None:
  "a_try_pop_inner a = (None, a', ds) \<Longrightarrow> a' = a \<and> ds = [] \<and> a_push a = [] \<and> a_buf a = []"
  by (auto simp: a_try_pop_inner_def split: list.splits)

lemma ch_request_pop_sim:
  assumes rel: "ch_rel c a" and wf: "a_wf a" and spec: "a_request_pop dflt p rt a = (r, a', ds)"
    and ready: "pop_ready c p rt" and fresh: "p \<notin> fst ` set (a_pop a)"
  shows "\<exists>c'. ch_request_pop dflt p c = Some (r, c', map completion_call ds) \<and>
              ch_rel c' a' \<and> a_wf a' \<and> delivered c' ds"
proof -
  obtain q a1 ds1 where inner: "a_try_pop_inner a = (q, a1, ds1)"
    by (cases "a_try_pop_inner a") auto
  obtain c1 where c1: "ch_try_pop_inner c = Some (q, c1, map completion_call ds1)"
      "ch_rel c1 a1" "delivered c1 ds1" "ch_frame a c c1"
    using ch_try_pop_inner_sim [OF rel wf inner] by blast
  show ?thesis
  proof (cases q)
    case (Some x)
    with spec c1 a_try_pop_inner_wf [OF wf inner] show ?thesis
      by (simp add: a_request_pop_def inner ch_request_pop_def)
  next
    case None
    then have "a_try_pop_inner a = (None, a1, ds1)" using inner by simp
    note same = a_try_pop_inner_None [OF this]
    have pe: "idl_empty (ch_push_awaiters c1)" using ch_rel_size(4) [OF c1(2)] same by simp
    show ?thesis
    proof (cases "a_closed a")
      case True
      with None spec c1 wf pe same show ?thesis
        by (simp add: a_request_pop_def inner ch_request_pop_def ch_rel_closed [OF c1(2)])
    next
      case False
      have hc1: "ch_pop_handles c1 p = ch_pop_handles c p" "ch_pop_off c1 = ch_pop_off c"
        using c1(4) fresh by (simp_all add: ch_frame_def)
      let ?c' = "c1\<lparr>ch_pop_awaiters := idl_push_back (ch_pop_off c1) (ch_pop_awaiters c1) p\<rparr>"
      have "ch_rel ?c' (a\<lparr>a_pop := a_pop a @ [(p, rt)]\<rparr>)"
        using c1(2) same ready fresh hc1 by (intro ch_rel_enlist_pop) (auto simp: pop_ready_def)
      moreover have "a_wf (a\<lparr>a_pop := a_pop a @ [(p, rt)]\<rparr>)"
        using wf same False by (simp add: a_wf_def)
      ultimately show ?thesis
        using None spec c1(1) pe same False
        by (simp add: a_request_pop_def inner ch_request_pop_def ch_rel_closed [OF c1(2)] delivered_def)
    qed
  qed
qed

text \<open>A forced push is a push request by a handle without a runtime, and a panic when closed.\<close>

lemma ch_force_push_sim:
  assumes rel: "ch_rel c a" and wf: "a_wf a" and opn: "\<not> a_closed a"
    and spec: "a_request_push fake nullptr x a = (r, a', ds)"
    and ok: "idl_ok (ch_push_off c) fake" and fresh: "fake \<notin> fst ` set (a_push a)"
  shows "\<exists>c'. ch_force_push fake x c = Some (Inr (c', map completion_call ds)) \<and>
              ch_rel c' a' \<and> a_wf a' \<and> delivered c' ds"
proof -
  obtain b a1 ds1 where inner: "a_try_push_inner x a = (b, a1, ds1)"
    by (cases "a_try_push_inner x a") auto
  obtain c1 where c1: "ch_try_push_inner x c = Some (b, c1, map completion_call ds1)"
      "ch_rel c1 a1" "delivered c1 ds1" "ch_frame a c c1"
    using ch_try_push_inner_sim [OF rel wf inner] by blast
  show ?thesis
  proof (cases b)
    case True
    with spec opn c1 a_try_push_inner_wf [OF wf inner] show ?thesis
      by (simp add: a_request_push_def inner ch_force_push_def ch_rel_closed [OF rel])
  next
    case False
    then have "a_try_push_inner x a = (False, a1, ds1)" using inner by simp
    note same = a_try_push_inner_False [OF wf this]
    have off: "ch_push_off c1 = ch_push_off c" using c1(4) by (simp add: ch_frame_def)
    let ?h = "\<lparr>ph_runtime = nullptr, ph_item = x, ph_moved = False,
               ph_result = - ENOTRECOVERABLE, ph_stop_callback = False\<rparr>"
    let ?c2 = "ch_upd_push fake (\<lambda>_. ?h) c1"
    have rel2: "ch_rel ?c2 a" using ch_rel_upd_push [OF c1(2)] fresh same by simp
    have "ch_rel (?c2\<lparr>ch_push_awaiters := idl_push_back (ch_push_off ?c2) (ch_push_awaiters ?c2) fake\<rparr>)
        (a\<lparr>a_push := a_push a @ [(fake, nullptr, x)]\<rparr>)"
      using ok fresh off
      by (intro ch_rel_enlist_push [OF rel2]) (auto simp: ch_upd_push_def push_fresh_def)
    moreover have "a_wf (a\<lparr>a_push := a_push a @ [(fake, nullptr, x)]\<rparr>)"
      using wf same opn by (simp add: a_wf_def)
    moreover have "fake \<noteq> nullptr" using ok by (simp add: idl_ok_def)
    ultimately show ?thesis
      using spec opn c1(1) False same ch_rel_size(5) [OF c1(2)]
      by (simp add: a_request_push_def inner ch_force_push_def ch_rel_closed [OF rel] delivered_def
          Let_def)
  qed
qed

lemma map_fst_filter_remove1:
  "distinct (map fst xs) \<Longrightarrow> map fst (filter (\<lambda>w. fst w \<noteq> p) xs) = remove1 p (map fst xs)"
  by (induction xs) (auto simp: filter_id_conv intro!: arg_cong [where f = "map fst"])

lemma ch_cancel_push_sim:
  assumes rel: "ch_rel c a" and wf: "a_wf a" and ok: "idl_ok (ch_push_off c) p"
    and spec: "a_cancel_push p a = (b, a')"
  shows "\<exists>c'. ch_cancel_push p c = (b, c') \<and> ch_rel c' a' \<and> a_wf a' \<and>
              ch_push_handles c' = ch_push_handles c"
proof -
  have rep: "idl_rep (ch_push_off c) (ch_push_awaiters c) (map fst (a_push a))"
    using rel by (simp add: ch_rel_def)
  let ?q = "snd (idl_remove (ch_push_off c) (ch_push_awaiters c) p)"
  have "fst (idl_remove (ch_push_off c) (ch_push_awaiters c) p) = b"
    using idl.rep_remove [OF rep ok] spec by (auto simp: a_cancel_push_def)
  then have "ch_cancel_push p c = (b, c\<lparr>ch_push_awaiters := ?q\<rparr>)"
    by (simp add: ch_cancel_push_def split_beta)
  moreover have "idl_rep (ch_push_off c) ?q (map fst (filter (\<lambda>w. fst w \<noteq> p) (a_push a)))"
    using idl.rep_remove [OF rep ok] idl.rep_distinct [OF rep] by (simp add: map_fst_filter_remove1)
  then have "ch_rel (c\<lparr>ch_push_awaiters := ?q\<rparr>) a'"
    using rel spec by (auto simp: ch_rel_def a_cancel_push_def)
  moreover have "a_wf a'" using wf spec by (auto simp: a_wf_def a_cancel_push_def)
  ultimately show ?thesis by simp
qed

lemma ch_cancel_pop_sim:
  assumes rel: "ch_rel c a" and wf: "a_wf a" and ok: "idl_ok (ch_pop_off c) p"
    and spec: "a_cancel_pop p a = (b, a')"
  shows "\<exists>c'. ch_cancel_pop p c = (b, c') \<and> ch_rel c' a' \<and> a_wf a' \<and>
              ch_pop_handles c' = ch_pop_handles c"
proof -
  have rep: "idl_rep (ch_pop_off c) (ch_pop_awaiters c) (map fst (a_pop a))"
    using rel by (simp add: ch_rel_def)
  let ?q = "snd (idl_remove (ch_pop_off c) (ch_pop_awaiters c) p)"
  have "fst (idl_remove (ch_pop_off c) (ch_pop_awaiters c) p) = b"
    using idl.rep_remove [OF rep ok] spec by (auto simp: a_cancel_pop_def)
  then have "ch_cancel_pop p c = (b, c\<lparr>ch_pop_awaiters := ?q\<rparr>)"
    by (simp add: ch_cancel_pop_def split_beta)
  moreover have "idl_rep (ch_pop_off c) ?q (map fst (filter (\<lambda>w. fst w \<noteq> p) (a_pop a)))"
    using idl.rep_remove [OF rep ok] idl.rep_distinct [OF rep] by (simp add: map_fst_filter_remove1)
  then have "ch_rel (c\<lparr>ch_pop_awaiters := ?q\<rparr>) a'"
    using rel spec by (auto simp: ch_rel_def a_cancel_pop_def)
  moreover have "a_wf a'" using wf spec by (auto simp: a_wf_def a_cancel_pop_def)
  ultimately show ?thesis by simp
qed

section \<open>Refinement of closing and destruction\<close>

lemma ch_frame_trans_pop:
  assumes "ch_frame a c c1" "ch_frame (a\<lparr>a_pop := ps\<rparr>) c1 c2" "set ps \<subseteq> set (a_pop a)"
  shows "ch_frame a c c2"
proof -
  have "p \<notin> fst ` set ps" if "p \<notin> fst ` set (a_pop a)" for p using that assms(3) by auto
  with assms(1,2) show ?thesis by (simp add: ch_frame_def)
qed

lemma ch_frame_trans_push:
  assumes "ch_frame a c c1" "ch_frame (a\<lparr>a_push := ps\<rparr>) c1 c2" "set ps \<subseteq> set (a_push a)"
  shows "ch_frame a c c2"
proof -
  have "p \<notin> fst ` set ps" if "p \<notin> fst ` set (a_push a)" for p using that assms(3) by auto
  with assms(1,2) show ?thesis by (simp add: ch_frame_def)
qed

lemma ch_close_pops_sim:
  assumes "ch_rel c a" and "a_pop a \<noteq> [] \<longrightarrow> a_buf a = []"
  shows "\<exists>c'. ch_close_pops dflt c acc =
           Some (c', acc @ map completion_call (map (\<lambda>(p, rt). Pop_done p rt (- EPIPE, dflt)) (a_pop a))) \<and>
         ch_rel c' (a\<lparr>a_pop := []\<rparr>) \<and>
         delivered c' (map (\<lambda>(p, rt). Pop_done p rt (- EPIPE, dflt)) (a_pop a)) \<and> ch_frame a c c'"
  using assms
proof (induction "a_pop a" arbitrary: a c acc)
  case Nil
  have rep: "idl_rep (ch_pop_off c) (ch_pop_awaiters c) []"
    using Nil by (simp add: ch_rel_def)
  have q: "idl_pop_front (ch_pop_off c) (ch_pop_awaiters c) = (nullptr, ch_pop_awaiters c)"
    using idl.rep_pop_Nil [OF rep] .
  have "ch_close_pops dflt c acc = Some (c, acc)"
    by (subst ch_close_pops.simps) (simp add: q)
  moreover have "ch_rel c (a\<lparr>a_pop := []\<rparr>)"
    using Nil by (simp add: ch_rel_def)
  ultimately show ?case using Nil by (simp add: delivered_def ch_frame_def)
next
  case (Cons w ps)
  obtain p rt where w: "w = (p, rt)" by (cases w)
  have hd: "a_pop a = (p, rt) # ps" using Cons.hyps(2) w by simp
  obtain q where q: "idl_pop_front (ch_pop_off c) (ch_pop_awaiters c) = (p, q)"
      "idl_rep (ch_pop_off c) q (map fst ps)" "p \<notin> fst ` set ps" "rt \<noteq> nullptr"
      "qh_runtime (ch_pop_handles c p) = rt" "p \<noteq> nullptr"
    by (rule ch_rel_pop_hd [OF Cons.prems(1) hd])
  let ?r = "(- EPIPE, dflt)"
  let ?c2 = "qh_set_result p ?r (c\<lparr>ch_pop_awaiters := q\<rparr>)"
  note wake = ch_rel_wake_pop [OF Cons.prems(1) hd q(2,3), of ?r]
  have "ch_empty_inner (c\<lparr>ch_pop_awaiters := q\<rparr>)"
    using ch_rel_size(1) [OF Cons.prems(1)] Cons.prems(2) hd
    by (simp add: ch_empty_inner_def ch_size_inner_def)
  moreover have "qh_schedule p ?c2 = Some [completion_call (Pop_done p rt ?r)]"
    using q(4,5) by (simp add: qh_schedule_def qh_set_result_def ch_upd_pop_def)
  ultimately have step: "ch_close_pops dflt c acc = ch_close_pops dflt ?c2 (acc @ [completion_call (Pop_done p rt ?r)])"
    by (subst ch_close_pops.simps) (simp add: q(1,6))
  obtain c' where c': "ch_close_pops dflt ?c2 (acc @ [completion_call (Pop_done p rt ?r)]) =
        Some (c', (acc @ [completion_call (Pop_done p rt ?r)]) @
          map completion_call (map (\<lambda>(p, rt). Pop_done p rt ?r) ps))"
      "ch_rel c' (a\<lparr>a_pop := []\<rparr>)" "delivered c' (map (\<lambda>(p, rt). Pop_done p rt ?r) ps)"
      "ch_frame (a\<lparr>a_pop := ps\<rparr>) ?c2 c'"
    using Cons.hyps(1) [of "a\<lparr>a_pop := ps\<rparr>" ?c2 "acc @ [completion_call (Pop_done p rt ?r)]"]
      wake(1) Cons.prems(2) hd
    by (simp del: map_map append_assoc completion_call.simps) blast
  have "delivered1 c' (Pop_done p rt ?r)"
    using wake(2) c'(4) q(3) by (simp add: ch_frame_def)
  moreover have "ch_frame a c c'"
    by (rule ch_frame_trans_pop [OF wake(3) c'(4)]) (use hd in auto)
  ultimately show ?case using step c' hd by (auto simp: delivered_def)
qed

lemma ch_close_pushes_sim:
  fixes c :: "'a channel"
  assumes "ch_rel c a" and "a_push a \<noteq> [] \<longrightarrow> length (a_buf a) = a_cap a"
  shows "\<exists>c'. ch_close_pushes c acc =
           Some (c', acc @ map completion_call (map (\<lambda>(p, rt, x). Push_done p rt (- EPIPE) :: 'a completion) (a_push a))) \<and>
         ch_rel c' (a\<lparr>a_push := []\<rparr>) \<and>
         delivered c' (map (\<lambda>(p, rt, x). Push_done p rt (- EPIPE) :: 'a completion) (a_push a)) \<and> ch_frame a c c'"
  using assms
proof (induction "a_push a" arbitrary: a c acc)
  case Nil
  have rep: "idl_rep (ch_push_off c) (ch_push_awaiters c) []"
    using Nil by (simp add: ch_rel_def)
  have q: "idl_pop_front (ch_push_off c) (ch_push_awaiters c) = (nullptr, ch_push_awaiters c)"
    using idl.rep_pop_Nil [OF rep] .
  have "ch_close_pushes c acc = Some (c, acc)"
    by (subst ch_close_pushes.simps) (simp add: q)
  moreover have "ch_rel c (a\<lparr>a_push := []\<rparr>)"
    using Nil by (simp add: ch_rel_def)
  ultimately show ?case using Nil by (simp add: delivered_def ch_frame_def)
next
  case (Cons w ps)
  obtain p rt x where w: "w = (p, rt, x)" by (cases w)
  have hd: "a_push a = (p, rt, x) # ps" using Cons.hyps(2) w by simp
  obtain q where q: "idl_pop_front (ch_push_off c) (ch_push_awaiters c) = (p, q)"
      "idl_rep (ch_push_off c) q (map fst ps)" "p \<notin> fst ` set ps" "p \<noteq> nullptr"
    using ch_rel_push_hd [OF Cons.prems(1) hd] by metis
  let ?d = "Push_done p rt (- EPIPE) :: 'a completion"
  let ?c2 = "ph_set_result p (- EPIPE) (c\<lparr>ch_push_awaiters := q\<rparr>)"
  have c2: "?c2 = c\<lparr>ch_push_awaiters := q, ch_push_handles := (ch_push_handles c)
      (p := (ch_push_handles c p)\<lparr>ph_moved := ph_moved (ch_push_handles c p), ph_result := - EPIPE\<rparr>)\<rparr>"
    by (simp add: ph_set_result_def ch_upd_push_def)
  note wake = ch_rel_wake_push [OF Cons.prems(1) hd q(2,3) c2]
  have "ch_full_inner (c\<lparr>ch_push_awaiters := q\<rparr>)"
    using ch_rel_size(2) [OF Cons.prems(1)] Cons.prems(2) hd
    by (simp add: ch_full_inner_def ch_size_inner_def ch_capacity_def)
  moreover have "ph_schedule p ?c2 = [completion_call ?d]" by (rule wake(4))
  ultimately have step: "ch_close_pushes c acc = ch_close_pushes ?c2 (acc @ [completion_call ?d])"
    by (subst ch_close_pushes.simps) (simp add: q(1,4) Let_def del: completion_call.simps)
  obtain c' where c': "ch_close_pushes ?c2 (acc @ [completion_call ?d]) =
        Some (c', (acc @ [completion_call ?d]) @
          map completion_call (map (\<lambda>(p, rt, x). Push_done p rt (- EPIPE) :: 'a completion) ps))"
      "ch_rel c' (a\<lparr>a_push := []\<rparr>)" "delivered c' (map (\<lambda>(p, rt, x). Push_done p rt (- EPIPE) :: 'a completion) ps)"
      "ch_frame (a\<lparr>a_push := ps\<rparr>) ?c2 c'"
    using Cons.hyps(1) [of "a\<lparr>a_push := ps\<rparr>" ?c2 "acc @ [completion_call ?d]"]
      wake(1) Cons.prems(2) hd
    by (simp del: map_map append_assoc completion_call.simps) blast
  have "delivered1 c' ?d"
    using wake(2) c'(4) q(3) by (simp add: ch_frame_def)
  moreover have "ch_frame a c c'"
    by (rule ch_frame_trans_push [OF wake(3) c'(4)]) (use hd in auto)
  ultimately show ?case using step c' hd by (auto simp: delivered_def)
qed

lemma ch_push_close_sim:
  fixes c :: "'a channel"
  assumes rel: "ch_rel c a" and wf: "a_wf a" and spec: "a_close dflt a = (a', ds)"
  shows "\<exists>c'. ch_push_close dflt c = Some (c', map completion_call ds) \<and>
              ch_rel c' a' \<and> a_wf a' \<and> delivered c' ds"
proof (cases "a_closed a")
  case True
  with assms show ?thesis by (simp add: ch_push_close_def a_close_def ch_rel_closed delivered_def)
next
  case False
  let ?a1 = "a\<lparr>a_closed := True\<rparr>"
  let ?ds1 = "map (\<lambda>(p, rt). Pop_done p rt (- EPIPE, dflt)) (a_pop a)"
  let ?ds2 = "map (\<lambda>(p, rt, x). Push_done p rt (- EPIPE) :: 'a completion) (a_push a)"
  have rel1: "ch_rel (c\<lparr>ch_closed := True\<rparr>) ?a1" using rel by (simp add: ch_rel_def)
  obtain c1 where c1: "ch_close_pops dflt (c\<lparr>ch_closed := True\<rparr>) [] = Some (c1, map completion_call ?ds1)"
      "ch_rel c1 (?a1\<lparr>a_pop := []\<rparr>)" "delivered c1 ?ds1"
    using ch_close_pops_sim [OF rel1, of dflt "[]"] wf by (auto simp: a_wf_def)
  obtain c2 where c2: "ch_close_pushes c1 (map completion_call ?ds1) =
        Some (c2, map completion_call ?ds1 @ map completion_call ?ds2)"
      "ch_rel c2 (?a1\<lparr>a_pop := [], a_push := []\<rparr>)" "delivered c2 ?ds2"
      "ch_frame (?a1\<lparr>a_pop := []\<rparr>) c1 c2"
    using ch_close_pushes_sim [OF c1(2), of "map completion_call ?ds1"] wf by (auto simp: a_wf_def)
  have "delivered c2 ?ds1" using c1(3) c2(4) by (auto simp: delivered_def ch_frame_def)
  with c2(3) have "delivered c2 (?ds1 @ ?ds2)" by (auto simp: delivered_def)
  moreover have "a' = ?a1\<lparr>a_pop := [], a_push := []\<rparr>" "ds = ?ds1 @ ?ds2"
    using spec False by (auto simp: a_close_def)
  moreover have "a_wf (?a1\<lparr>a_pop := [], a_push := []\<rparr>)" using wf by (simp add: a_wf_def)
  ultimately show ?thesis
    using False c1(1) c2(1,2) by (simp add: ch_push_close_def ch_rel_closed [OF rel])
qed

lemma ch_destruct_all_sim:
  "ch_rel c a \<Longrightarrow> \<exists>c'. ch_destruct_all c = Some c' \<and> ch_rel c' (a\<lparr>a_buf := []\<rparr>)"
proof (induction "a_buf a" arbitrary: a c)
  case Nil
  then have "ch_empty_inner c" using ch_rel_size(1) [OF Nil.prems] by simp
  then have "ch_destruct_all c = Some c"
    by (subst ch_destruct_all.simps) (simp add: ch_empty_inner_def ch_size_inner_def)
  with Nil show ?case by (simp add: ch_rel_def)
next
  case (Cons y ys)
  obtain c1 where c1: "ch_pop_inner c = Some (y, c1)" "ch_rel c1 (a\<lparr>a_buf := ys\<rparr>)"
    using ch_pop_inner_sim [OF Cons.prems, of y ys] Cons.hyps(2) by auto
  have ne: "\<not> ch_empty_inner c" using ch_rel_size(1) [OF Cons.prems] Cons.hyps(2) by auto
  have "\<exists>c'. ch_destruct_all c1 = Some c' \<and> ch_rel c' (a\<lparr>a_buf := ys, a_buf := []\<rparr>)"
    using Cons.hyps(1) [OF _ c1(2)] by simp
  with ne c1(1) show ?case by (subst ch_destruct_all.simps) simp
qed

text \<open>The destructor returns, completes every waiter and leaves every slot raw.\<close>

lemma ch_destroy_sim:
  assumes rel: "ch_rel c a" and wf: "a_wf a" and spec: "a_close dflt a = (a', ds)"
  shows "\<exists>c'. ch_destroy dflt c = Some (c', map completion_call ds) \<and>
              ch_rel c' (a'\<lparr>a_buf := []\<rparr>)"
proof -
  obtain c1 where "ch_push_close dflt c = Some (c1, map completion_call ds)" "ch_rel c1 a'"
    using ch_push_close_sim [OF assms] by blast
  with ch_destruct_all_sim [of c1 a'] show ?thesis by (auto simp: ch_destroy_def)
qed

lemma ring_rep_Nil_raw:
  assumes rep: "ring_rep h t buf []" and i: "i < sa_capacity buf"
  shows "sa_get buf i = Some None"
proof -
  let ?n = "sa_capacity buf"
  let ?j = "(i + (?n - unat h mod ?n)) mod ?n"
  have pos: "0 < ?n" using i by simp
  then have le: "unat h mod ?n \<le> ?n" by (simp add: less_imp_le)
  have "(unat h + ?j) mod ?n = (unat h mod ?n + (i + (?n - unat h mod ?n))) mod ?n"
    by (simp add: mod_simps)
  also have "unat h mod ?n + (i + (?n - unat h mod ?n)) = i + ?n" using le by simp
  finally have "(unat h + ?j) mod ?n = i" using i by simp
  moreover have "?j < ?n" using pos by simp
  ultimately show ?thesis using rep by (auto simp: ring_rep_def)
qed

definition a_new :: "u64 \<Rightarrow> u64 \<Rightarrow> nat \<Rightarrow> 'a achannel" where
  "a_new po qo n = \<lparr>a_offs = (po, qo), a_cap = (if n \<noteq> 0 then bit_ceil n else 0), a_buf = [], a_push = [], a_pop = [], a_closed = False\<rparr>"

lemma a_wf_new [simp]: "a_wf (a_new po qo n)"
  by (simp add: a_wf_def a_new_def)

lemma ch_new_rel: "n \<le> 2 ^ 63 \<Longrightarrow> ch_rel (ch_new N n po qo phs qhs) (a_new po qo n)"
  using ring_new [of n N] by (auto simp: ch_rel_def ch_new_def a_new_def idl_rep_new sa_new_def)

end
