(* ===== verification/Channel_Trace.thy ===== *)
theory Channel_Trace
  imports Channel_Spec "HOL-Library.Multiset" "HOL-Library.Sublist"
begin

text \<open>
  Sequences of channel operations. Every operation runs under the channel's mutex, so an
  execution of any number of threads is a sequence of whole operations. A step of the sequence
  is a call of the public interface, the start of a sender's operation state, or the run of a
  stop callback. The refinement of single operations gives the refinement of whole sequences,
  and the order and conservation of items follow from the abstract channel.
\<close>

section \<open>Operations and runs\<close>

datatype 'a chan_op =
    Push ptr ptr 'a     \<comment> \<open>handle, runtime, item: \<open>co_await push(item)\<close> starts\<close>
  | Pop ptr ptr         \<comment> \<open>handle, runtime: \<open>co_await pop()\<close> starts\<close>
  | Force_push ptr 'a   \<comment> \<open>address of the fake handle, item\<close>
  | Try_push 'a
  | Try_pop
  | Stop_push ptr       \<comment> \<open>the stop callback of a push handle runs\<close>
  | Stop_pop ptr
  | Push_close

text \<open>The response: the result code, \<open>-EAGAIN\<close> when the operation waits, and an item.\<close>

type_synonym 'a resp = "i32 \<times> 'a option"

fun ch_step :: "'a \<Rightarrow> 'a chan_op \<Rightarrow> 'a channel \<Rightarrow> ('a resp \<times> 'a channel \<times> call list) option" where
  "ch_step dflt (Push p rt x) c = do {
     (r, c', cs) \<leftarrow> ph_start False False rt p (ch_upd_push p (\<lambda>_. ph_new x) c);
     Some ((case r of Some r \<Rightarrow> r | None \<Rightarrow> - EAGAIN, None), c', cs)
   }"
| "ch_step dflt (Pop p rt) c = do {
     (r, c', cs) \<leftarrow> qh_start dflt False False rt p (ch_upd_pop p (\<lambda>_. qh_new dflt) c);
     Some (case r of Some (r, x) \<Rightarrow> (r, Some x) | None \<Rightarrow> (- EAGAIN, None), c', cs)
   }"
| "ch_step dflt (Force_push p x) c = do {
     r \<leftarrow> ch_force_push p x c;
     (case r of Inl _ \<Rightarrow> None | Inr (c', cs) \<Rightarrow> Some ((0, None), c', cs))
   }"
| "ch_step dflt (Try_push x) c = do {
     (r, c', cs) \<leftarrow> ch_try_push x c;
     Some ((r, None), c', cs)
   }"
| "ch_step dflt Try_pop c = do {
     ((r, x), c', cs) \<leftarrow> ch_try_pop dflt c;
     Some ((r, Some x), c', cs)
   }"
| "ch_step dflt (Stop_push p) c = do {
     (c', cs) \<leftarrow> ph_cancel p c;
     Some ((0, None), c', cs)
   }"
| "ch_step dflt (Stop_pop p) c = do {
     (c', cs) \<leftarrow> qh_cancel p c;
     Some ((0, None), c', cs)
   }"
| "ch_step dflt Push_close c = do {
     (c', cs) \<leftarrow> ch_push_close dflt c;
     Some ((0, None), c', cs)
   }"

text \<open>A run records the response, the channel and the calls after every operation.\<close>

fun ch_run :: "'a \<Rightarrow> 'a chan_op list \<Rightarrow> 'a channel \<Rightarrow> ('a resp \<times> 'a channel \<times> call list) list option" where
  "ch_run dflt [] c = Some []"
| "ch_run dflt (op # ops) c = do {
     (r, c1, cs) \<leftarrow> ch_step dflt op c;
     tr \<leftarrow> ch_run dflt ops c1;
     Some ((r, c1, cs) # tr)
   }"

section \<open>The abstract run\<close>

text \<open>
  A step of the abstract channel. The abstract calls are the completions, and the note that a
  work item is pending.
\<close>

datatype 'a acall = Complete "'a completion" | Pend ptr

fun acall_call :: "'a acall \<Rightarrow> call" where
  "acall_call (Complete d) = completion_call d"
| "acall_call (Pend rt) = Pend_work rt"

fun a_step :: "'a \<Rightarrow> 'a chan_op \<Rightarrow> 'a achannel \<Rightarrow> 'a resp \<times> 'a achannel \<times> 'a acall list" where
  "a_step dflt (Push p rt x) a =
     (let (r, a', ds) = a_request_push p rt x a
      in ((r, None), a', map Complete ds @ (if r = - EAGAIN then [Pend rt] else [])))"
| "a_step dflt (Pop p rt) a =
     (let ((r, x), a', ds) = a_request_pop dflt p rt a
      in if r = - EAGAIN then ((r, None), a', map Complete ds @ [Pend rt])
         else ((r, Some x), a', map Complete ds))"
| "a_step dflt (Force_push p x) a =
     (let (r, a', ds) = a_request_push p nullptr x a in ((0, None), a', map Complete ds))"
| "a_step dflt (Try_push x) a = (let (r, a', ds) = a_try_push x a in ((r, None), a', map Complete ds))"
| "a_step dflt Try_pop a = (let ((r, x), a', ds) = a_try_pop dflt a in ((r, Some x), a', map Complete ds))"
| "a_step dflt (Stop_push p) a =
     ((0, None), snd (a_cancel_push p a),
      map (\<lambda>(p, rt, x). Complete (Push_done p rt (- ECANCELED))) (filter (\<lambda>w. fst w = p) (a_push a)))"
| "a_step dflt (Stop_pop p) a =
     ((0, None), snd (a_cancel_pop p a),
      map (\<lambda>(p, rt). Complete (Pop_done p rt (- ECANCELED, dflt))) (filter (\<lambda>w. fst w = p) (a_pop a)))"
| "a_step dflt Push_close a = (let (a', ds) = a_close dflt a in ((0, None), a', map Complete ds))"

fun a_run :: "'a \<Rightarrow> 'a chan_op list \<Rightarrow> 'a achannel \<Rightarrow> ('a resp \<times> 'a achannel \<times> 'a acall list) list" where
  "a_run dflt [] a = []"
| "a_run dflt (op # ops) a =
     a_step dflt op a # a_run dflt ops (fst (snd (a_step dflt op a)))"

text \<open>
  What callers owe: a handle is a properly placed object that is not waiting already and runs in
  a runtime; a forced push is not made on a closed channel and its handle can be allocated; stop
  callbacks belong to handles with a runtime.
\<close>

fun op_ok :: "'a chan_op \<Rightarrow> 'a achannel \<Rightarrow> bool" where
  "op_ok (Push p rt x) a \<longleftrightarrow>
     idl_ok (fst (a_offs a)) p \<and> rt \<noteq> nullptr \<and> p \<notin> fst ` set (a_push a)"
| "op_ok (Pop p rt) a \<longleftrightarrow>
     idl_ok (snd (a_offs a)) p \<and> rt \<noteq> nullptr \<and> p \<notin> fst ` set (a_pop a)"
| "op_ok (Force_push p x) a \<longleftrightarrow>
     idl_ok (fst (a_offs a)) p \<and> p \<notin> fst ` set (a_push a) \<and> \<not> a_closed a"
| "op_ok (Stop_push p) a \<longleftrightarrow>
     idl_ok (fst (a_offs a)) p \<and> (\<forall>w \<in> set (a_push a). fst w = p \<longrightarrow> fst (snd w) \<noteq> nullptr)"
| "op_ok (Stop_pop p) a \<longleftrightarrow> idl_ok (snd (a_offs a)) p"
| "op_ok (Try_push x) a \<longleftrightarrow> True"
| "op_ok Try_pop a \<longleftrightarrow> True"
| "op_ok Push_close a \<longleftrightarrow> True"

fun ops_ok :: "'a \<Rightarrow> 'a chan_op list \<Rightarrow> 'a achannel \<Rightarrow> bool" where
  "ops_ok dflt [] a \<longleftrightarrow> True"
| "ops_ok dflt (op # ops) a \<longleftrightarrow>
     op_ok op a \<and> ops_ok dflt ops (fst (snd (a_step dflt op a)))"

section \<open>Refinement of runs\<close>

fun acall_delivered :: "'a channel \<Rightarrow> 'a acall \<Rightarrow> bool" where
  "acall_delivered c (Complete d) = delivered1 c d"
| "acall_delivered c (Pend rt) = True"

text \<open>One step of the concrete run against one step of the abstract run.\<close>

fun step_rel :: "'a resp \<times> 'a channel \<times> call list \<Rightarrow> 'a resp \<times> 'a achannel \<times> 'a acall list \<Rightarrow> bool" where
  "step_rel (r, c, cs) (r', a, as) \<longleftrightarrow>
     r = r' \<and> cs = map acall_call as \<and> ch_rel c a \<and> (\<forall>d \<in> set as. acall_delivered c d)"

lemma delivered_acalls: "delivered c ds \<Longrightarrow> d \<in> Complete ` set ds \<Longrightarrow> acall_delivered c d"
  by (auto simp: delivered_def)

lemma ch_upd_offs [simp]:
  "ch_push_off (ch_upd_push p f c) = ch_push_off c" "ch_pop_off (ch_upd_push p f c) = ch_pop_off c"
  "ch_push_off (ch_upd_pop p g c) = ch_push_off c" "ch_pop_off (ch_upd_pop p g c) = ch_pop_off c"
  by (simp_all add: ch_upd_push_def ch_upd_pop_def)

lemma ch_step_Push:
  assumes rel: "ch_rel c a" and wf: "a_wf a" and ok: "op_ok (Push p rt x) a"
  shows "\<exists>s. ch_step dflt (Push p rt x) c = Some s \<and> step_rel s (a_step dflt (Push p rt x) a) \<and>
             a_wf (fst (snd (a_step dflt (Push p rt x) a)))"
proof -
  have offs: "a_offs a = (ch_push_off c, ch_pop_off c)" using rel by (simp add: ch_rel_def)
  obtain r a' ds where spec: "a_request_push p rt x a = (r, a', ds)"
    by (cases "a_request_push p rt x a") auto
  let ?c = "ch_upd_push p (\<lambda>h. h\<lparr>ph_runtime := rt\<rparr>) (ch_upd_push p (\<lambda>_. ph_new x) c)"
  have fresh: "p \<notin> fst ` set (a_push a)" using ok by simp
  have rel1: "ch_rel ?c a" using ch_rel_upd_push [OF ch_rel_upd_push [OF rel fresh] fresh] .
  have "push_ready ?c p rt x"
    using ok offs by (simp add: push_ready_def push_fresh_def ch_upd_push_def ph_new_def)
  from ch_request_push_sim [OF rel1 wf spec this fresh] obtain c'
    where c': "ch_request_push p ?c = Some (r, c', map completion_call ds)" "ch_rel c' a'" "a_wf a'"
      "delivered c' ds" by blast
  have "map completion_call ds = map acall_call (map Complete ds)" by simp
  with c' ok spec show ?thesis
    by (cases "r = - EAGAIN") (auto simp: ph_start_def delivered_def)
qed

lemma ch_step_Pop:
  assumes rel: "ch_rel c a" and wf: "a_wf a" and ok: "op_ok (Pop p rt) a"
  shows "\<exists>s. ch_step dflt (Pop p rt) c = Some s \<and> step_rel s (a_step dflt (Pop p rt) a) \<and>
             a_wf (fst (snd (a_step dflt (Pop p rt) a)))"
proof -
  have offs: "a_offs a = (ch_push_off c, ch_pop_off c)" using rel by (simp add: ch_rel_def)
  obtain r x a' ds where spec: "a_request_pop dflt p rt a = ((r, x), a', ds)"
    by (cases "a_request_pop dflt p rt a") auto
  let ?c = "ch_upd_pop p (\<lambda>h. h\<lparr>qh_runtime := rt\<rparr>) (ch_upd_pop p (\<lambda>_. qh_new dflt) c)"
  have fresh: "p \<notin> fst ` set (a_pop a)" using ok by simp
  have rel1: "ch_rel ?c a" using ch_rel_upd_pop [OF ch_rel_upd_pop [OF rel fresh] fresh] .
  have "pop_ready ?c p rt"
    using ok offs by (simp add: pop_ready_def ch_upd_pop_def qh_new_def)
  from ch_request_pop_sim [OF rel1 wf spec this fresh] obtain c'
    where c': "ch_request_pop dflt p ?c = Some ((r, x), c', map completion_call ds)" "ch_rel c' a'"
      "a_wf a'" "delivered c' ds" by blast
  with ok spec show ?thesis
    by (cases "r = - EAGAIN") (auto simp: qh_start_def delivered_def)
qed

lemma ch_step_Force_push:
  assumes rel: "ch_rel c a" and wf: "a_wf a" and ok: "op_ok (Force_push p x) a"
  shows "\<exists>s. ch_step dflt (Force_push p x) c = Some s \<and> step_rel s (a_step dflt (Force_push p x) a) \<and>
             a_wf (fst (snd (a_step dflt (Force_push p x) a)))"
proof -
  have offs: "a_offs a = (ch_push_off c, ch_pop_off c)" using rel by (simp add: ch_rel_def)
  obtain r a' ds where spec: "a_request_push p nullptr x a = (r, a', ds)"
    by (cases "a_request_push p nullptr x a") auto
  obtain c' where "ch_force_push p x c = Some (Inr (c', map completion_call ds))" "ch_rel c' a'"
      "a_wf a'" "delivered c' ds"
    using ch_force_push_sim [OF rel wf _ spec] ok offs by auto
  with spec show ?thesis by (auto simp: delivered_def)
qed

text \<open>A waiter that is stopped: it leaves its queue and is completed with \<open>-ECANCELED\<close>.\<close>

lemma filter_eq_distinct:
  "distinct (map fst ws) \<Longrightarrow> w \<in> set ws \<Longrightarrow> filter (\<lambda>v. fst v = fst w) ws = [w]"
  by (induction ws) (auto simp: filter_empty_conv image_iff)

lemma ch_step_Stop_push:
  assumes rel: "ch_rel c a" and wf: "a_wf a" and ok: "op_ok (Stop_push p) a"
  shows "\<exists>s. ch_step dflt (Stop_push p) c = Some s \<and> step_rel s (a_step dflt (Stop_push p) a) \<and>
             a_wf (fst (snd (a_step dflt (Stop_push p) a)))"
proof -
  have offs: "a_offs a = (ch_push_off c, ch_pop_off c)" using rel by (simp add: ch_rel_def)
  obtain b a' where spec: "a_cancel_push p a = (b, a')" by (cases "a_cancel_push p a") auto
  obtain c1 where c1: "ch_cancel_push p c = (b, c1)" "ch_rel c1 a'" "a_wf a'"
      "ch_push_handles c1 = ch_push_handles c"
    using ch_cancel_push_sim [OF rel wf _ spec] ok offs by auto
  show ?thesis
  proof (cases b)
    case True
    then obtain rt x where w: "(p, rt, x) \<in> set (a_push a)" using spec by (auto simp: a_cancel_push_def)
    have "idl_rep (ch_push_off c) (ch_push_awaiters c) (map fst (a_push a))"
      using rel by (simp add: ch_rel_def)
    then have only: "filter (\<lambda>v. fst v = p) (a_push a) = [(p, rt, x)]"
      using filter_eq_distinct [OF _ w] idl.rep_distinct by auto
    have h: "push_fresh (ch_push_handles c p) rt x" and "rt \<noteq> nullptr"
      using rel w ok by (auto simp: ch_rel_def)
    let ?c2 = "ph_set_result p (- ECANCELED) c1"
    have "p \<notin> fst ` set (a_push a')" using spec by (auto simp: a_cancel_push_def)
    then have "ch_rel ?c2 a'" using ch_rel_upd_push [OF c1(2)] by (simp add: ph_set_result_def)
    with True h \<open>rt \<noteq> nullptr\<close> c1 only spec show ?thesis
      by (simp add: ph_cancel_def ph_set_result_def ch_upd_push_def push_fresh_def)
  next
    case False
    then have "filter (\<lambda>w. fst w = p) (a_push a) = []"
      using spec by (auto simp: a_cancel_push_def filter_empty_conv)
    with False c1 spec show ?thesis by (simp add: ph_cancel_def)
  qed
qed

lemma ch_step_Stop_pop:
  assumes rel: "ch_rel c a" and wf: "a_wf a" and ok: "op_ok (Stop_pop p) a"
  shows "\<exists>s. ch_step dflt (Stop_pop p) c = Some s \<and> step_rel s (a_step dflt (Stop_pop p) a) \<and>
             a_wf (fst (snd (a_step dflt (Stop_pop p) a)))"
proof -
  have offs: "a_offs a = (ch_push_off c, ch_pop_off c)" using rel by (simp add: ch_rel_def)
  obtain b a' where spec: "a_cancel_pop p a = (b, a')" by (cases "a_cancel_pop p a") auto
  obtain c1 where c1: "ch_cancel_pop p c = (b, c1)" "ch_rel c1 a'" "a_wf a'"
      "ch_pop_handles c1 = ch_pop_handles c"
    using ch_cancel_pop_sim [OF rel wf _ spec] ok offs by auto
  show ?thesis
  proof (cases b)
    case True
    then obtain rt where w: "(p, rt) \<in> set (a_pop a)" using spec by (auto simp: a_cancel_pop_def)
    have "idl_rep (ch_pop_off c) (ch_pop_awaiters c) (map fst (a_pop a))"
      using rel by (simp add: ch_rel_def)
    then have only: "filter (\<lambda>v. fst v = p) (a_pop a) = [(p, rt)]"
      using filter_eq_distinct [OF _ w] idl.rep_distinct by auto
    have h: "qh_runtime (ch_pop_handles c p) = rt" "rt \<noteq> nullptr"
        "fst (qh_result (ch_pop_handles c p)) = - ENOTRECOVERABLE"
      using rel w by (auto simp: ch_rel_def)
    let ?c2 = "qh_set_result p (- ECANCELED, snd (qh_result (ch_pop_handles c p))) c1"
    have "p \<notin> fst ` set (a_pop a')" using spec by (auto simp: a_cancel_pop_def)
    then have "ch_rel ?c2 a'" using ch_rel_upd_pop [OF c1(2)] by (simp add: qh_set_result_def)
    with True h c1 only spec show ?thesis
      by (simp add: qh_cancel_def qh_set_result_def ch_upd_pop_def)
  next
    case False
    then have "filter (\<lambda>w. fst w = p) (a_pop a) = []"
      using spec by (auto simp: a_cancel_pop_def filter_empty_conv)
    with False c1 spec show ?thesis by (simp add: qh_cancel_def)
  qed
qed

lemma ch_step_sim:
  assumes rel: "ch_rel c a" and wf: "a_wf a" and ok: "op_ok op a"
  shows "\<exists>s. ch_step dflt op c = Some s \<and> step_rel s (a_step dflt op a) \<and>
             a_wf (fst (snd (a_step dflt op a)))"
proof (cases op)
  case (Try_push x)
  obtain r a' ds where spec: "a_try_push x a = (r, a', ds)" by (cases "a_try_push x a") auto
  from ch_try_push_sim [OF rel wf spec] spec Try_push show ?thesis by (auto simp: delivered_def)
next
  case Try_pop
  obtain r x a' ds where spec: "a_try_pop dflt a = ((r, x), a', ds)" by (cases "a_try_pop dflt a") auto
  from ch_try_pop_sim [OF rel wf spec] spec Try_pop show ?thesis by (auto simp: delivered_def)
next
  case Push_close
  obtain a' ds where spec: "a_close dflt a = (a', ds)" by (cases "a_close dflt a") auto
  from ch_push_close_sim [OF rel wf spec] spec Push_close show ?thesis by (auto simp: delivered_def)
qed (use assms in \<open>simp_all only: ch_step_Push ch_step_Pop ch_step_Force_push ch_step_Stop_push
      ch_step_Stop_pop\<close>)

lemma ch_run_sim:
  "ch_rel c a \<Longrightarrow> a_wf a \<Longrightarrow> ops_ok dflt ops a \<Longrightarrow>
     \<exists>tr. ch_run dflt ops c = Some tr \<and> list_all2 step_rel tr (a_run dflt ops a)"
proof (induction ops arbitrary: c a)
  case (Cons op ops)
  obtain r' a' as where astep: "a_step dflt op a = (r', a', as)" by (cases "a_step dflt op a") auto
  obtain s where s: "ch_step dflt op c = Some s" "step_rel s (a_step dflt op a)" "a_wf a'"
    using ch_step_sim [OF Cons.prems(1,2), of op dflt] Cons.prems(3) astep by auto
  obtain r c' cs where s_eq: "s = (r, c', cs)" by (cases s) auto
  have "ch_rel c' a'" "ops_ok dflt ops a'" using s(2) Cons.prems(3) by (simp_all add: astep s_eq)
  then obtain tr where "ch_run dflt ops c' = Some tr" "list_all2 step_rel tr (a_run dflt ops a')"
    using Cons.IH s(3) by blast
  with s s_eq astep show ?case by simp
qed simp

section \<open>Order and conservation of items\<close>

text \<open>What one step takes in, hands out and drops.\<close>

fun step_in :: "'a chan_op \<Rightarrow> 'a resp \<Rightarrow> 'a list" where
  "step_in (Push p rt x) (r, y) = (if r = 0 \<or> r = - EAGAIN then [x] else [])"
| "step_in (Force_push p x) (r, y) = [x]"
| "step_in (Try_push x) (r, y) = (if r = 0 then [x] else [])"
| "step_in _ _ = []"

fun resp_out :: "'a chan_op \<Rightarrow> 'a resp \<Rightarrow> 'a list" where
  "resp_out (Pop p rt) (r, Some x) = (if r = 0 then [x] else [])"
| "resp_out Try_pop (r, Some x) = (if r = 0 then [x] else [])"
| "resp_out _ _ = []"

fun acall_out :: "'a acall \<Rightarrow> 'a list" where
  "acall_out (Complete (Pop_done p rt (r, x))) = (if r = 0 then [x] else [])"
| "acall_out _ = []"

definition a_items :: "'a achannel \<Rightarrow> 'a list" where
  "a_items a = a_buf a @ map (snd \<circ> snd) (a_push a)"

fun run_in :: "'a chan_op list \<Rightarrow> ('a resp \<times> 'b \<times> 'c) list \<Rightarrow> 'a list" where
  "run_in (op # ops) ((r, _) # tr) = step_in op r @ run_in ops tr"
| "run_in _ _ = []"

fun run_out :: "'a chan_op list \<Rightarrow> ('a resp \<times> 'b \<times> 'a acall list) list \<Rightarrow> 'a list" where
  "run_out (op # ops) ((r, _, as) # tr) = resp_out op r @ concat (map acall_out as) @ run_out ops tr"
| "run_out _ _ = []"

fun step_drop :: "'a chan_op \<Rightarrow> 'a achannel \<Rightarrow> 'a list" where
  "step_drop (Stop_push p) a = map (snd \<circ> snd) (filter (\<lambda>w. fst w = p) (a_push a))"
| "step_drop Push_close a = (if a_closed a then [] else map (snd \<circ> snd) (a_push a))"
| "step_drop _ a = []"

fun run_drop :: "'a \<Rightarrow> 'a chan_op list \<Rightarrow> 'a achannel \<Rightarrow> 'a list" where
  "run_drop dflt [] a = []"
| "run_drop dflt (op # ops) a = step_drop op a @ run_drop dflt ops (fst (snd (a_step dflt op a)))"

lemma concat_acall_out_pushes [simp]:
  "concat (map (acall_out \<circ> (\<lambda>(p, rt, x). Complete (Push_done p rt r))) ws) = []"
  "concat (map (acall_out \<circ> (Complete \<circ> (\<lambda>(p, rt, x). Push_done p rt r))) ws) = []"
  by (induction ws) auto

lemma concat_acall_out_pops [simp]:
  "r \<noteq> 0 \<Longrightarrow> concat (map (acall_out \<circ> (\<lambda>(p, rt). Complete (Pop_done p rt (r, x)))) ws) = []"
  "r \<noteq> 0 \<Longrightarrow> concat (map (acall_out \<circ> (Complete \<circ> (\<lambda>(p, rt). Pop_done p rt (r, x)))) ws) = []"
  by (induction ws) auto

text \<open>
  One step: what is handed out comes off the front of what is held, what is taken in goes to its
  back, and dropped items leave the order of the others unchanged.
\<close>

lemma a_try_push_inner_items:
  assumes "a_wf a" "a_try_push_inner x a = (b, a', ds)"
  shows "concat (map (acall_out \<circ> Complete) ds) @ a_items a' = a_items a @ (if b then [x] else [])"
  using assms
  by (auto simp: a_try_push_inner_def a_items_def a_wf_def split: list.splits if_splits)

lemma a_try_pop_inner_items:
  assumes "a_try_pop_inner a = (r, a', ds)"
  shows "(case r of Some x \<Rightarrow> [x] | None \<Rightarrow> []) @ a_items a' = a_items a"
    and "concat (map (acall_out \<circ> Complete) ds) = []"
  using assms by (auto simp: a_try_pop_inner_def a_items_def split: list.splits)

lemma ne_errno [simp]: "(- EAGAIN :: int) \<noteq> 0" "(- EPIPE :: int) \<noteq> 0" "(- ECANCELED :: int) \<noteq> 0"
    "(- EPIPE :: int) \<noteq> - EAGAIN"
  by simp_all

lemma a_step_items_keep:
  assumes wf: "a_wf a" and ok: "op_ok op a" and step: "a_step dflt op a = (r, a', as)"
    and keep: "case op of Stop_push _ \<Rightarrow> False | Push_close \<Rightarrow> False | _ \<Rightarrow> True"
  shows "resp_out op r @ concat (map acall_out as) @ a_items a' = a_items a @ step_in op r"
proof (cases op)
  case (Push p rt x)
  obtain b a1 ds where inner: "a_try_push_inner x a = (b, a1, ds)" by (cases "a_try_push_inner x a") auto
  with a_try_push_inner_items [OF wf inner] a_try_push_inner_False [OF wf, of x a1 ds] step Push
  show ?thesis by (cases b) (auto simp: a_request_push_def a_items_def Let_def split: if_splits)
next
  case (Force_push p x)
  obtain b a1 ds where inner: "a_try_push_inner x a = (b, a1, ds)" by (cases "a_try_push_inner x a") auto
  with a_try_push_inner_items [OF wf inner] a_try_push_inner_False [OF wf, of x a1 ds] step Force_push ok
  show ?thesis by (cases b) (auto simp: a_request_push_def a_items_def Let_def split: if_splits)
next
  case (Try_push x)
  obtain b a1 ds where inner: "a_try_push_inner x a = (b, a1, ds)" by (cases "a_try_push_inner x a") auto
  with a_try_push_inner_items [OF wf inner] step Try_push
  show ?thesis by (cases b) (auto simp: a_try_push_def Let_def split: if_splits)
next
  case (Pop p rt)
  obtain q a1 ds where inner: "a_try_pop_inner a = (q, a1, ds)" by (cases "a_try_pop_inner a") auto
  with a_try_pop_inner_items [OF inner] step Pop
  show ?thesis by (cases q) (auto simp: a_request_pop_def a_items_def Let_def
        split: if_splits simp del: concat_eq_Nil_conv)
next
  case Try_pop
  obtain q a1 ds where inner: "a_try_pop_inner a = (q, a1, ds)" by (cases "a_try_pop_inner a") auto
  with a_try_pop_inner_items [OF inner] step Try_pop
  show ?thesis by (cases q) (auto simp: a_try_pop_def Let_def split: if_splits
        simp del: concat_eq_Nil_conv)
next
  case (Stop_pop p)
  with step show ?thesis by (auto simp: a_cancel_pop_def a_items_def)
qed (use keep in simp_all)

lemma subseq_prefix: "subseq xs (xs @ ys)"
  using list_emb_append_mono [OF subseq_order.refl [of xs] list_emb_Nil [of _ ys]] by simp

lemma mset_filter_split: "mset xs = mset (filter P xs) + mset (filter (\<lambda>x. \<not> P x) xs)"
  by (induction xs) auto

lemma a_step_items:
  assumes wf: "a_wf a" and ok: "op_ok op a" and step: "a_step dflt op a = (r, a', as)"
  shows "subseq (resp_out op r @ concat (map acall_out as) @ a_items a') (a_items a @ step_in op r)"
    and "mset (a_items a @ step_in op r) =
         mset (resp_out op r @ concat (map acall_out as) @ a_items a' @ step_drop op a)"
proof -
  consider (keep) "case op of Stop_push _ \<Rightarrow> False | Push_close \<Rightarrow> False | _ \<Rightarrow> True"
    | (stop) p where "op = Stop_push p" | (close) "op = Push_close"
    by (cases op) auto
  then have "subseq (resp_out op r @ concat (map acall_out as) @ a_items a') (a_items a @ step_in op r) \<and>
     mset (a_items a @ step_in op r) =
     mset (resp_out op r @ concat (map acall_out as) @ a_items a' @ step_drop op a)"
  proof cases
    case keep
    moreover have "step_drop op a = []" using keep by (cases op) auto
    ultimately show ?thesis using a_step_items_keep [OF wf ok step keep]
      by (metis append_Nil2 append_assoc subseq_order.refl)
  next
    case (stop p)
    have "mset (map (snd \<circ> snd) (a_push a)) =
        mset (map (snd \<circ> snd) (filter (\<lambda>w. fst w \<noteq> p) (a_push a))) +
        mset (map (snd \<circ> snd) (filter (\<lambda>w. fst w = p) (a_push a)))"
      using mset_filter_split [of "a_push a" "\<lambda>w. fst w \<noteq> p"] by (simp flip: image_mset_union)
    moreover have "subseq (map (snd \<circ> snd) (filter (\<lambda>w. fst w \<noteq> p) (a_push a))) (map (snd \<circ> snd) (a_push a))"
      by (simp add: subseq_map)
    ultimately show ?thesis using stop step
      by (auto simp: a_cancel_push_def a_items_def intro: list_emb_append_mono)
  next
    case close
    with step wf show ?thesis
      by (auto simp: a_close_def a_items_def a_wf_def subseq_prefix)
  qed
  then show "subseq (resp_out op r @ concat (map acall_out as) @ a_items a') (a_items a @ step_in op r)"
    and "mset (a_items a @ step_in op r) =
         mset (resp_out op r @ concat (map acall_out as) @ a_items a' @ step_drop op a)"
    by simp_all
qed

fun run_end :: "'s \<Rightarrow> ('r \<times> 's \<times> 'c) list \<Rightarrow> 's" where
  "run_end s [] = s"
| "run_end s ((r, s', cs) # tr) = run_end s' tr"

lemma a_step_wf: "a_wf a \<Longrightarrow> op_ok op a \<Longrightarrow> a_wf (fst (snd (a_step dflt op a)))"
  by (cases op)
    (auto simp: a_wf_def a_request_push_def a_request_pop_def a_try_push_def a_try_pop_def
      a_try_push_inner_def a_try_pop_inner_def a_cancel_push_def a_cancel_pop_def a_close_def Let_def
      split: list.splits if_splits prod.splits option.splits)

lemma a_run_items:
  "a_wf a \<Longrightarrow> ops_ok dflt ops a \<Longrightarrow>
     subseq (run_out ops (a_run dflt ops a) @ a_items (run_end a (a_run dflt ops a)))
            (a_items a @ run_in ops (a_run dflt ops a)) \<and>
     mset (a_items a @ run_in ops (a_run dflt ops a)) =
     mset (run_out ops (a_run dflt ops a) @ a_items (run_end a (a_run dflt ops a)) @ run_drop dflt ops a)"
proof (induction ops arbitrary: a)
  case (Cons op ops)
  obtain r a1 as where step: "a_step dflt op a = (r, a1, as)" by (cases "a_step dflt op a") auto
  have ok: "op_ok op a" "ops_ok dflt ops a1" using Cons.prems step by simp_all
  have wf1: "a_wf a1" using a_step_wf [OF Cons.prems(1) ok(1), of dflt] step by simp
  note IH = Cons.IH [OF wf1 ok(2)]
  note one = a_step_items [OF Cons.prems(1) ok(1) step]
  let ?o1 = "resp_out op r @ concat (map acall_out as)"
  let ?tr = "a_run dflt ops a1"
  have "subseq (?o1 @ (run_out ops ?tr @ a_items (run_end a1 ?tr))) (?o1 @ (a_items a1 @ run_in ops ?tr))"
    using IH by (simp only: list_emb_append_mono subseq_order.refl)
  also have "subseq \<dots> ((a_items a @ step_in op r) @ run_in ops ?tr)"
    using list_emb_append_mono [OF one(1), of "run_in ops ?tr" "run_in ops ?tr"] by simp
  finally have "subseq (?o1 @ (run_out ops ?tr @ a_items (run_end a1 ?tr)))
      ((a_items a @ step_in op r) @ run_in ops ?tr)" .
  moreover have "mset (a_items a @ step_in op r @ run_in ops ?tr) =
      mset (?o1 @ run_out ops ?tr @ a_items (run_end a1 ?tr) @ step_drop op a @ run_drop dflt ops a1)"
  proof -
    have "mset (a_items a @ step_in op r @ run_in ops ?tr) =
        mset (?o1 @ step_drop op a) + mset (a_items a1 @ run_in ops ?tr)"
      using one(2) by (simp add: ac_simps)
    also have "mset (a_items a1 @ run_in ops ?tr) =
        mset (run_out ops ?tr @ a_items (run_end a1 ?tr) @ run_drop dflt ops a1)"
      using IH by blast
    finally show ?thesis by (simp add: ac_simps)
  qed
  ultimately show ?case by (simp add: step)
qed simp

text \<open>With no stop of a push and no close nothing is dropped.\<close>

lemma run_drop_Nil:
  "\<forall>op \<in> set ops. \<forall>p. op \<noteq> Stop_push p \<and> op \<noteq> Push_close \<Longrightarrow> run_drop dflt ops a = []"
proof (induction ops arbitrary: a)
  case (Cons op ops)
  then show ?case by (cases op) auto
qed simp

lemma subseq_mset_eq: "subseq xs ys \<Longrightarrow> mset xs = mset ys \<Longrightarrow> xs = ys"
  by (metis size_mset subseq_same_length)

section \<open>Every waiter is completed exactly once\<close>

text \<open>Waiting handles, pushes on the left and pops on the right.\<close>

definition a_waiting :: "'a achannel \<Rightarrow> (ptr + ptr) list" where
  "a_waiting a = map (Inl \<circ> fst) (a_push a) @ map (Inr \<circ> fst) (a_pop a)"

fun acall_done :: "'a acall \<Rightarrow> (ptr + ptr) list" where
  "acall_done (Complete (Push_done p rt r)) = [Inl p]"
| "acall_done (Complete (Pop_done p rt r)) = [Inr p]"
| "acall_done (Pend rt) = []"

fun step_wait :: "'a chan_op \<Rightarrow> 'a achannel \<Rightarrow> (ptr + ptr) list" where
  "step_wait (Push p rt x) a' = filter (\<lambda>w. w = Inl p) (a_waiting a')"
| "step_wait (Force_push p x) a' = filter (\<lambda>w. w = Inl p) (a_waiting a')"
| "step_wait (Pop p rt) a' = filter (\<lambda>w. w = Inr p) (a_waiting a')"
| "step_wait _ a' = []"

fun run_wait :: "'a chan_op list \<Rightarrow> ('a resp \<times> 'a achannel \<times> 'c) list \<Rightarrow> (ptr + ptr) list" where
  "run_wait (op # ops) ((r, a, _) # tr) = step_wait op a @ run_wait ops tr"
| "run_wait _ _ = []"

definition run_done :: "('a resp \<times> 'b \<times> 'a acall list) list \<Rightarrow> (ptr + ptr) list" where
  "run_done tr = concat (map (\<lambda>(r, a, as). concat (map acall_done as)) tr)"

lemma concat_done [simp]:
  "concat (map (acall_done \<circ> (Complete \<circ> (\<lambda>(p, rt, x). Push_done p rt r))) ws) = map (Inl \<circ> fst) ws"
  "concat (map (acall_done \<circ> (\<lambda>(p, rt, x). Complete (Push_done p rt r))) ws) = map (Inl \<circ> fst) ws"
  "concat (map (acall_done \<circ> (Complete \<circ> (\<lambda>(p, rt). Pop_done p rt q))) vs) = map (Inr \<circ> fst) vs"
  "concat (map (acall_done \<circ> (\<lambda>(p, rt). Complete (Pop_done p rt q))) vs) = map (Inr \<circ> fst) vs"
  by (induction ws, auto; induction vs, auto)+

lemma filter_notin_Inl: "p \<notin> fst ` set ws \<Longrightarrow> filter (\<lambda>w. w = Inl p) (map (Inl \<circ> fst) ws) = []"
  by (auto simp: filter_empty_conv image_iff)

lemma filter_notin_Inr: "p \<notin> fst ` set ws \<Longrightarrow> filter (\<lambda>w. w = Inr p) (map (Inr \<circ> fst) ws) = []"
  by (auto simp: filter_empty_conv image_iff)

lemma filter_other [simp]:
  "filter (\<lambda>w. w = Inr p) (map (Inl \<circ> f) ws) = []" "filter (\<lambda>w. w = Inl p) (map (Inr \<circ> f) ws) = []"
  by (auto simp: filter_empty_conv)

lemma a_step_waiters:
  assumes wf: "a_wf a" and ok: "op_ok op a" and step: "a_step dflt op a = (r, a', as)"
  shows "mset (a_waiting a @ step_wait op a') = mset (concat (map acall_done as) @ a_waiting a')"
proof (cases op)
  case (Push p rt x)
  then have "p \<notin> fst ` set (a_push a)" using ok by simp
  from this filter_notin_Inl [OF this] Push step wf show ?thesis
    by (auto simp: a_request_push_def a_try_push_inner_def a_waiting_def a_wf_def split: list.splits if_splits)
next
  case (Force_push p x)
  then have "p \<notin> fst ` set (a_push a)" using ok by simp
  from this filter_notin_Inl [OF this] Force_push step wf ok show ?thesis
    by (auto simp: a_request_push_def a_try_push_inner_def a_waiting_def a_wf_def split: list.splits if_splits)
next
  case (Pop p rt)
  then have "p \<notin> fst ` set (a_pop a)" using ok by simp
  from this filter_notin_Inr [OF this] Pop step wf show ?thesis
    by (auto simp: a_request_pop_def a_try_pop_inner_def a_waiting_def a_wf_def split: list.splits if_splits)
next
  case (Stop_push p)
  have "image_mset (Inl \<circ> fst) (mset (a_push a)) =
      image_mset (Inl \<circ> fst) (filter_mset (\<lambda>w. fst w = p) (mset (a_push a))) +
      image_mset (Inl \<circ> fst) (filter_mset (\<lambda>w. fst w \<noteq> p) (mset (a_push a)))"
    by (metis image_mset_union multiset_partition)
  with Stop_push step show ?thesis by (auto simp: a_cancel_push_def a_waiting_def)
next
  case (Stop_pop p)
  have "image_mset (Inr \<circ> fst) (mset (a_pop a)) =
      image_mset (Inr \<circ> fst) (filter_mset (\<lambda>w. fst w = p) (mset (a_pop a))) +
      image_mset (Inr \<circ> fst) (filter_mset (\<lambda>w. fst w \<noteq> p) (mset (a_pop a)))"
    by (metis image_mset_union multiset_partition)
  with Stop_pop step show ?thesis by (auto simp: a_cancel_pop_def a_waiting_def)
next
  case (Try_push x)
  with step wf show ?thesis
    by (auto simp: a_try_push_def a_try_push_inner_def a_waiting_def split: list.splits if_splits)
next
  case Try_pop
  with step wf show ?thesis
    by (auto simp: a_try_pop_def a_try_pop_inner_def a_waiting_def split: list.splits if_splits)
next
  case Push_close
  with step wf show ?thesis by (auto simp: a_close_def a_waiting_def split: if_splits)
qed

lemma a_run_waiters:
  "a_wf a \<Longrightarrow> ops_ok dflt ops a \<Longrightarrow>
     mset (a_waiting a @ run_wait ops (a_run dflt ops a)) =
     mset (run_done (a_run dflt ops a) @ a_waiting (run_end a (a_run dflt ops a)))"
proof (induction ops arbitrary: a)
  case (Cons op ops)
  obtain r a1 as where step: "a_step dflt op a = (r, a1, as)" by (cases "a_step dflt op a") auto
  have ok: "op_ok op a" "ops_ok dflt ops a1" using Cons.prems step by simp_all
  have wf1: "a_wf a1" using a_step_wf [OF Cons.prems(1) ok(1), of dflt] step by simp
  let ?tr = "a_run dflt ops a1"
  have "mset (a_waiting a @ step_wait op a1 @ run_wait ops ?tr) =
      mset (concat (map acall_done as)) + mset (a_waiting a1 @ run_wait ops ?tr)"
    using a_step_waiters [OF Cons.prems(1) ok(1) step] by (simp add: ac_simps)
  also have "mset (a_waiting a1 @ run_wait ops ?tr) =
      mset (run_done ?tr @ a_waiting (run_end a1 ?tr))"
    using Cons.IH [OF wf1 ok(2)] .
  finally show ?case by (simp add: step run_done_def)
qed (simp add: run_done_def)

section \<open>Closed channels\<close>

lemma a_step_closed:
  assumes "a_wf a" "a_closed a" "op_ok op a" "a_step dflt op a = (r, a', as)"
  shows "a_closed a'" and "fst r \<noteq> - EAGAIN" and "\<forall>d \<in> set as. \<exists>e. d = Complete e" and "a_waiting a' = []"
proof -
  have "a_closed a' \<and> fst r \<noteq> - EAGAIN \<and> as = [] \<and> a_waiting a' = []"
    using assms
    by (cases op)
      (auto simp: a_wf_def a_waiting_def a_request_push_def a_request_pop_def a_try_push_def
        a_try_pop_def a_try_pop_inner_def a_cancel_push_def a_cancel_pop_def a_close_def
        split: list.splits if_splits prod.splits)
  then show "a_closed a'" and "fst r \<noteq> - EAGAIN" and "\<forall>d \<in> set as. \<exists>e. d = Complete e" and "a_waiting a' = []"
    by simp_all
qed

lemma a_run_closed:
  "a_wf a \<Longrightarrow> a_closed a \<Longrightarrow> ops_ok dflt ops a \<Longrightarrow>
     \<forall>(r, a', as) \<in> set (a_run dflt ops a). fst r \<noteq> - EAGAIN \<and> a_closed a' \<and> a_waiting a' = []"
proof (induction ops arbitrary: a)
  case (Cons op ops)
  obtain r a1 as where step: "a_step dflt op a = (r, a1, as)" by (cases "a_step dflt op a") auto
  have ok: "op_ok op a" "ops_ok dflt ops a1" using Cons.prems step by simp_all
  have wf1: "a_wf a1" using a_step_wf [OF Cons.prems(1) ok(1), of dflt] step by simp
  note one = a_step_closed [OF Cons.prems(1,2) ok(1) step]
  show ?case using Cons.IH [OF wf1 one(1) ok(2)] one(1,2,4) by (simp add: step)
qed simp

lemma a_run_close:
  assumes "a_wf a" "ops_ok dflt (Push_close # ops) a"
  shows "\<forall>(r, a', as) \<in> set (a_run dflt (Push_close # ops) a).
           fst r \<noteq> - EAGAIN \<and> a_closed a' \<and> a_waiting a' = []"
proof -
  let ?a = "fst (a_close dflt a)"
  have "a_wf ?a" using a_step_wf [OF assms(1), of Push_close dflt] by (simp add: split_beta)
  moreover have "a_closed ?a" "a_waiting ?a = []"
    using assms(1) by (auto simp: a_close_def a_wf_def a_waiting_def)
  ultimately show ?thesis using a_run_closed [of ?a dflt ops] assms(2) by (simp add: split_beta)
qed

lemma a_run_append: "a_run dflt (xs @ ys) a = a_run dflt xs a @ a_run dflt ys (run_end a (a_run dflt xs a))"
proof (induction xs arbitrary: a)
  case (Cons op xs)
  then show ?case by (cases "a_step dflt op a") simp
qed simp

lemma ops_ok_append:
  "a_wf a \<Longrightarrow> ops_ok dflt (xs @ ys) a \<Longrightarrow>
     ops_ok dflt ys (run_end a (a_run dflt xs a)) \<and> a_wf (run_end a (a_run dflt xs a))"
proof (induction xs arbitrary: a)
  case (Cons op xs)
  then show ?case using a_step_wf [of a op dflt] by (cases "a_step dflt op a") simp
qed simp

lemma a_run_length [simp]: "length (a_run dflt ops a) = length ops"
  by (induction ops arbitrary: a) auto

lemma ch_rel_quiet:
  "ch_rel c a \<Longrightarrow> a_waiting a = [] \<Longrightarrow> idl_empty (ch_push_awaiters c) \<and> idl_empty (ch_pop_awaiters c)"
  using ch_rel_size(4,5) [of c a] by (simp add: a_waiting_def)

lemma run_in_rel: "list_all2 step_rel tr atr \<Longrightarrow> run_in ops tr = run_in ops atr"
proof (induction ops arbitrary: tr atr)
  case (Cons op ops)
  then show ?case by (cases tr; cases atr) auto
qed simp

lemma run_end_rel: "list_all2 step_rel tr atr \<Longrightarrow> ch_rel c a \<Longrightarrow> ch_rel (run_end c tr) (run_end a atr)"
proof (induction tr atr arbitrary: c a rule: list_all2_induct)
  case (Cons s tr s' atr)
  then show ?case by (cases s; cases s') auto
qed simp

lemma a_items_new [simp]: "a_items (a_new po qo n) = []" and a_waiting_new [simp]: "a_waiting (a_new po qo n) = []"
  by (simp_all add: a_items_def a_waiting_def a_new_def)

section \<open>Properties of the channel\<close>

text \<open>
  C12. Every run of channel operations from a fresh channel returns: no assert fails, no slot is
  used uninitialised and no loop diverges. It behaves step by step like the abstract bounded
  FIFO: same responses, same calls to runtimes in the same order, and every woken handle holds
  the result the abstract channel completes it with.
\<close>

theorem channel_run_refines:
  assumes "n \<le> 2 ^ 63" and "ops_ok dflt ops (a_new po qo n)"
  shows "\<exists>tr. ch_run dflt ops (ch_new N n po qo phs qhs) = Some tr \<and>
              list_all2 step_rel tr (a_run dflt ops (a_new po qo n))"
  using assms by (intro ch_run_sim ch_new_rel a_wf_new)

definition sample_ops :: "nat chan_op list" where
  "sample_ops = [Pop 0x1000 0x10, Push 0x2000 0x20 1, Try_push 2, Push 0x3000 0x20 3,
     Push 0x4000 0x20 4, Try_pop, Stop_push 0x4000, Force_push 0x5000 5, Push_close, Try_pop, Pop 0x1000 0x10]"

lemma sample_ops_ok: "ops_ok 0 sample_ops (a_new 8 8 1)"
  by code_simp

theorem channel_run_refines_witness:
  "\<exists>tr. ch_run 0 sample_ops (ch_new 2 1 8 8 (\<lambda>_. ph_new 0) (\<lambda>_. qh_new 0)) = Some tr \<and>
        list_all2 step_rel tr (a_run 0 sample_ops (a_new 8 8 1))"
  using channel_run_refines [of 1 0 sample_ops 8 8 2 "\<lambda>_. ph_new 0" "\<lambda>_. qh_new 0"] sample_ops_ok by simp

text \<open>
  C13. First in, first out, and nothing is lost or duplicated: at every point, what pops have
  received, in the order they received it, followed by what the buffer and then the waiting
  pushes hold, is a subsequence of what was accepted, in order; and what was accepted is exactly
  what was received, is still held, or was dropped with a push that was stopped or closed while
  it waited.
\<close>

theorem channel_fifo:
  assumes "n \<le> 2 ^ 63" and "ops_ok dflt ops (a_new po qo n)"
  shows "\<exists>tr atr. ch_run dflt ops (ch_new N n po qo phs qhs) = Some tr \<and> list_all2 step_rel tr atr \<and>
     subseq (run_out ops atr @ a_items (run_end (a_new po qo n) atr)) (run_in ops tr) \<and>
     mset (run_in ops tr) =
       mset (run_out ops atr) + mset (a_items (run_end (a_new po qo n) atr)) +
       mset (run_drop dflt ops (a_new po qo n))"
proof -
  let ?a = "a_new po qo n :: 'a achannel"
  obtain tr where tr: "ch_run dflt ops (ch_new N n po qo phs qhs) = Some tr"
      "list_all2 step_rel tr (a_run dflt ops ?a)"
    using ch_run_sim [OF ch_new_rel [OF assms(1)] a_wf_new assms(2)] by blast
  with a_run_items [OF a_wf_new assms(2)] run_in_rel [OF tr(2), of ops] show ?thesis
    by (intro exI [of _ tr] exI [of _ "a_run dflt ops ?a"]) (simp add: ac_simps)
qed

theorem channel_fifo_witness:
  "\<exists>tr atr. ch_run 0 sample_ops (ch_new 2 1 8 8 (\<lambda>_. ph_new 0) (\<lambda>_. qh_new 0)) = Some tr \<and>
     list_all2 step_rel tr atr \<and>
     subseq (run_out sample_ops atr @ a_items (run_end (a_new 8 8 1) atr)) (run_in sample_ops tr) \<and>
     mset (run_in sample_ops tr) =
       mset (run_out sample_ops atr) + mset (a_items (run_end (a_new 8 8 1) atr)) +
       mset (run_drop 0 sample_ops (a_new 8 8 1))"
  using channel_fifo [of 1 0 sample_ops 8 8 2 "\<lambda>_. ph_new 0" "\<lambda>_. qh_new 0"] sample_ops_ok by simp

text \<open>
  C15. Every handle that starts to wait is completed exactly once or is still waiting: no waiter
  is lost and none is woken twice.
\<close>

theorem channel_waiters_once:
  assumes "n \<le> 2 ^ 63" and "ops_ok dflt ops (a_new po qo n)"
  shows "\<exists>tr. ch_run dflt ops (ch_new N n po qo phs qhs) = Some tr \<and>
     list_all2 step_rel tr (a_run dflt ops (a_new po qo n)) \<and>
     mset (run_wait ops (a_run dflt ops (a_new po qo n))) =
       mset (run_done (a_run dflt ops (a_new po qo n))) +
       mset (a_waiting (run_end (a_new po qo n) (a_run dflt ops (a_new po qo n))))"
  using ch_run_sim [OF ch_new_rel [OF assms(1)] a_wf_new assms(2)]
    a_run_waiters [OF a_wf_new assms(2)] by simp

theorem channel_waiters_once_witness:
  "\<exists>tr. ch_run 0 sample_ops (ch_new 2 1 8 8 (\<lambda>_. ph_new 0) (\<lambda>_. qh_new 0)) = Some tr \<and>
     list_all2 step_rel tr (a_run 0 sample_ops (a_new 8 8 1)) \<and>
     mset (run_wait sample_ops (a_run 0 sample_ops (a_new 8 8 1))) =
       mset (run_done (a_run 0 sample_ops (a_new 8 8 1))) +
       mset (a_waiting (run_end (a_new 8 8 1) (a_run 0 sample_ops (a_new 8 8 1))))"
  using channel_waiters_once [of 1 0 sample_ops 8 8 2 "\<lambda>_. ph_new 0" "\<lambda>_. qh_new 0"] sample_ops_ok by simp

text \<open>
  C21. After \<open>push_close\<close> nothing waits: every waiter has been woken, and no later operation is
  answered \<open>-EAGAIN\<close>, whatever the operations before the close.
\<close>

theorem channel_close_wakes:
  assumes "n \<le> 2 ^ 63" and "ops_ok dflt (ops1 @ Push_close # ops2) (a_new po qo n)"
  shows "\<exists>tr1 tr2. ch_run dflt (ops1 @ Push_close # ops2) (ch_new N n po qo phs qhs) = Some (tr1 @ tr2) \<and>
     length tr1 = length ops1 \<and>
     (\<forall>(r, c, cs) \<in> set tr2. fst r \<noteq> - EAGAIN \<and> ch_closed c \<and>
        idl_empty (ch_push_awaiters c) \<and> idl_empty (ch_pop_awaiters c))"
proof -
  let ?a = "a_new po qo n :: 'a achannel"
  let ?a1 = "run_end ?a (a_run dflt ops1 ?a)"
  obtain tr where tr: "ch_run dflt (ops1 @ Push_close # ops2) (ch_new N n po qo phs qhs) = Some tr"
      "list_all2 step_rel tr (a_run dflt ops1 ?a @ a_run dflt (Push_close # ops2) ?a1)"
    using ch_run_sim [OF ch_new_rel [OF assms(1)] a_wf_new assms(2)] unfolding a_run_append by blast
  from tr(2) obtain tr1 tr2 where split: "tr = tr1 @ tr2"
      "list_all2 step_rel tr1 (a_run dflt ops1 ?a)" "list_all2 step_rel tr2 (a_run dflt (Push_close # ops2) ?a1)"
    unfolding list_all2_append2 by blast
  have quiet: "\<forall>(r, a', as) \<in> set (a_run dflt (Push_close # ops2) ?a1).
      fst r \<noteq> - EAGAIN \<and> a_closed a' \<and> a_waiting a' = []"
    using ops_ok_append [OF a_wf_new assms(2)] by (intro a_run_close) simp_all
  have "fst r \<noteq> - EAGAIN \<and> ch_closed c \<and> idl_empty (ch_push_awaiters c) \<and> idl_empty (ch_pop_awaiters c)"
    if mem: "(r, c, cs) \<in> set tr2" for r c cs
  proof -
    obtain r' a' as where "(r', a', as) \<in> set (a_run dflt (Push_close # ops2) ?a1)"
        "step_rel (r, c, cs) (r', a', as)"
      using split(3) mem by (metis list_all2_conv_all_nth in_set_conv_nth prod_cases3)
    with quiet show ?thesis using ch_rel_closed ch_rel_quiet by fastforce
  qed
  moreover have "length tr1 = length ops1" using list_all2_lengthD [OF split(2)] by simp
  ultimately show ?thesis using tr(1) split(1) by blast
qed

theorem channel_close_wakes_witness:
  "\<exists>tr1 tr2. ch_run (0 :: nat) ([Pop 0x1000 0x10, Pop 0x2000 0x10] @ Push_close # [Pop 0x1000 0x10, Try_push 7])
       (ch_new 2 1 8 8 (\<lambda>_. ph_new 0) (\<lambda>_. qh_new 0)) = Some (tr1 @ tr2) \<and>
     length tr1 = length [Pop 0x1000 0x10, Pop 0x2000 0x10 :: nat chan_op] \<and>
     (\<forall>(r, c, cs) \<in> set tr2. fst r \<noteq> - EAGAIN \<and> ch_closed c \<and>
        idl_empty (ch_push_awaiters c) \<and> idl_empty (ch_pop_awaiters c))"
proof (rule channel_close_wakes)
  show "ops_ok 0 ([Pop 0x1000 0x10, Pop 0x2000 0x10] @ Push_close # [Pop 0x1000 0x10, Try_push 7])
      (a_new 8 8 1 :: nat achannel)"
    by code_simp
qed simp

text \<open>
  C22. Destroying a channel, in any reachable state, returns; it completes every waiter with
  \<open>-EPIPE\<close>, runs the destructor of every buffered item and leaves every slot of the buffer raw.
\<close>

theorem channel_destroy_complete:
  assumes "n \<le> 2 ^ 63" and "ops_ok dflt ops (a_new po qo n)"
  shows "\<exists>tr c' ds a. ch_run dflt ops (ch_new N n po qo phs qhs) = Some tr \<and>
     ch_destroy dflt (run_end (ch_new N n po qo phs qhs) tr) = Some (c', map completion_call ds) \<and>
     a = run_end (a_new po qo n) (a_run dflt ops (a_new po qo n)) \<and>
     (\<not> a_closed a \<longrightarrow>
        ds = map (\<lambda>(p, rt). Pop_done p rt (- EPIPE, dflt)) (a_pop a) @
             map (\<lambda>(p, rt, x). Push_done p rt (- EPIPE)) (a_push a)) \<and>
     ch_closed c' \<and> idl_empty (ch_push_awaiters c') \<and> idl_empty (ch_pop_awaiters c') \<and>
     (\<forall>i < sa_capacity (ch_buffer c'). sa_get (ch_buffer c') i = Some rs_raw)"
proof -
  let ?a = "a_new po qo n :: 'a achannel"
  let ?a1 = "run_end ?a (a_run dflt ops ?a)"
  obtain tr where tr: "ch_run dflt ops (ch_new N n po qo phs qhs) = Some tr"
      "list_all2 step_rel tr (a_run dflt ops ?a)"
    using ch_run_sim [OF ch_new_rel [OF assms(1)] a_wf_new assms(2)] by blast
  let ?c1 = "run_end (ch_new N n po qo phs qhs) tr"
  have rel: "ch_rel ?c1 ?a1" by (rule run_end_rel [OF tr(2) ch_new_rel [OF assms(1)]])
  have wf: "a_wf ?a1" using ops_ok_append [OF a_wf_new, of dflt ops "[]"] assms(2) by simp
  obtain a2 ds where spec: "a_close dflt ?a1 = (a2, ds)" by (cases "a_close dflt ?a1")
  obtain c' where c': "ch_destroy dflt ?c1 = Some (c', map completion_call ds)"
      "ch_rel c' (a2\<lparr>a_buf := []\<rparr>)"
    using ch_destroy_sim [OF rel wf spec] by blast
  have a2: "a_closed a2" "a_push a2 = []" "a_pop a2 = []"
    using spec wf by (auto simp: a_close_def a_wf_def split: if_splits)
  have "ch_closed c'" "idl_empty (ch_push_awaiters c')" "idl_empty (ch_pop_awaiters c')"
    using ch_rel_closed [OF c'(2)] ch_rel_size(4,5) [OF c'(2)] a2 by simp_all
  moreover have "ring_rep (ch_head c') (ch_tail c') (ch_buffer c') []"
    using c'(2) by (simp add: ch_rel_def)
  then have "\<forall>i < sa_capacity (ch_buffer c'). sa_get (ch_buffer c') i = Some rs_raw"
    by (simp add: ring_rep_Nil_raw rs_raw_def)
  moreover have "\<not> a_closed ?a1 \<longrightarrow> ds = map (\<lambda>(p, rt). Pop_done p rt (- EPIPE, dflt)) (a_pop ?a1) @
      map (\<lambda>(p, rt, x). Push_done p rt (- EPIPE)) (a_push ?a1)"
    using spec by (auto simp: a_close_def)
  ultimately show ?thesis using c'(1) tr(1) by blast
qed

definition sample_wait :: "nat chan_op list" where
  "sample_wait = [Try_push 7, Push 0x3000 0x20 3, Force_push 0x5000 5]"

lemma sample_wait_ok: "ops_ok 0 sample_wait (a_new 8 8 1)"
  by code_simp

theorem channel_destroy_complete_witness:
  "\<exists>tr c' ds a. ch_run 0 sample_wait (ch_new 2 1 8 8 (\<lambda>_. ph_new 0) (\<lambda>_. qh_new 0)) = Some tr \<and>
     ch_destroy 0 (run_end (ch_new 2 1 8 8 (\<lambda>_. ph_new 0) (\<lambda>_. qh_new 0)) tr) = Some (c', map completion_call ds) \<and>
     a = run_end (a_new 8 8 1) (a_run 0 sample_wait (a_new 8 8 1)) \<and>
     (\<not> a_closed a \<longrightarrow>
        ds = map (\<lambda>(p, rt). Pop_done p rt (- EPIPE, 0 :: nat)) (a_pop a) @
             map (\<lambda>(p, rt, x). Push_done p rt (- EPIPE)) (a_push a)) \<and>
     ch_closed c' \<and> idl_empty (ch_push_awaiters c') \<and> idl_empty (ch_pop_awaiters c') \<and>
     (\<forall>i < sa_capacity (ch_buffer c'). sa_get (ch_buffer c') i = Some rs_raw)"
  by (rule channel_destroy_complete [OF _ sample_wait_ok]) simp

end
