(* ===== verification/Work_Type.thy ===== *)
theory Work_Type
  imports Condy_Prelude
begin

text \<open>
  \<open>include/condy/detail/work_type.hpp\<close>: the kind of a completion is packed into the three low
  bits of the pointer that travels as the \<open>user_data\<close> of an io_uring request.
\<close>

datatype work_type = Common | Ignore | Schedule | Cancel

text \<open>The numbering of the enum, and the cast back (the remaining codes are no work type).\<close>

primrec work_type_code :: "work_type \<Rightarrow> u64" where
  "work_type_code Common = 0"
| "work_type_code Ignore = 1"
| "work_type_code Schedule = 2"
| "work_type_code Cancel = 3"

definition work_type_of :: "u64 \<Rightarrow> work_type option" where
  "work_type_of c = (if c = 0 then Some Common else if c = 1 then Some Ignore
                     else if c = 2 then Some Schedule else if c = 3 then Some Cancel else None)"

definition encode_work_ptr :: "ptr \<Rightarrow> work_type \<Rightarrow> u64 option" where
  "encode_work_ptr p type = do {
     massert (p mod 8 = 0);
     Some (p OR work_type_code type)
   }"

definition decode_work :: "u64 \<Rightarrow> ptr \<times> work_type option" where
  "decode_work w = (let m = push_bit 3 1 - 1 in (w AND NOT m, work_type_of (w AND m)))"

text \<open>\<open>encode_work\<close> for an object pointer and for \<open>nullptr\<close>.\<close>

definition encode_work :: "ptr \<Rightarrow> work_type \<Rightarrow> u64 option" where
  "encode_work p type = encode_work_ptr p type"

text \<open>The alignment that the static\_assert gives every object pointer.\<close>

definition aligned8 :: "ptr \<Rightarrow> bool" where
  "aligned8 p \<longleftrightarrow> p mod 8 = 0"

lemma work_type_of_code [simp]: "work_type_of (work_type_code t) = Some t"
  by (cases t) (simp_all add: work_type_of_def)

lemma work_mask: "(push_bit 3 1 - 1 :: u64) = mask 3"
  by (simp add: mask_eq_exp_minus_1 push_bit_eq_mult)

lemma work_type_code_mask: "work_type_code t AND mask 3 = work_type_code t"
  by (cases t) (simp_all add: mask_eq_exp_minus_1)

lemma aligned8_mask: "aligned8 p \<longleftrightarrow> p AND mask 3 = 0"
  by (simp add: aligned8_def take_bit_eq_mask [symmetric] take_bit_eq_mod)

lemma aligned8_null [simp]: "aligned8 0"
  by (simp add: aligned8_def)

lemma decode_tagged:
  assumes "aligned8 p"
  shows "decode_work (p OR work_type_code t) = (p, Some t)"
proof -
  have p: "p AND mask 3 = 0" using assms by (simp add: aligned8_mask)
  have low: "(p OR work_type_code t) AND mask 3 = work_type_code t"
    by (simp add: word_ao_dist p work_type_code_mask)
  have "p AND NOT (mask 3) = p"
    by (simp add: and_not_diff p)
  moreover have "work_type_code t AND NOT (mask 3) = 0"
    by (cases t) (simp_all add: mask_eq_exp_minus_1)
  ultimately have "(p OR work_type_code t) AND NOT (mask 3) = p"
    by (simp add: word_ao_dist)
  with low show ?thesis
    unfolding decode_work_def work_mask Let_def by simp
qed

lemma encode_work_aligned [simp]: "aligned8 p \<Longrightarrow> encode_work p t = Some (p OR work_type_code t)"
  by (simp add: encode_work_def encode_work_ptr_def aligned8_def)

text \<open>
  C37. Tagging is a round trip: for an 8-aligned pointer (or null) and every work type, encoding
  passes its assert and decoding the result gives the pointer and the type back.
\<close>

theorem work_roundtrip:
  assumes "aligned8 p"
  shows "\<exists>w. encode_work p t = Some w \<and> decode_work w = (p, Some t)"
  using assms decode_tagged by simp

theorem work_roundtrip_witness:
  "\<exists>w. encode_work 0x7f80 Cancel = Some w \<and> decode_work w = (0x7f80, Some Cancel)"
  by (rule work_roundtrip) (simp add: aligned8_def)

end
