(* ===== verification/Coro.thy ===== *)
theory Coro
  imports Utils
begin

text \<open>
  \<open>include/condy/detail/coro.hpp\<close> and \<open>coro.hpp\<close>: the promise of a coroutine and its lifecycle
  state machine, the awaiters of senders and of coroutines, and the frame allocation of
  \<open>BindAllocator\<close>.

  The lifecycle is concurrent: the coroutine finishes in its runtime's thread (\<open>final_suspend\<close>)
  while the owner of the task joins or detaches it in another thread (\<open>request_join\<close>,
  \<open>request_detach\<close>). Each of the three functions is a loop around a weak compare-exchange. The
  model gives every function a program counter and makes each access to the shared promise one
  step; a step takes a flag that says whether a weak compare-exchange fails spuriously. The
  theorems hold for every interleaving of the steps.
\<close>

section \<open>The promise\<close>

datatype pstate = Idle | RunningJoinable | RunningDetached | RunningJoining | Zombie | Finished

text \<open>The union of \<open>caller_handle_\<close> and \<open>callback_\<close>: which member is active, and its value.\<close>

datatype slot = Caller_handle ptr | Callback ptr

text \<open>\<open>'v\<close> is the type of results, \<open>'e\<close> that of exceptions.\<close>

record ('v, 'e) promise =
  pr_state :: pstate
  pr_slot :: slot
  pr_exception :: "'e option"
  pr_value :: "'v option"

text \<open>\<open>noop\<close> is the address of the no-op coroutine.\<close>

definition pr_new :: "ptr \<Rightarrow> ('v, 'e) promise" where
  "pr_new noop = \<lparr>pr_state = Idle, pr_slot = Caller_handle noop, pr_exception = None, pr_value = None\<rparr>"

definition pr_mark_running :: "('v, 'e) promise \<Rightarrow> ('v, 'e) promise" where
  "pr_mark_running p = p\<lparr>pr_state := RunningJoinable\<rparr>"

definition pr_set_caller_handle :: "ptr \<Rightarrow> ('v, 'e) promise \<Rightarrow> ('v, 'e) promise" where
  "pr_set_caller_handle h p = p\<lparr>pr_slot := Caller_handle h\<rparr>"

definition pr_unhandled_exception :: "'e \<Rightarrow> ('v, 'e) promise \<Rightarrow> ('v, 'e) promise" where
  "pr_unhandled_exception e p = p\<lparr>pr_exception := Some e\<rparr>"

definition pr_return_value :: "'v \<Rightarrow> ('v, 'e) promise \<Rightarrow> ('v, 'e) promise" where
  "pr_return_value v p = p\<lparr>pr_value := Some v\<rparr>"

text \<open>\<open>exception()\<close> moves the exception out; \<open>value()\<close> is undefined when nothing was returned.\<close>

definition pr_take_exception :: "('v, 'e) promise \<Rightarrow> 'e option \<times> ('v, 'e) promise" where
  "pr_take_exception p = (pr_exception p, p\<lparr>pr_exception := None\<rparr>)"

definition pr_take_value :: "('v, 'e) promise \<Rightarrow> 'v option" where
  "pr_take_value p = pr_value p"

text \<open>
  \<open>~PromiseBase\<close> panics when an exception was never taken. The text depends on the type of the
  exception, which is abstract here; it is given without the description that the exception adds.
\<close>

definition pr_destroy :: "('v, 'e) promise \<Rightarrow> unit result" where
  "pr_destroy p = (case pr_exception p of
     None \<Rightarrow> Inr ()
   | Some e \<Rightarrow> Inl (Panic ''Unhandled exception in detached coroutine''))"

text \<open>
  Reading the result of a finished coroutine and destroying its frame, as \<open>Task::wait\<close>,
  \<open>TaskAwaiter::await_resume\<close> and \<open>CoroAwaiter::await_resume\<close> do: the exception is taken first, and
  the frame is destroyed on both paths. The outcome is the exception or the value.
\<close>

definition take_result :: "('v, 'e) promise \<Rightarrow> ('e + 'v) result option" where
  "take_result p =
     (let (exc, p1) = pr_take_exception p
      in case exc of
           Some e \<Rightarrow> (case pr_destroy p1 of Inl f \<Rightarrow> Some (Inl f) | Inr _ \<Rightarrow> Some (Inr (Inl e)))
         | None \<Rightarrow> do {
             v \<leftarrow> pr_take_value p1;
             (case pr_destroy p1 of Inl f \<Rightarrow> Some (Inl f) | Inr _ \<Rightarrow> Some (Inr (Inr v)))
           })"

section \<open>The three concurrent functions\<close>

text \<open>How the body of the coroutine ends: it throws or returns.\<close>

type_synonym ('v, 'e) outcome = "'e + 'v"

definition pr_finish :: "('v, 'e) outcome \<Rightarrow> ('v, 'e) promise \<Rightarrow> ('v, 'e) promise" where
  "pr_finish oc p = (case oc of Inl e \<Rightarrow> pr_unhandled_exception e p | Inr v \<Rightarrow> pr_return_value v p)"

text \<open>
  The thread of the coroutine: its body, then \<open>FinalAwaiter::await_suspend\<close>. \<open>Fs_ret h\<close> transfers
  control to the coroutine \<open>h\<close>.
\<close>

datatype ('v, 'e) fs_pc =
    Fs_body "('v, 'e) outcome"
  | Fs_load
  | Fs_loop pstate
  | Fs_cas pstate pstate
  | Fs_after pstate
  | Fs_ret ptr

text \<open>The thread of the owner: \<open>request_join\<close> with a callback, or \<open>request_detach\<close>.\<close>

datatype cons_pc =
    Cj_load ptr
  | Cj_loop ptr pstate
  | Cj_cas ptr pstate pstate
  | Cj_after ptr pstate
  | Cj_wait ptr
  | Cj_ready
  | Cd_load
  | Cd_loop pstate
  | Cd_cas pstate pstate
  | Cd_after pstate
  | Cons_done

text \<open>What can go wrong.\<close>

datatype fault = Invalid_state pstate | Assert_failed | Use_after_free | Union_misuse | Result_missing

text \<open>
  A configuration: the promise, how often its frame has been destroyed, whether the destructor
  panicked, the callback that has been invoked, the outcome the owner received, and the two
  program counters.
\<close>

record ('v, 'e) life =
  lf_promise :: "('v, 'e) promise"
  lf_destroyed :: nat
  lf_panic :: "failure option"
  lf_woken :: "ptr list"
  lf_result :: "('v, 'e) outcome option"
  lf_fs :: "('v, 'e) fs_pc"
  lf_cons :: cons_pc
  lf_fault :: "fault option"

definition lf_upd :: "(('v, 'e) promise \<Rightarrow> ('v, 'e) promise) \<Rightarrow> ('v, 'e) life \<Rightarrow> ('v, 'e) life" where
  "lf_upd f l = l\<lparr>lf_promise := f (lf_promise l)\<rparr>"

definition lf_fail :: "fault \<Rightarrow> ('v, 'e) life \<Rightarrow> ('v, 'e) life" where
  "lf_fail ft l = l\<lparr>lf_fault := Some ft\<rparr>"

text \<open>\<open>handle.destroy()\<close>.\<close>

definition lf_destroy :: "('v, 'e) life \<Rightarrow> ('v, 'e) life" where
  "lf_destroy l = l\<lparr>lf_destroyed := Suc (lf_destroyed l),
     lf_panic := (case pr_destroy (lf_promise l) of Inl f \<Rightarrow> Some f | Inr _ \<Rightarrow> lf_panic l)\<rparr>"

text \<open>Every access to the promise of a destroyed frame is a fault.\<close>

definition lf_access :: "(('v, 'e) life \<Rightarrow> ('v, 'e) life) \<Rightarrow> ('v, 'e) life \<Rightarrow> ('v, 'e) life" where
  "lf_access f l = (if lf_destroyed l > 0 then lf_fail Use_after_free l else f l)"

fun final_suspend :: "ptr \<Rightarrow> bool \<Rightarrow> ('v, 'e) fs_pc \<Rightarrow> ('v, 'e) life \<Rightarrow> ('v, 'e) life" where
  "final_suspend noop spurious (Fs_body oc) l =
     lf_access (\<lambda>l. (lf_upd (pr_finish oc) l)\<lparr>lf_fs := Fs_load\<rparr>) l"
| "final_suspend noop spurious Fs_load l =
     lf_access (\<lambda>l. l\<lparr>lf_fs := Fs_loop (pr_state (lf_promise l))\<rparr>) l"
| "final_suspend noop spurious (Fs_loop expected) l =
     (if expected = Idle then
        lf_access (\<lambda>l. case pr_slot (lf_promise l) of
            Caller_handle h \<Rightarrow> l\<lparr>lf_fs := Fs_ret h\<rparr>
          | Callback _ \<Rightarrow> lf_fail Union_misuse l) l
      else if expected = RunningJoinable then l\<lparr>lf_fs := Fs_cas expected Zombie\<rparr>
      else if expected = RunningDetached \<or> expected = RunningJoining
      then l\<lparr>lf_fs := Fs_cas expected Finished\<rparr>
      else lf_fail (Invalid_state expected) l)"
| "final_suspend noop spurious (Fs_cas expected desired) l =
     lf_access (\<lambda>l. if pr_state (lf_promise l) = expected \<and> \<not> spurious
       then (lf_upd (\<lambda>p. p\<lparr>pr_state := desired\<rparr>) l)\<lparr>lf_fs := Fs_after expected\<rparr>
       else l\<lparr>lf_fs := Fs_loop (pr_state (lf_promise l))\<rparr>) l"
| "final_suspend noop spurious (Fs_after prev) l =
     (if prev = RunningDetached then lf_access (\<lambda>l. (lf_destroy l)\<lparr>lf_fs := Fs_ret noop\<rparr>) l
      else if prev = RunningJoining then
        lf_access (\<lambda>l. case pr_slot (lf_promise l) of
            Callback cb \<Rightarrow> l\<lparr>lf_woken := lf_woken l @ [cb], lf_fs := Fs_ret noop\<rparr>
          | Caller_handle _ \<Rightarrow> lf_fail Union_misuse l) l
      else if prev = RunningJoinable then l\<lparr>lf_fs := Fs_ret noop\<rparr>
      else lf_fail Assert_failed l)"
| "final_suspend noop spurious (Fs_ret h) l = l"

text \<open>
  After \<open>request_join\<close> returned true the owner waits for its callback; then, or at once when
  it returned false, it takes the result and destroys the frame.
\<close>

fun request :: "bool \<Rightarrow> cons_pc \<Rightarrow> ('v, 'e) life \<Rightarrow> ('v, 'e) life" where
  "request spurious (Cj_load cb) l =
     lf_access (\<lambda>l. l\<lparr>lf_cons := Cj_loop cb (pr_state (lf_promise l))\<rparr>) l"
| "request spurious (Cj_loop cb expected) l =
     (if expected = RunningJoinable then
        lf_access (\<lambda>l. (lf_upd (\<lambda>p. p\<lparr>pr_slot := Callback cb\<rparr>) l)\<lparr>lf_cons := Cj_cas cb expected RunningJoining\<rparr>) l
      else if expected = Zombie then l\<lparr>lf_cons := Cj_cas cb expected Finished\<rparr>
      else lf_fail (Invalid_state expected) l)"
| "request spurious (Cj_cas cb expected desired) l =
     lf_access (\<lambda>l. if pr_state (lf_promise l) = expected \<and> \<not> spurious
       then (lf_upd (\<lambda>p. p\<lparr>pr_state := desired\<rparr>) l)\<lparr>lf_cons := Cj_after cb expected\<rparr>
       else l\<lparr>lf_cons := Cj_loop cb (pr_state (lf_promise l))\<rparr>) l"
| "request spurious (Cj_after cb prev) l =
     (if prev = Zombie then l\<lparr>lf_cons := Cj_ready\<rparr>
      else if prev = RunningJoinable then l\<lparr>lf_cons := Cj_wait cb\<rparr>
      else lf_fail Assert_failed l)"
| "request spurious (Cj_wait cb) l = (if cb \<in> set (lf_woken l) then l\<lparr>lf_cons := Cj_ready\<rparr> else l)"
| "request spurious Cj_ready l =
     lf_access (\<lambda>l. case take_result (lf_promise l) of
         None \<Rightarrow> lf_fail Result_missing l
       | Some (Inl f) \<Rightarrow> l\<lparr>lf_destroyed := Suc (lf_destroyed l), lf_panic := Some f, lf_cons := Cons_done\<rparr>
       | Some (Inr oc) \<Rightarrow> l\<lparr>lf_destroyed := Suc (lf_destroyed l), lf_result := Some oc, lf_cons := Cons_done\<rparr>) l"
| "request spurious Cd_load l =
     lf_access (\<lambda>l. l\<lparr>lf_cons := Cd_loop (pr_state (lf_promise l))\<rparr>) l"
| "request spurious (Cd_loop expected) l =
     (if expected = RunningJoinable then l\<lparr>lf_cons := Cd_cas expected RunningDetached\<rparr>
      else if expected = Zombie then l\<lparr>lf_cons := Cd_cas expected Finished\<rparr>
      else lf_fail (Invalid_state expected) l)"
| "request spurious (Cd_cas expected desired) l =
     lf_access (\<lambda>l. if pr_state (lf_promise l) = expected \<and> \<not> spurious
       then (lf_upd (\<lambda>p. p\<lparr>pr_state := desired\<rparr>) l)\<lparr>lf_cons := Cd_after expected\<rparr>
       else l\<lparr>lf_cons := Cd_loop (pr_state (lf_promise l))\<rparr>) l"
| "request spurious (Cd_after prev) l =
     (if prev = Zombie then lf_access (\<lambda>l. (lf_destroy l)\<lparr>lf_cons := Cons_done\<rparr>) l
      else l\<lparr>lf_cons := Cons_done\<rparr>)"
| "request spurious Cons_done l = l"

text \<open>A schedule picks the thread that steps next, and whether its exchange fails spuriously.\<close>

datatype thread = Coroutine | Owner

fun life_step :: "ptr \<Rightarrow> thread \<times> bool \<Rightarrow> ('v, 'e) life \<Rightarrow> ('v, 'e) life" where
  "life_step noop (Coroutine, spurious) l = final_suspend noop spurious (lf_fs l) l"
| "life_step noop (Owner, spurious) l = request spurious (lf_cons l) l"

definition life_run :: "ptr \<Rightarrow> (thread \<times> bool) list \<Rightarrow> ('v, 'e) life \<Rightarrow> ('v, 'e) life" where
  "life_run noop sched l = fold (life_step noop) sched l"

text \<open>A spawned task: its coroutine will end with \<open>oc\<close>, its owner joins or detaches it.\<close>

definition life_new :: "ptr \<Rightarrow> ('v, 'e) outcome \<Rightarrow> cons_pc \<Rightarrow> ('v, 'e) life" where
  "life_new noop oc owner =
     \<lparr>lf_promise = pr_mark_running (pr_new noop), lf_destroyed = 0, lf_panic = None, lf_woken = [],
      lf_result = None, lf_fs = Fs_body oc, lf_cons = owner, lf_fault = None\<rparr>"

section \<open>Invariants\<close>

definition pr_holds :: "('v, 'e) outcome \<Rightarrow> ('v, 'e) promise \<Rightarrow> bool" where
  "pr_holds oc p \<longleftrightarrow>
     (case oc of Inl e \<Rightarrow> pr_exception p = Some e
      | Inr v \<Rightarrow> pr_exception p = None \<and> pr_value p = Some v)"

lemma take_result_holds: "pr_holds oc p \<Longrightarrow> take_result p = Some (Inr oc)"
  by (auto simp: pr_holds_def take_result_def pr_take_exception_def pr_take_value_def pr_destroy_def
      split: sum.splits)

lemma pr_destroy_holds:
  "pr_holds oc p \<Longrightarrow> pr_destroy p =
     (case oc of Inl _ \<Rightarrow> Inl (Panic ''Unhandled exception in detached coroutine'') | Inr _ \<Rightarrow> Inr ())"
  by (auto simp: pr_holds_def pr_destroy_def split: sum.splits)

lemma pr_holds_upd [simp]:
  "pr_holds oc (p\<lparr>pr_state := s\<rparr>) = pr_holds oc p" "pr_holds oc (p\<lparr>pr_slot := c\<rparr>) = pr_holds oc p"
  by (auto simp: pr_holds_def split: sum.splits)

lemma pr_finish_holds:
  "pr_exception p = None \<Longrightarrow> pr_holds oc (pr_finish oc p)"
  by (auto simp: pr_holds_def pr_finish_def pr_unhandled_exception_def pr_return_value_def split: sum.splits)

lemma pr_finish_sel [simp]:
  "pr_state (pr_finish oc p) = pr_state p" "pr_slot (pr_finish oc p) = pr_slot p"
  by (auto simp: pr_finish_def pr_unhandled_exception_def pr_return_value_def split: sum.splits)

fun fs_target :: "pstate \<Rightarrow> pstate" where
  "fs_target RunningJoinable = Zombie"
| "fs_target _ = Finished"

text \<open>The coroutine's thread before its exchange; \<open>E\<close> are the states it may have loaded.\<close>

fun fs_pre :: "('v, 'e) outcome \<Rightarrow> pstate set \<Rightarrow> ('v, 'e) fs_pc \<Rightarrow> ('v, 'e) promise \<Rightarrow> bool" where
  "fs_pre oc E (Fs_body oc') p \<longleftrightarrow> oc' = oc \<and> pr_exception p = None"
| "fs_pre oc E Fs_load p \<longleftrightarrow> pr_holds oc p"
| "fs_pre oc E (Fs_loop e) p \<longleftrightarrow> pr_holds oc p \<and> e \<in> E"
| "fs_pre oc E (Fs_cas e d) p \<longleftrightarrow> pr_holds oc p \<and> e \<in> E \<and> d = fs_target e"
| "fs_pre oc E _ p \<longleftrightarrow> False"

fun join_pre :: "ptr \<Rightarrow> pstate set \<Rightarrow> cons_pc \<Rightarrow> ('v, 'e) promise \<Rightarrow> bool" where
  "join_pre cb E (Cj_load c) p \<longleftrightarrow> c = cb"
| "join_pre cb E (Cj_loop c e) p \<longleftrightarrow> c = cb \<and> e \<in> E"
| "join_pre cb E (Cj_cas c e d) p \<longleftrightarrow> c = cb \<and> e \<in> E \<and>
     (e = RunningJoinable \<longrightarrow> d = RunningJoining \<and> pr_slot p = Callback cb) \<and> (e = Zombie \<longrightarrow> d = Finished)"
| "join_pre cb E _ p \<longleftrightarrow> False"

fun detach_pre :: "pstate set \<Rightarrow> cons_pc \<Rightarrow> bool" where
  "detach_pre E Cd_load \<longleftrightarrow> True"
| "detach_pre E (Cd_loop e) \<longleftrightarrow> e \<in> E"
| "detach_pre E (Cd_cas e d) \<longleftrightarrow> e \<in> E \<and> (e = RunningJoinable \<longrightarrow> d = RunningDetached) \<and> (e = Zombie \<longrightarrow> d = Finished)"
| "detach_pre E _ \<longleftrightarrow> False"

text \<open>The life of a joined task, by the state of the promise.\<close>

definition join_inv :: "ptr \<Rightarrow> ptr \<Rightarrow> ('v, 'e) outcome \<Rightarrow> ('v, 'e) life \<Rightarrow> bool" where
  "join_inv noop cb oc l \<longleftrightarrow>
     lf_fault l = None \<and> lf_panic l = None \<and>
     lf_destroyed l = (if lf_cons l = Cons_done then 1 else 0) \<and>
     lf_result l = (if lf_cons l = Cons_done then Some oc else None) \<and>
     (case pr_state (lf_promise l) of
        RunningJoinable \<Rightarrow> lf_woken l = [] \<and> fs_pre oc {RunningJoinable} (lf_fs l) (lf_promise l) \<and>
          join_pre cb {RunningJoinable} (lf_cons l) (lf_promise l)
      | RunningJoining \<Rightarrow> lf_woken l = [] \<and> pr_slot (lf_promise l) = Callback cb \<and>
          fs_pre oc {RunningJoinable, RunningJoining} (lf_fs l) (lf_promise l) \<and>
          lf_cons l \<in> {Cj_after cb RunningJoinable, Cj_wait cb}
      | Zombie \<Rightarrow> lf_woken l = [] \<and> pr_holds oc (lf_promise l) \<and>
          lf_fs l \<in> {Fs_after RunningJoinable, Fs_ret noop} \<and>
          join_pre cb {RunningJoinable, Zombie} (lf_cons l) (lf_promise l)
      | Finished \<Rightarrow> pr_holds oc (lf_promise l) \<and>
          (lf_woken l = [] \<and> lf_fs l \<in> {Fs_after RunningJoinable, Fs_ret noop} \<and>
             lf_cons l \<in> {Cj_after cb Zombie, Cj_ready, Cons_done} \<or>
           lf_woken l = [] \<and> lf_fs l = Fs_after RunningJoining \<and> pr_slot (lf_promise l) = Callback cb \<and>
             lf_cons l \<in> {Cj_after cb RunningJoinable, Cj_wait cb} \<or>
           lf_woken l = [cb] \<and> lf_fs l = Fs_ret noop \<and>
             lf_cons l \<in> {Cj_after cb RunningJoinable, Cj_wait cb, Cj_ready, Cons_done})
      | _ \<Rightarrow> False)"

text \<open>The life of a detached task.\<close>

definition detach_inv :: "ptr \<Rightarrow> ('v, 'e) outcome \<Rightarrow> ('v, 'e) life \<Rightarrow> bool" where
  "detach_inv noop oc l \<longleftrightarrow>
     lf_fault l = None \<and> lf_woken l = [] \<and> lf_result l = None \<and>
     lf_panic l = (if lf_destroyed l > 0 \<and> (\<exists>e. oc = Inl e)
                   then Some (Panic ''Unhandled exception in detached coroutine'') else None) \<and>
     (case pr_state (lf_promise l) of
        RunningJoinable \<Rightarrow> lf_destroyed l = 0 \<and> fs_pre oc {RunningJoinable} (lf_fs l) (lf_promise l) \<and>
          detach_pre {RunningJoinable} (lf_cons l)
      | RunningDetached \<Rightarrow> lf_destroyed l = 0 \<and>
          fs_pre oc {RunningJoinable, RunningDetached} (lf_fs l) (lf_promise l) \<and>
          lf_cons l \<in> {Cd_after RunningJoinable, Cons_done}
      | Zombie \<Rightarrow> lf_destroyed l = 0 \<and> pr_holds oc (lf_promise l) \<and>
          lf_fs l \<in> {Fs_after RunningJoinable, Fs_ret noop} \<and>
          detach_pre {RunningJoinable, Zombie} (lf_cons l)
      | Finished \<Rightarrow> pr_holds oc (lf_promise l) \<and>
          (lf_fs l \<in> {Fs_after RunningJoinable, Fs_ret noop} \<and>
             (lf_cons l = Cd_after Zombie \<and> lf_destroyed l = 0 \<or> lf_cons l = Cons_done \<and> lf_destroyed l = 1) \<or>
           lf_cons l \<in> {Cd_after RunningJoinable, Cons_done} \<and>
             (lf_fs l = Fs_after RunningDetached \<and> lf_destroyed l = 0 \<or> lf_fs l = Fs_ret noop \<and> lf_destroyed l = 1))
      | _ \<Rightarrow> False)"

lemma join_inv_new: "join_inv noop cb oc (life_new noop oc (Cj_load cb))"
  by (simp add: join_inv_def life_new_def pr_mark_running_def pr_new_def)

lemma detach_inv_new: "detach_inv noop oc (life_new noop oc Cd_load)"
  by (simp add: detach_inv_def life_new_def pr_mark_running_def pr_new_def)

lemmas life_defs = lf_access_def lf_upd_def lf_fail_def lf_destroy_def

lemma join_inv_fs:
  assumes "join_inv noop cb oc l"
  shows "join_inv noop cb oc (final_suspend noop sp (lf_fs l) l)"
  using assms
  by (cases "lf_fs l"; cases "pr_state (lf_promise l)"; cases "lf_cons l")
    (auto simp: join_inv_def life_defs pr_finish_holds split: slot.splits)

lemma join_inv_request:
  assumes "join_inv noop cb oc l"
  shows "join_inv noop cb oc (request sp (lf_cons l) l)"
  using assms
  by (cases "lf_cons l"; cases "pr_state (lf_promise l)"; cases "lf_fs l")
    (auto simp: join_inv_def life_defs take_result_holds)

lemma detach_inv_fs:
  assumes "detach_inv noop oc l"
  shows "detach_inv noop oc (final_suspend noop sp (lf_fs l) l)"
  using assms
  by (cases "lf_fs l"; cases "pr_state (lf_promise l)"; cases "lf_cons l")
    (auto simp: detach_inv_def life_defs pr_finish_holds pr_destroy_holds split: slot.splits sum.splits)

lemma detach_inv_request:
  assumes "detach_inv noop oc l"
  shows "detach_inv noop oc (request sp (lf_cons l) l)"
  using assms
  by (cases "lf_cons l"; cases "pr_state (lf_promise l)"; cases "lf_fs l")
    (auto simp: detach_inv_def life_defs pr_destroy_holds split: sum.splits)

lemma join_inv_step: "join_inv noop cb oc l \<Longrightarrow> join_inv noop cb oc (life_step noop t l)"
  by (cases "(noop, t, l)" rule: life_step.cases) (auto simp: join_inv_fs join_inv_request)

lemma detach_inv_step: "detach_inv noop oc l \<Longrightarrow> detach_inv noop oc (life_step noop t l)"
  by (cases "(noop, t, l)" rule: life_step.cases) (auto simp: detach_inv_fs detach_inv_request)

lemma life_run_inv:
  "(\<And>t l. P l \<Longrightarrow> P (life_step noop t l)) \<Longrightarrow> P l \<Longrightarrow> P (life_run noop sched l)"
  unfolding life_run_def by (induction sched arbitrary: l) auto

section \<open>Progress\<close>

text \<open>
  How far a thread is from its end. A compare-exchange that lost a race costs one more round of
  the loop, so the distance depends on whether the loaded state is still current.
\<close>

fun fs_rank :: "pstate \<Rightarrow> ('v, 'e) fs_pc \<Rightarrow> nat" where
  "fs_rank s (Fs_body oc) = 20"
| "fs_rank s Fs_load = 19"
| "fs_rank s (Fs_loop e) = (if e = s then 16 else 18)"
| "fs_rank s (Fs_cas e d) = (if e = s then 15 else 17)"
| "fs_rank s (Fs_after e) = 4"
| "fs_rank s (Fs_ret h) = 0"

fun cons_rank :: "pstate \<Rightarrow> cons_pc \<Rightarrow> nat" where
  "cons_rank s (Cj_load cb) = 19"
| "cons_rank s (Cj_loop cb e) = (if e = s then 16 else 18)"
| "cons_rank s (Cj_cas cb e d) = (if e = s then 15 else 17)"
| "cons_rank s (Cj_after cb e) = 6"
| "cons_rank s (Cj_wait cb) = 5"
| "cons_rank s Cj_ready = 3"
| "cons_rank s Cd_load = 19"
| "cons_rank s (Cd_loop e) = (if e = s then 16 else 18)"
| "cons_rank s (Cd_cas e d) = (if e = s then 15 else 17)"
| "cons_rank s (Cd_after e) = 6"
| "cons_rank s Cons_done = 0"

definition life_rank :: "('v, 'e) life \<Rightarrow> nat" where
  "life_rank l = fs_rank (pr_state (lf_promise l)) (lf_fs l) + cons_rank (pr_state (lf_promise l)) (lf_cons l)"

definition life_complete :: "ptr \<Rightarrow> ('v, 'e) life \<Rightarrow> bool" where
  "life_complete noop l \<longleftrightarrow> lf_fs l = Fs_ret noop \<and> lf_cons l = Cons_done"

text \<open>Which thread can move: a waiting owner needs its callback.\<close>

fun life_enabled :: "thread \<Rightarrow> ('v, 'e) life \<Rightarrow> bool" where
  "life_enabled Coroutine l \<longleftrightarrow> (\<forall>h. lf_fs l \<noteq> Fs_ret h)"
| "life_enabled Owner l \<longleftrightarrow> lf_cons l \<noteq> Cons_done \<and> (\<forall>cb. lf_cons l = Cj_wait cb \<longrightarrow> cb \<in> set (lf_woken l))"

lemma join_rank_fs:
  assumes "join_inv noop cb oc l" and "life_enabled Coroutine l"
  shows "life_rank (final_suspend noop False (lf_fs l) l) < life_rank l"
  using assms
  by (cases "lf_fs l"; cases "pr_state (lf_promise l)"; cases "lf_cons l")
    (auto simp: join_inv_def life_defs life_rank_def)

lemma join_rank_request:
  assumes "join_inv noop cb oc l" and "life_enabled Owner l"
  shows "life_rank (request False (lf_cons l) l) < life_rank l"
  using assms
  by (cases "lf_cons l"; cases "pr_state (lf_promise l)"; cases "lf_fs l")
    (auto simp: join_inv_def life_defs life_rank_def take_result_holds)

lemma detach_rank_fs:
  assumes "detach_inv noop oc l" and "life_enabled Coroutine l"
  shows "life_rank (final_suspend noop False (lf_fs l) l) < life_rank l"
  using assms
  by (cases "lf_fs l"; cases "pr_state (lf_promise l)"; cases "lf_cons l")
    (auto simp: detach_inv_def life_defs life_rank_def pr_destroy_holds)

lemma detach_rank_request:
  assumes "detach_inv noop oc l" and "life_enabled Owner l"
  shows "life_rank (request False (lf_cons l) l) < life_rank l"
  using assms
  by (cases "lf_cons l"; cases "pr_state (lf_promise l)"; cases "lf_fs l")
    (auto simp: detach_inv_def life_defs life_rank_def pr_destroy_holds)

lemma life_disabled: "\<not> life_enabled t l \<Longrightarrow> life_step noop (t, sp) l = l"
  by (cases t) auto

lemma join_enabled:
  "join_inv noop cb oc l \<Longrightarrow> \<not> life_complete noop l \<Longrightarrow> \<exists>t. life_enabled t l"
  by (cases "pr_state (lf_promise l)"; cases "lf_fs l"; cases "lf_cons l")
    (auto simp: join_inv_def life_complete_def intro: exI [of _ Coroutine] exI [of _ Owner])

lemma detach_enabled:
  "detach_inv noop oc l \<Longrightarrow> \<not> life_complete noop l \<Longrightarrow> \<exists>t. life_enabled t l"
  by (cases "pr_state (lf_promise l)"; cases "lf_fs l"; cases "lf_cons l")
    (auto simp: detach_inv_def life_complete_def intro: exI [of _ Coroutine] exI [of _ Owner])

text \<open>
  The interface of a two-thread system that makes progress: an invariant, a rank that every
  move of an enabled thread decreases, and the absence of deadlock.
\<close>

locale progress =
  fixes inv :: "'s \<Rightarrow> bool"
    and step :: "thread \<Rightarrow> 's \<Rightarrow> 's"
    and enabled :: "thread \<Rightarrow> 's \<Rightarrow> bool"
    and complete :: "'s \<Rightarrow> bool"
    and rank :: "'s \<Rightarrow> nat"
  assumes inv_step: "inv s \<Longrightarrow> inv (step t s)"
    and rank_step: "inv s \<Longrightarrow> enabled t s \<Longrightarrow> rank (step t s) < rank s"
    and idle_step: "\<not> enabled t s \<Longrightarrow> step t s = s"
    and no_deadlock: "inv s \<Longrightarrow> \<not> complete s \<Longrightarrow> \<exists>t. enabled t s"
    and complete_idle: "inv s \<Longrightarrow> complete s \<Longrightarrow> \<not> enabled t s"
begin

lemma inv_fold: "inv s \<Longrightarrow> inv (fold step ts s)"
  by (induction ts arbitrary: s) (auto simp: inv_step)

lemma complete_fold: "inv s \<Longrightarrow> complete s \<Longrightarrow> fold step ts s = s"
  by (induction ts arbitrary: s) (auto simp: idle_step complete_idle)

lemma rank_fold: "inv s \<Longrightarrow> rank (fold step ts s) \<le> rank s"
proof (induction ts arbitrary: s)
  case (Cons t ts)
  have "rank (step t s) \<le> rank s"
    using rank_step [OF Cons.prems, of t] idle_step [of t s] by (cases "enabled t s") auto
  with Cons.IH [OF inv_step [OF Cons.prems, of t]] show ?case by simp
qed simp

lemma rank_round:
  "inv s \<Longrightarrow> enabled t s \<Longrightarrow> t \<in> set ts \<Longrightarrow> rank (fold step ts s) < rank s"
proof (induction ts arbitrary: s)
  case (Cons u ts)
  show ?case
  proof (cases "enabled u s")
    case True
    have "rank (fold step ts (step u s)) \<le> rank (step u s)"
      by (rule rank_fold [OF inv_step [OF Cons.prems(1)]])
    with rank_step [OF Cons.prems(1) True] show ?thesis by simp
  next
    case False
    with Cons.prems have "t \<in> set ts" by auto
    with Cons.IH [of s] Cons.prems idle_step [OF False] show ?thesis by simp
  qed
qed simp

text \<open>Rounds in which both threads move: as many as the rank complete the system.\<close>

lemma rounds_complete:
  "inv s \<Longrightarrow> rank s \<le> length rounds \<Longrightarrow> \<forall>ts \<in> set rounds. {Coroutine, Owner} \<subseteq> set ts \<Longrightarrow>
     complete (fold (fold step) rounds s)"
proof (induction rounds arbitrary: s)
  case Nil
  then show ?case using no_deadlock [of s] rank_step [of s] by fastforce
next
  case (Cons ts rounds)
  have inv1: "inv (fold step ts s)" by (rule inv_fold [OF Cons.prems(1)])
  show ?case
  proof (cases "complete s")
    case True
    have "complete (fold (fold step) rs s)" for rs
      by (induction rs) (use True complete_fold [OF Cons.prems(1) True] in auto)
    then show ?thesis by blast
  next
    case False
    then obtain t where t: "enabled t s" using no_deadlock Cons.prems(1) by blast
    have "t \<in> set ts" using Cons.prems(3) by (cases t) auto
    from rank_round [OF Cons.prems(1) t this] Cons.prems(2)
    have "rank (fold step ts s) \<le> length rounds" by simp
    with Cons.IH [OF inv1] Cons.prems(3) show ?thesis by simp
  qed
qed

end

interpretation join: progress "join_inv noop cb oc" "\<lambda>t. life_step noop (t, False)" life_enabled
    "life_complete noop" life_rank for noop cb oc
proof
  fix l :: "('b, 'a) life" and t
  show "join_inv noop cb oc l \<Longrightarrow> join_inv noop cb oc (life_step noop (t, False) l)"
    by (rule join_inv_step)
  show "join_inv noop cb oc l \<Longrightarrow> life_enabled t l \<Longrightarrow> life_rank (life_step noop (t, False) l) < life_rank l"
    by (cases t) (auto simp: join_rank_fs join_rank_request simp del: life_enabled.simps)
  show "\<not> life_enabled t l \<Longrightarrow> life_step noop (t, False) l = l" by (rule life_disabled)
  show "join_inv noop cb oc l \<Longrightarrow> \<not> life_complete noop l \<Longrightarrow> \<exists>t. life_enabled t l" by (rule join_enabled)
  show "join_inv noop cb oc l \<Longrightarrow> life_complete noop l \<Longrightarrow> \<not> life_enabled t l"
    by (cases t) (auto simp: life_complete_def)
qed

interpretation detach: progress "detach_inv noop oc" "\<lambda>t. life_step noop (t, False)" life_enabled
    "life_complete noop" life_rank for noop oc
proof
  fix l :: "('b, 'a) life" and t
  show "detach_inv noop oc l \<Longrightarrow> detach_inv noop oc (life_step noop (t, False) l)"
    by (rule detach_inv_step)
  show "detach_inv noop oc l \<Longrightarrow> life_enabled t l \<Longrightarrow> life_rank (life_step noop (t, False) l) < life_rank l"
    by (cases t) (auto simp: detach_rank_fs detach_rank_request simp del: life_enabled.simps)
  show "\<not> life_enabled t l \<Longrightarrow> life_step noop (t, False) l = l" by (rule life_disabled)
  show "detach_inv noop oc l \<Longrightarrow> \<not> life_complete noop l \<Longrightarrow> \<exists>t. life_enabled t l" by (rule detach_enabled)
  show "detach_inv noop oc l \<Longrightarrow> life_complete noop l \<Longrightarrow> \<not> life_enabled t l"
    by (cases t) (auto simp: life_complete_def)
qed

lemma detach_inv_safe:
  "detach_inv noop oc l \<Longrightarrow> lf_fault l = None \<and> lf_destroyed l \<le> 1 \<and> lf_woken l = []"
  by (auto simp: detach_inv_def split: pstate.splits)

lemma detach_inv_end:
  "detach_inv noop oc l \<Longrightarrow> life_complete noop l \<Longrightarrow>
     lf_destroyed l = 1 \<and> lf_fault l = None \<and>
     lf_panic l = (case oc of Inl _ \<Rightarrow> Some (Panic ''Unhandled exception in detached coroutine'')
                   | Inr _ \<Rightarrow> None)"
  by (cases oc; cases "pr_state (lf_promise l)") (auto simp: detach_inv_def life_complete_def)

section \<open>Properties of the lifecycle\<close>

text \<open>
  C1. Joining a task is safe under every interleaving of its coroutine's end with the join and
  every pattern of spurious failures: no invalid state is met, no assert fails, the union is read
  as it was written, the frame is never used after it is destroyed and is destroyed at most once,
  the callback runs at most once and only for the owner that registered it, nothing panics, and
  what the owner receives is what the coroutine returned or threw.
\<close>

theorem join_safe:
  "(let l = life_run noop sched (life_new noop oc (Cj_load cb))
    in lf_fault l = None \<and> lf_panic l = None \<and> lf_destroyed l \<le> 1 \<and> lf_woken l \<in> {[], [cb]} \<and>
       (lf_destroyed l = 1 \<longleftrightarrow> lf_result l = Some oc) \<and> (lf_result l = None \<longleftrightarrow> lf_destroyed l = 0))"
proof -
  have "join_inv noop cb oc (life_run noop sched (life_new noop oc (Cj_load cb)))"
    by (rule life_run_inv [OF join_inv_step join_inv_new])
  then show ?thesis
    by (auto simp: join_inv_def Let_def split: pstate.splits if_splits)
qed

text \<open>
  C2. Joining a task completes: from any reachable configuration, 39 rounds in which both threads
  move without spurious failure, in any order and any number of times, end with the coroutine
  gone, its frame destroyed exactly once and its outcome delivered. So no wake-up is lost.
\<close>

theorem join_completes:
  assumes "\<forall>ts \<in> set rounds. {Coroutine, Owner} \<subseteq> set ts" and "39 \<le> length rounds"
  shows "(let l = fold (fold (\<lambda>t. life_step noop (t, False))) rounds
                    (life_run noop sched (life_new noop oc (Cj_load cb)))
          in life_complete noop l \<and> lf_destroyed l = 1 \<and> lf_result l = Some oc \<and> lf_fault l = None)"
proof -
  let ?l = "life_run noop sched (life_new noop oc (Cj_load cb))"
  have inv: "join_inv noop cb oc ?l" by (rule life_run_inv [OF join_inv_step join_inv_new])
  have "life_rank ?l \<le> 39"
    using inv by (cases "lf_fs ?l"; cases "lf_cons ?l"; cases "pr_state (lf_promise ?l)")
      (auto simp: life_rank_def join_inv_def)
  with join.rounds_complete [OF inv, of rounds] assms
  have fin: "life_complete noop (fold (fold (\<lambda>t. life_step noop (t, False))) rounds ?l)" by simp
  have "join_inv noop cb oc (fold (fold (\<lambda>t. life_step noop (t, False))) rs ?l)" for rs
    by (induction rs rule: rev_induct) (use inv join.inv_fold in auto)
  with fin show ?thesis by (auto simp: Let_def life_complete_def join_inv_def)
qed

theorem join_completes_witness:
  "(let l = fold (fold (\<lambda>t. life_step 1 (t, False))) (replicate 39 [Owner, Coroutine])
              (life_run 1 [(Owner, False), (Coroutine, True)] (life_new 1 (Inr 7 :: unit + nat) (Cj_load 64)))
    in life_complete 1 l \<and> lf_destroyed l = 1 \<and> lf_result l = Some (Inr 7) \<and> lf_fault l = None)"
  by (rule join_completes) auto

text \<open>
  C3. Detaching a task is safe under every interleaving and completes: the frame is destroyed
  exactly once, by whichever thread comes last, never used afterwards, and the destructor panics
  exactly when the coroutine ended with an exception.
\<close>

theorem detach_safe_completes:
  assumes "\<forall>ts \<in> set rounds. {Coroutine, Owner} \<subseteq> set ts" and "39 \<le> length rounds"
  shows "(let l0 = life_run noop sched (life_new noop oc Cd_load);
              l = fold (fold (\<lambda>t. life_step noop (t, False))) rounds l0
          in lf_fault l0 = None \<and> lf_destroyed l0 \<le> 1 \<and> lf_woken l0 = [] \<and>
             life_complete noop l \<and> lf_destroyed l = 1 \<and> lf_fault l = None \<and>
             lf_panic l = (case oc of Inl _ \<Rightarrow> Some (Panic ''Unhandled exception in detached coroutine'')
                           | Inr _ \<Rightarrow> None))"
proof -
  let ?l = "life_run noop sched (life_new noop oc Cd_load)"
  have inv: "detach_inv noop oc ?l" by (rule life_run_inv [OF detach_inv_step detach_inv_new])
  have "life_rank ?l \<le> 39"
    using inv by (cases "lf_fs ?l"; cases "lf_cons ?l"; cases "pr_state (lf_promise ?l)")
      (auto simp: life_rank_def detach_inv_def)
  with detach.rounds_complete [OF inv, of rounds] assms
  have fin: "life_complete noop (fold (fold (\<lambda>t. life_step noop (t, False))) rounds ?l)" by simp
  have "detach_inv noop oc (fold (fold (\<lambda>t. life_step noop (t, False))) rs ?l)" for rs
    by (induction rs rule: rev_induct) (use inv detach.inv_fold in auto)
  from detach_inv_end [OF this fin] detach_inv_safe [OF inv] fin show ?thesis
    by (simp only: Let_def simp_thms)
qed

theorem detach_safe_completes_witness:
  "(let l0 = life_run 1 [(Owner, False)] (life_new 1 (Inl () :: unit + nat) Cd_load);
        l = fold (fold (\<lambda>t. life_step 1 (t, False))) (replicate 39 [Owner, Coroutine]) l0
    in lf_fault l0 = None \<and> lf_destroyed l0 \<le> 1 \<and> lf_woken l0 = [] \<and>
       life_complete 1 l \<and> lf_destroyed l = 1 \<and> lf_fault l = None \<and>
       lf_panic l = (case Inl () :: unit + nat of Inl _ \<Rightarrow> Some (Panic ''Unhandled exception in detached coroutine'')
                     | Inr _ \<Rightarrow> None))"
  by (rule detach_safe_completes) auto

section \<open>Awaiting a sender\<close>

text \<open>A coroutine handle: the no-op coroutine, null, or a frame.\<close>

datatype chandle = Noop | Null | Frame ptr

text \<open>Resuming a null handle is undefined; resuming the no-op coroutine does nothing.\<close>

fun ch_resume :: "chandle \<Rightarrow> ptr list option" where
  "ch_resume Noop = Some []"
| "ch_resume Null = None"
| "ch_resume (Frame p) = Some [p]"

record 'r sender_awaiter =
  sw_handle :: chandle
  sw_result :: "'r option"

definition sw_new :: "'r sender_awaiter" where
  "sw_new = \<lparr>sw_handle = Noop, sw_result = None\<rparr>"

text \<open>\<open>handle_result_\<close>, which the receiver calls; the frames it resumes are returned.\<close>

definition sw_handle_result :: "'r \<Rightarrow> 'r sender_awaiter \<Rightarrow> (ptr list \<times> 'r sender_awaiter) option" where
  "sw_handle_result r w = do {
     let w1 = w\<lparr>sw_result := Some r\<rparr>;
     let h = sw_handle w1;
     let w2 = w1\<lparr>sw_handle := Null\<rparr>;
     res \<leftarrow> ch_resume h;
     Some (res, w2)
   }"

text \<open>
  \<open>await_suspend\<close>: starts the operation, which calls the receiver at once when it completes
  inline (\<open>inline = Some r\<close>), then publishes the caller's handle. The result says whether the
  caller stays suspended: it does when the handle that was stored is still the no-op handle, which the
  code decides by comparing it with a second \<open>std::noop_coroutine()\<close>. The standard leaves open whether
  two such handles are equal; \<open>same\<close> says that they are.
\<close>

definition sw_await_suspend ::
  "bool \<Rightarrow> 'r option \<Rightarrow> ptr \<Rightarrow> 'r sender_awaiter \<Rightarrow> (bool \<times> ptr list \<times> 'r sender_awaiter) option" where
  "sw_await_suspend same inline handle w = do {
     (res, w1) \<leftarrow> (case inline of None \<Rightarrow> Some ([], w) | Some r \<Rightarrow> sw_handle_result r w);
     let h = sw_handle w1;
     Some (h = Noop \<and> same, res, w1\<lparr>sw_handle := Frame handle\<rparr>)
   }"

definition sw_await_resume :: "'r sender_awaiter \<Rightarrow> 'r option" where
  "sw_await_resume w = sw_result w"

section \<open>Awaiting a coroutine\<close>

text \<open>\<open>CoroAwaiterBase::await_suspend\<close>: the caller is stored and control passes to the callee.\<close>

definition coro_await_suspend :: "ptr \<Rightarrow> ptr \<Rightarrow> ('v, 'e) promise \<Rightarrow> ptr \<times> ('v, 'e) promise" where
  "coro_await_suspend callee caller p = (callee, pr_set_caller_handle caller p)"

definition coro_await_resume :: "('v, 'e) promise \<Rightarrow> ('e + 'v) result option" where
  "coro_await_resume p = take_result p"

text \<open>\<open>Coro\<close>: the handle it owns; releasing it leaves null, destroying it destroys the frame.\<close>

record coro = cr_handle :: ptr

definition coro_release :: "coro \<Rightarrow> ptr \<times> coro" where
  "coro_release c = (cr_handle c, c\<lparr>cr_handle := nullptr\<rparr>)"

definition coro_destructor :: "coro \<Rightarrow> ptr list" where
  "coro_destructor c = (if cr_handle c \<noteq> nullptr then [cr_handle c] else [])"

section \<open>Frames with an allocator\<close>

text \<open>
  \<open>BindAllocator\<close> keeps a copy of the allocator behind the frame. \<open>al\<close> and \<open>sz\<close> are the alignment
  and the size of the allocator type; the memory keeps the allocator objects that are alive.
  \<open>mem\<close> is the address the allocator hands out; \<open>copy_ok\<close> says that copying it does not throw.
\<close>

datatype 'a alloc_call = Alloc 'a u64 ptr | Dealloc 'a ptr u64

definition ba_offset :: "u64 \<Rightarrow> u64 \<Rightarrow> u64" where
  "ba_offset al fsize = align_up fsize al"

definition ba_new ::
  "u64 \<Rightarrow> u64 \<Rightarrow> bool \<Rightarrow> ptr \<Rightarrow> u64 \<Rightarrow> 'a \<Rightarrow> (ptr \<rightharpoonup> 'a) \<Rightarrow> ptr option \<times> (ptr \<rightharpoonup> 'a) \<times> 'a alloc_call list" where
  "ba_new al sz copy_ok mem fsize alloc h =
     (let allocator_offset = ba_offset al fsize;
          total_size = allocator_offset + sz
      in if copy_ok
         then (Some mem, h(mem + allocator_offset \<mapsto> alloc), [Alloc alloc total_size mem])
         else (None, h, [Alloc alloc total_size mem, Dealloc alloc mem total_size]))"

definition ba_delete ::
  "u64 \<Rightarrow> u64 \<Rightarrow> ptr \<Rightarrow> u64 \<Rightarrow> (ptr \<rightharpoonup> 'a) \<Rightarrow> ((ptr \<rightharpoonup> 'a) \<times> 'a alloc_call list) option" where
  "ba_delete al sz p fsize h = do {
     let allocator_offset = ba_offset al fsize;
     let total_size = allocator_offset + sz;
     alloc \<leftarrow> h (p + allocator_offset);
     Some (h(p + allocator_offset := None), [Dealloc alloc p total_size])
   }"

text \<open>
  Awaiting a sender resumes the caller exactly once. When the operation completes inline the
  caller is not suspended and nothing else resumes it; otherwise it is suspended and the
  completion resumes exactly its frame. In both cases it then reads the result of the operation.
  This needs no-op handles to be equal: where they are not, the caller goes on at once, before there
  is a result.
\<close>

theorem sender_await_once:
  "(\<exists>w. sw_await_suspend same (Some r) h sw_new = Some (False, [], w) \<and> sw_await_resume w = Some r) \<and>
   (\<exists>w w'. sw_await_suspend True None h sw_new = Some (True, [], w) \<and>
      sw_handle_result r w = Some ([h], w') \<and> sw_await_resume w' = Some r \<and>
      sw_handle_result r' w' = None) \<and>
   (\<exists>w. sw_await_suspend False None h sw_new = Some (False, [], w) \<and> sw_await_resume w = None)"
  by (auto simp: sw_await_suspend_def sw_handle_result_def sw_new_def sw_await_resume_def Let_def)

text \<open>
  A frame made with an allocator is given back to a copy of that allocator, at the address and
  with the size it was allocated with, whatever the coroutine stores in the frame; the copy lies
  behind the frame, aligned and inside the allocation. \<open>frame_writes\<close> are writes below \<open>fsize\<close>.
\<close>

theorem bind_allocator_roundtrip:
  assumes "k < 64" and "unat fsize + 2 ^ k + unat sz \<le> 2 ^ 64"
    and "\<forall>p \<in> dom frame_writes. unat (p - mem) < unat fsize"
  shows "ba_new (2 ^ k) sz True mem fsize alloc h =
           (Some mem, h(mem + ba_offset (2 ^ k) fsize \<mapsto> alloc), [Alloc alloc (ba_offset (2 ^ k) fsize + sz) mem]) \<and>
         ba_delete (2 ^ k) sz mem fsize (h(mem + ba_offset (2 ^ k) fsize \<mapsto> alloc) ++ frame_writes) =
           Some ((h(mem + ba_offset (2 ^ k) fsize \<mapsto> alloc) ++ frame_writes)(mem + ba_offset (2 ^ k) fsize := None),
                 [Dealloc alloc mem (ba_offset (2 ^ k) fsize + sz)]) \<and>
         unat fsize \<le> unat (ba_offset (2 ^ k) fsize) \<and> 2 ^ k dvd unat (ba_offset (2 ^ k) fsize) \<and>
         unat (ba_offset (2 ^ k) fsize + sz) = unat (ba_offset (2 ^ k) fsize) + unat sz"
proof -
  let ?o = "ba_offset (2 ^ k) fsize"
  have o: "unat ?o = ((unat fsize + 2 ^ k - 1) div 2 ^ k) * 2 ^ k"
    unfolding ba_offset_def using assms(1,2) by (intro align_up_correct) auto
  have div: "unat fsize + 2 ^ k - 1 = unat ?o + (unat fsize + 2 ^ k - 1) mod 2 ^ k"
    unfolding o by (simp add: div_mult_mod_eq)
  have "(unat fsize + 2 ^ k - 1) mod 2 ^ k < (2 ^ k :: nat)" by simp
  with div have le: "unat fsize \<le> unat ?o" and ge: "unat ?o \<le> unat fsize + 2 ^ k - 1" by linarith+
  have sum: "unat (?o + sz) = unat ?o + unat sz"
  proof (rule unat_add_lem [THEN iffD1])
    have "(0 :: nat) < 2 ^ k" by simp
    with ge have "unat ?o + unat sz < unat fsize + 2 ^ k + unat sz" by linarith
    with assms(2) show "unat ?o + unat sz < 2 ^ LENGTH(64)" by simp
  qed
  have "frame_writes (mem + ?o) = None"
    using assms(3) le by (metis add_diff_cancel_left' domIff linorder_not_less)
  then have "(h(mem + ?o \<mapsto> alloc) ++ frame_writes) (mem + ?o) = Some alloc"
    by (simp add: map_add_def)
  then show ?thesis
    using le sum by (simp add: ba_new_def ba_delete_def Let_def o)
qed

theorem bind_allocator_roundtrip_witness:
  "ba_delete (2 ^ 3) 8 0x1000 20 ([0x1000 + ba_offset (2 ^ 3) 20 \<mapsto> 7 :: nat] ++ [0x1004 \<mapsto> 9]) =
     Some (([0x1000 + ba_offset (2 ^ 3) 20 \<mapsto> 7] ++ [0x1004 \<mapsto> 9])(0x1000 + ba_offset (2 ^ 3) 20 := None),
           [Dealloc 7 0x1000 (ba_offset (2 ^ 3) 20 + 8)])"
  using bind_allocator_roundtrip [of 3 20 8 "[0x1004 \<mapsto> 9 :: nat]" "0x1000" 7 Map.empty] by simp

end
