(* ===== verification/Task.thy ===== *)
theory Task
  imports Coro
begin

text \<open>
  \<open>include/condy/task.hpp\<close> and \<open>detail/task.hpp\<close>: the owner's handle to a spawned coroutine, its
  synchronous wait, the awaiter behind \<open>co_await task\<close>, \<open>co_spawn\<close> and \<open>co_switch\<close>. The concurrent
  part of joining and detaching is the lifecycle of \<open>Coro\<close>: an operation that starts
  \<open>request_join\<close> or \<open>request_detach\<close> returns the owner's program counter there.

  \<open>ctx\<close> is the runtime of the calling thread (\<open>Context::current().runtime()\<close>), null outside one.
\<close>

section \<open>The task object\<close>

record task = tk_handle :: ptr

definition task_new :: "ptr \<Rightarrow> task" where
  "task_new h = \<lparr>tk_handle = h\<rparr>"

text \<open>The move constructor; the source is left with a null handle.\<close>

definition task_move :: "task \<Rightarrow> task \<times> task" where
  "task_move other = (\<lparr>tk_handle = tk_handle other\<rparr>, other\<lparr>tk_handle := nullptr\<rparr>)"

text \<open>The move assignment from another object.\<close>

definition task_assign :: "task \<Rightarrow> task \<Rightarrow> (task \<times> task) result" where
  "task_assign t other =
     (if tk_handle t \<noteq> nullptr then Inl (Panic ''Task destroyed without being awaited'')
      else Inr (t\<lparr>tk_handle := tk_handle other\<rparr>, other\<lparr>tk_handle := nullptr\<rparr>))"

definition task_destructor :: "task \<Rightarrow> unit result" where
  "task_destructor t =
     (if tk_handle t \<noteq> nullptr then Inl (Panic ''Task destroyed without being awaited'') else Inr ())"

text \<open>\<open>detach\<close>: dereferencing a null handle is undefined.\<close>

definition task_detach :: "task \<Rightarrow> (cons_pc \<times> task) option" where
  "task_detach t = do {
     massert (tk_handle t \<noteq> nullptr);
     Some (Cd_load, t\<lparr>tk_handle := nullptr\<rparr>)
   }"

definition task_joinable :: "task \<Rightarrow> bool" where
  "task_joinable t \<longleftrightarrow> tk_handle t \<noteq> nullptr"

section \<open>Waiting synchronously\<close>

text \<open>
  \<open>wait_inner_\<close>: the two guards, then \<open>request_join\<close> with a waiter on the stack; when that returns
  true the thread blocks until the waiter's callback, otherwise it goes on at once. Both are the
  owner's steps of the lifecycle from \<open>Cj_load waiter\<close> to \<open>Cj_ready\<close>.
\<close>

definition task_wait_inner :: "ptr \<Rightarrow> ptr \<Rightarrow> ptr \<Rightarrow> cons_pc result" where
  "task_wait_inner ctx waiter handle =
     (if ctx \<noteq> nullptr then Inl (Logic_error ''Sync wait inside runtime'')
      else if handle = nullptr then Inl (Invalid_argument ''Task not joinable'')
      else Inr (Cj_load waiter))"

text \<open>
  \<open>wait\<close>: the handle leaves the task before the guards are tested. The rest, taking the result
  and destroying the frame, is the owner's last step \<open>Cj_ready\<close>.
\<close>

definition task_wait :: "ptr \<Rightarrow> ptr \<Rightarrow> task \<Rightarrow> cons_pc result \<times> task" where
  "task_wait ctx waiter t =
     (let handle = tk_handle t; t1 = t\<lparr>tk_handle := nullptr\<rparr>
      in (task_wait_inner ctx waiter handle, t1))"

section \<open>Awaiting a task\<close>

record task_awaiter =
  ta_task_handle :: ptr
  ta_runtime :: ptr
  ta_caller :: ptr

definition task_co_await :: "ptr \<Rightarrow> task \<Rightarrow> task_awaiter \<times> task" where
  "task_co_await ctx t =
     (\<lparr>ta_task_handle = tk_handle t, ta_runtime = ctx, ta_caller = nullptr\<rparr>, t\<lparr>tk_handle := nullptr\<rparr>)"

definition ta_await_ready :: "task_awaiter \<Rightarrow> bool result" where
  "ta_await_ready a =
     (if ta_task_handle a = nullptr then Inl (Invalid_argument ''Task not joinable'') else Inr False)"

text \<open>\<open>self\<close> is the address of the awaiter, the callback it registers.\<close>

definition ta_await_suspend ::
  "ptr \<Rightarrow> ptr \<Rightarrow> ptr \<Rightarrow> task_awaiter \<Rightarrow> (cons_pc \<times> task_awaiter \<times> call list) option" where
  "ta_await_suspend ctx self caller a = do {
     massert (ctx \<noteq> nullptr);
     massert (ta_runtime a \<noteq> nullptr);
     let a1 = a\<lparr>ta_caller := caller\<rparr>;
     Some (Cj_load self, a1, [Pend_work ctx])
   }"

definition ta_invoke :: "task_awaiter \<Rightarrow> call list option" where
  "ta_invoke a = do {
     massert (ta_caller a \<noteq> nullptr);
     Some [Schedule_internal (ta_runtime a) (ta_caller a)]
   }"

definition ta_await_resume :: "ptr \<Rightarrow> ('v, 'e) promise \<Rightarrow> (('e + 'v) result \<times> call list) option" where
  "ta_await_resume ctx p = do {
     massert (ctx \<noteq> nullptr);
     r \<leftarrow> take_result p;
     Some (r, [Resume_work ctx])
   }"

section \<open>Spawning and switching\<close>

definition co_spawn :: "ptr \<Rightarrow> coro \<Rightarrow> ('v, 'e) promise \<Rightarrow> task \<times> coro \<times> ('v, 'e) promise \<times> call list" where
  "co_spawn runtime c p =
     (let (handle, c1) = coro_release c; p1 = pr_mark_running p
      in (task_new handle, c1, p1, [Schedule_internal runtime handle]))"

definition co_spawn_current ::
  "ptr \<Rightarrow> coro \<Rightarrow> ('v, 'e) promise \<Rightarrow> (task \<times> coro \<times> ('v, 'e) promise \<times> call list) result" where
  "co_spawn_current ctx c p =
     (if ctx = nullptr then Inl (Logic_error ''No runtime to spawn coroutine task'')
      else Inr (co_spawn ctx c p))"

definition switch_await_suspend :: "ptr \<Rightarrow> ptr \<Rightarrow> call list" where
  "switch_await_suspend runtime promise = [Schedule_internal runtime promise]"

section \<open>A task that nobody joins or detaches\<close>

definition orphan_inv :: "('v, 'e) life \<Rightarrow> bool" where
  "orphan_inv l \<longleftrightarrow> lf_cons l = Cons_done \<and> lf_destroyed l = 0 \<and>
     pr_state (lf_promise l) \<in> {RunningJoinable, Zombie} \<and>
     (case lf_fs l of Fs_cas e d \<Rightarrow> d = Zombie | Fs_loop e \<Rightarrow> e \<in> {RunningJoinable, Zombie}
      | Fs_after e \<Rightarrow> e \<in> {RunningJoinable, Zombie} | _ \<Rightarrow> True)"

lemma orphan_inv_step:
  assumes "orphan_inv l"
  shows "orphan_inv (life_step noop t l)"
proof (cases "(noop, t, l)" rule: life_step.cases)
  case (1 noop sp l)
  with assms show ?thesis
    by (cases "lf_fs l") (auto simp: orphan_inv_def life_defs)
next
  case (2 noop sp l)
  with assms show ?thesis by (auto simp: orphan_inv_def)
qed

lemma orphan_inv_new: "orphan_inv (life_new noop oc Cons_done)"
  by (simp add: orphan_inv_def life_new_def pr_mark_running_def)

section \<open>Properties\<close>

text \<open>
  Awaiting a coroutine behaves like a call: the callee's end transfers control to the
  caller's handle, and the caller then gets the callee's value or exception, with the frame
  destroyed and no panic.
\<close>

theorem coro_await_call:
  assumes "coro_await_suspend callee caller (pr_new noop) = (h, p)"
  shows "\<exists>p'. h = callee \<and>
     life_run noop [(Coroutine, s1), (Coroutine, s2), (Coroutine, s3)]
       ((life_new noop oc Cons_done)\<lparr>lf_promise := p\<rparr>) =
     ((life_new noop oc Cons_done)\<lparr>lf_promise := p', lf_fs := Fs_ret caller\<rparr>) \<and>
     coro_await_resume p' = Some (Inr oc)"
proof -
  have p: "p = pr_set_caller_handle caller (pr_new noop)" "h = callee"
    using assms by (simp_all add: coro_await_suspend_def)
  have "pr_holds oc (pr_finish oc p)" by (rule pr_finish_holds) (simp add: p pr_set_caller_handle_def pr_new_def)
  then have "coro_await_resume (pr_finish oc p) = Some (Inr oc)"
    by (simp add: coro_await_resume_def take_result_holds)
  moreover have "pr_state p = Idle" "pr_slot p = Caller_handle caller"
    by (simp_all add: p pr_set_caller_handle_def pr_new_def)
  ultimately show ?thesis
    using p(2) by (intro exI [of _ "pr_finish oc p"]) (simp add: life_run_def life_new_def life_defs)
qed

theorem coro_await_call_witness:
  "\<exists>p'. (0x80 :: ptr) = 0x80 \<and>
     life_run 1 [(Coroutine, False), (Coroutine, False), (Coroutine, False)]
       ((life_new 1 (Inr 5 :: unit + nat) Cons_done)\<lparr>lf_promise := pr_set_caller_handle 0x40 (pr_new 1)\<rparr>) =
     ((life_new 1 (Inr 5) Cons_done)\<lparr>lf_promise := p', lf_fs := Fs_ret 0x40\<rparr>) \<and>
     coro_await_resume p' = Some (Inr (Inr 5))"
  by (rule coro_await_call) (simp add: coro_await_suspend_def)

text \<open>
  \<open>request_join\<close> has decided to suspend the caller: its exchange from the running state has succeeded, so
  that it is going to return true.
\<close>

definition ta_suspended :: "ptr \<Rightarrow> ptr \<Rightarrow> (thread \<times> bool) list \<Rightarrow> ('v, 'e) life \<Rightarrow> bool" where
  "ta_suspended noop self sched l \<longleftrightarrow>
     list_ex (\<lambda>k. lf_cons (life_run noop (take k sched) l) = Cj_after self RunningJoinable) [0..<Suc (length sched)]"

text \<open>The configurations after that.\<close>

definition joined_late :: "('v, 'e) life \<Rightarrow> bool" where
  "joined_late l \<longleftrightarrow> pr_state (lf_promise l) = RunningJoining \<or> lf_fs l = Fs_after RunningJoining \<or> lf_woken l \<noteq> []"

lemma joined_late_after:
  assumes "join_inv noop cb oc l" and "lf_cons l = Cj_after cb RunningJoinable"
  shows "joined_late l"
  using assms by (auto simp: join_inv_def joined_late_def split: pstate.splits)

lemma joined_late_step:
  assumes "join_inv noop cb oc l"
  shows "joined_late (life_step noop t l) \<longleftrightarrow>
    joined_late l \<or> lf_cons (life_step noop t l) = Cj_after cb RunningJoinable"
proof (cases "(noop, t, l)" rule: life_step.cases)
  case (1 noop sp l)
  with assms show ?thesis
    by (cases "lf_fs l"; cases "pr_state (lf_promise l)")
      (auto simp: join_inv_def joined_late_def life_defs split: slot.splits)
next
  case (2 noop sp l)
  with assms show ?thesis
    by (cases "lf_cons l"; cases "pr_state (lf_promise l)")
      (auto simp: join_inv_def joined_late_def life_defs take_result_holds)
qed

lemma life_run_snoc: "life_run noop (sched @ [t]) l = life_step noop t (life_run noop sched l)"
  by (simp add: life_run_def)

lemma ta_suspended_iff:
  "ta_suspended noop self sched (life_new noop oc (Cj_load self)) \<longleftrightarrow>
     joined_late (life_run noop sched (life_new noop oc (Cj_load self)))"
proof (induction sched rule: rev_induct)
  case Nil
  then show ?case
    by (simp add: ta_suspended_def joined_late_def life_run_def life_new_def pr_mark_running_def pr_new_def)
next
  case (snoc t sched)
  let ?l = "life_new noop oc (Cj_load self)"
  have inv: "join_inv noop self oc (life_run noop sched ?l)" by (rule life_run_inv [OF join_inv_step join_inv_new])
  have "ta_suspended noop self (sched @ [t]) ?l \<longleftrightarrow> ta_suspended noop self sched ?l \<or>
      lf_cons (life_run noop (sched @ [t]) ?l) = Cj_after self RunningJoinable"
    by (auto simp: ta_suspended_def list_ex_iff less_Suc_eq)
  then show ?case using snoc joined_late_step [OF inv, of t] by (simp add: life_run_snoc)
qed

text \<open>
  C25. \<open>co_await task\<close> on a spawned task: the awaiting coroutine is counted as pending once before the
  join. In every interleaving its runtime has been asked to resume it, once, exactly if \<open>request_join\<close> has
  suspended it and the task has gone through its end; in all other cases it has not been asked. When the
  coroutine goes on, either it was never suspended or it was woken, and it gets the task's outcome and is
  no longer counted.
\<close>

theorem task_await_once:
  assumes "tk_handle t \<noteq> nullptr" and "ctx \<noteq> nullptr" and "caller \<noteq> nullptr"
    and "task_co_await ctx t = (a, t')"
  shows "\<exists>a'. ta_await_ready a = Inr False \<and> tk_handle t' = nullptr \<and>
    ta_await_suspend ctx self caller a = Some (Cj_load self, a', [Pend_work ctx]) \<and>
    ta_invoke a' = Some [Schedule_internal ctx caller] \<and>
    (let l0 = life_new noop oc (Cj_load self); l = life_run noop sched l0
     in lf_fault l = None \<and>
        lf_woken l = (if ta_suspended noop self sched l0 \<and> lf_fs l = Fs_ret noop then [self] else []) \<and>
        (lf_cons l = Cj_ready \<longrightarrow>
           (ta_suspended noop self sched l0 \<longleftrightarrow> lf_woken l = [self]) \<and>
           ta_await_resume ctx (lf_promise l) = Some (Inr oc, [Resume_work ctx])))"
proof -
  let ?l = "life_run noop sched (life_new noop oc (Cj_load self))"
  have inv: "join_inv noop self oc ?l" by (rule life_run_inv [OF join_inv_step join_inv_new])
  have woken: "lf_woken ?l = (if joined_late ?l \<and> lf_fs ?l = Fs_ret noop then [self] else [])"
    using inv by (cases "pr_state (lf_promise ?l)"; cases "lf_fs ?l") (auto simp: join_inv_def joined_late_def)
  have ready: "lf_cons ?l = Cj_ready \<longrightarrow> pr_holds oc (lf_promise ?l) \<and> (joined_late ?l \<longleftrightarrow> lf_woken ?l = [self])"
    using inv by (cases "pr_state (lf_promise ?l)") (auto simp: join_inv_def joined_late_def)
  have fault: "lf_fault ?l = None" using inv by (simp add: join_inv_def)
  have resume: "lf_cons ?l = Cj_ready \<longrightarrow> ta_await_resume ctx (lf_promise ?l) = Some (Inr oc, [Resume_work ctx])"
    using ready assms(2) by (simp add: ta_await_resume_def take_result_holds [of oc])
  have a: "a = \<lparr>ta_task_handle = tk_handle t, ta_runtime = ctx, ta_caller = nullptr\<rparr>" "tk_handle t' = nullptr"
    using assms(4) by (auto simp: task_co_await_def)
  let ?a' = "a\<lparr>ta_caller := caller\<rparr>"
  show ?thesis
    unfolding ta_suspended_iff Let_def
    using assms(1-3) a woken ready fault resume
    by (intro exI [of _ ?a']) (simp add: ta_await_ready_def ta_await_suspend_def ta_invoke_def)
qed

text \<open>A run in which the caller is suspended, the task ends, and the caller goes on.\<close>

abbreviation late_join :: "(thread \<times> bool) list" where
  "late_join \<equiv> [(Owner, False), (Owner, False), (Owner, True), (Owner, False), (Owner, False), (Owner, False),
     (Coroutine, False), (Coroutine, False), (Coroutine, False), (Coroutine, False), (Coroutine, False), (Owner, False)]"

theorem task_await_once_witness:
  "\<exists>a'. ta_await_ready (fst (task_co_await 0x10 (task_new 0x100))) = Inr False \<and>
    ta_await_suspend 0x10 0x30 0x200 (fst (task_co_await 0x10 (task_new 0x100))) =
      Some (Cj_load 0x30, a', [Pend_work 0x10]) \<and>
    ta_invoke a' = Some [Schedule_internal 0x10 0x200] \<and>
    (let l0 = life_new 1 (Inr 3 :: unit + nat) (Cj_load 0x30); l = life_run 1 late_join l0
     in lf_cons l = Cj_ready \<and> ta_suspended 1 0x30 late_join l0 \<and> lf_woken l = [0x30] \<and>
        ta_await_resume 0x10 (lf_promise l) = Some (Inr (Inr 3), [Resume_work 0x10]))"
proof -
  let ?l0 = "life_new 1 (Inr 3 :: unit + nat) (Cj_load 0x30)"
  let ?l = "life_run 1 late_join ?l0"
  have "lf_cons ?l = Cj_ready" "lf_woken ?l = [0x30]"
    by (simp_all add: life_run_def life_new_def life_defs pr_mark_running_def pr_new_def)
  then show ?thesis
    using task_await_once [of "task_new 0x100" "0x10" "0x200" "fst (task_co_await 0x10 (task_new 0x100))"
        "snd (task_co_await 0x10 (task_new 0x100))" "0x30" 1 "Inr 3 :: unit + nat" late_join]
    by (simp add: task_new_def Let_def del: life_run_def) blast
qed

text \<open>
  C39. Waiting for a task from inside a runtime loses it: \<open>wait\<close> has cleared the task's handle
  before it throws, so the task is no longer joinable, its owner never joins or detaches it, and
  however the coroutine runs, its frame is never destroyed.
\<close>

theorem wait_inside_runtime_leaks:
  assumes "ctx \<noteq> nullptr"
  shows "task_wait ctx waiter t = (Inl (Logic_error ''Sync wait inside runtime''), t\<lparr>tk_handle := nullptr\<rparr>) \<and>
     \<not> task_joinable (snd (task_wait ctx waiter t)) \<and>
     lf_destroyed (life_run noop sched (life_new noop oc Cons_done)) = 0"
proof -
  have "orphan_inv (life_run noop sched (life_new noop oc Cons_done))"
    by (rule life_run_inv [OF orphan_inv_step orphan_inv_new])
  then show ?thesis
    using assms by (simp add: task_wait_def task_wait_inner_def task_joinable_def orphan_inv_def)
qed

theorem wait_inside_runtime_leaks_witness:
  "task_wait 0x10 0x30 (task_new 0x100) =
     (Inl (Logic_error ''Sync wait inside runtime''), (task_new 0x100)\<lparr>tk_handle := nullptr\<rparr>) \<and>
   \<not> task_joinable (snd (task_wait 0x10 0x30 (task_new 0x100))) \<and>
   lf_destroyed (life_run 1 [(Coroutine, False)] (life_new 1 (Inr 3 :: unit + nat) Cons_done)) = 0"
  by (rule wait_inside_runtime_leaks) simp

end
