(* ===== verification/Uring_Ring.thy ===== *)
theory Uring_Ring
  imports Condy_Prelude
begin

text \<open>
  \<open>include/condy/detail/ring.hpp\<close>: the wrapper around an \<open>io_uring\<close> instance. liburing and the
  kernel are outside the library: their functions are the fields of a record that every
  operation takes as its first argument, over a state \<open>'s\<close> that stands for the ring and
  everything the kernel knows about it. The lemmas state what they need of these functions as
  hypotheses taken from liburing's documentation.
\<close>

section \<open>liburing\<close>

text \<open>
  A submission queue entry has type \<open>'q\<close>, a completion queue entry type \<open>'c\<close>.
  \<open>u_get_sqe\<close> is null (\<open>None\<close>) when the submission queue is full; the slot it returns is filled
  with \<open>u_fill\<close>. \<open>u_cqe_at s i\<close> is the completion \<open>i\<close> places behind the consumer's head, if the
  kernel has posted it.
\<close>

record ('s, 'q, 'c) uring =
  u_submit :: "'s \<Rightarrow> i32 \<times> 's"
  u_submit_and_wait :: "'s \<Rightarrow> i32 \<times> 's"
  u_peek_cqe :: "'s \<Rightarrow> i32 \<times> 's"
  u_cqe_at :: "'s \<Rightarrow> nat \<Rightarrow> 'c option"
  u_cqe_nr :: "'c \<Rightarrow> nat"
  u_cq_advance :: "nat \<Rightarrow> 's \<Rightarrow> 's"
  u_sq_space_left :: "'s \<Rightarrow> u64"
  u_get_sqe :: "'s \<Rightarrow> ptr option \<times> 's"
  u_get_sqe128 :: "'s \<Rightarrow> ptr option \<times> 's"
  u_fill :: "ptr \<Rightarrow> 'q \<Rightarrow> 's \<Rightarrow> 's"
  u_sqring_wait :: "'s \<Rightarrow> i32 \<times> 's"
  u_sqpoll :: bool     \<comment> \<open>the ring has the flag \<open>IORING_SETUP_SQPOLL\<close>\<close>
  u_sqe128 :: bool     \<comment> \<open>the ring has \<open>IORING_SETUP_SQE128\<close> or \<open>IORING_SETUP_SQE_MIXED\<close>\<close>

text \<open>
  The entries themselves. A submission entry is the sequence of liburing functions that prepared
  it, with their arguments (an assignment to a field of the entry stands in the sequence under the
  name of the field), the user data that its completion will carry, and its flags.
\<close>

datatype arg = I int | U u64 | P ptr | S string  \<comment> \<open>\<open>S\<close>: a named constant\<close>

datatype sqe_flag = IOSQE_FIXED_FILE | IOSQE_IO_DRAIN | IOSQE_IO_LINK | IOSQE_IO_HARDLINK | IOSQE_ASYNC
  | IOSQE_BUFFER_SELECT | IOSQE_CQE_SKIP_SUCCESS

record sqe =
  sq_prep :: "(string \<times> arg list) list"
  sq_user_data :: u64
  sq_flags :: "sqe_flag set"

record cqe =
  cq_user_data :: u64
  cq_res :: i32
  cq_flags :: u32
  cq_big :: "u64 \<times> u64"

abbreviation IORING_CQE_F_BUFFER :: u32 where "IORING_CQE_F_BUFFER \<equiv> 1"
abbreviation IORING_CQE_F_MORE :: u32 where "IORING_CQE_F_MORE \<equiv> 2"
abbreviation IORING_CQE_F_NOTIF :: u32 where "IORING_CQE_F_NOTIF \<equiv> 8"
abbreviation IORING_CQE_F_BUF_MORE :: u32 where "IORING_CQE_F_BUF_MORE \<equiv> 16"

section \<open>The ring\<close>

record 's ring =
  rg_uring :: 's
  rg_submit_batch :: u64
  rg_maybe_submit_count :: u64

text \<open>The constructor: \<open>init\<close> is what \<open>io_uring_queue_init_params\<close> (or its \<open>mem\<close> variant) returns.\<close>

definition ring_new :: "i32 \<Rightarrow> 's \<Rightarrow> u64 \<Rightarrow> 's ring result" where
  "ring_new r s submit_batch =
     (if r < 0 then Inl (System_error ''io_uring_queue_init_params'' (- r))
      else Inr \<lparr>rg_uring = s, rg_submit_batch = submit_batch, rg_maybe_submit_count = 0\<rparr>)"

definition ring_submit :: "('s, 'q, 'c) uring \<Rightarrow> 's ring \<Rightarrow> 's ring" where
  "ring_submit u g = g\<lparr>rg_maybe_submit_count := 0, rg_uring := snd (u_submit u (rg_uring g))\<rparr>"

definition ring_maybe_submit :: "('s, 'q, 'c) uring \<Rightarrow> 's ring \<Rightarrow> 's ring" where
  "ring_maybe_submit u g =
     (let g1 = g\<lparr>rg_maybe_submit_count := rg_maybe_submit_count g + 1\<rparr>
      in if rg_maybe_submit_count g1 \<ge> rg_submit_batch g1 then ring_submit u g1 else g1)"

text \<open>The first loop of \<open>reap_completions_wait\<close>: retry while interrupted. \<open>Inl\<close> is the error.\<close>

partial_function (option) ring_submit_and_wait ::
  "('s, 'q, 'c) uring \<Rightarrow> 's ring \<Rightarrow> ((i32 + unit) \<times> 's ring) option" where
  "ring_submit_and_wait u g =
     (case u_submit_and_wait u (rg_uring g) of
        (r, s) \<Rightarrow>
          if r \<ge> 0 then Some (Inr (), g\<lparr>rg_uring := s, rg_maybe_submit_count := 0\<rparr>)
          else if r = - EINTR then ring_submit_and_wait u (g\<lparr>rg_uring := s\<rparr>)
          else Some (Inl r, g\<lparr>rg_uring := s\<rparr>))"

text \<open>
  \<open>io_uring_for_each_cqe\<close>: the tail is read anew in every iteration, so completions that arrive
  while earlier ones are processed are processed too. \<open>f\<close> is the processing function, on the
  ring and the rest \<open>'w\<close> of the program's state; \<open>None\<close> is a failure of \<open>f\<close> or no return.
\<close>

partial_function (option) ring_for_each_cqe ::
  "('s, 'q, 'c) uring \<Rightarrow> ('c \<Rightarrow> 's ring \<times> 'w \<Rightarrow> ('s ring \<times> 'w) option) \<Rightarrow> nat \<Rightarrow> nat \<Rightarrow> 's ring \<times> 'w \<Rightarrow>
   (nat \<times> 's ring \<times> 'w) option" where
  "ring_for_each_cqe u f head reaped gw =
     (case u_cqe_at u (rg_uring (fst gw)) head of
        None \<Rightarrow> Some (reaped, gw)
      | Some c \<Rightarrow> f c gw \<bind> (\<lambda>gw'. ring_for_each_cqe u f (head + 1) (reaped + u_cqe_nr u c) gw'))"

definition ring_advance :: "('s, 'q, 'c) uring \<Rightarrow> nat \<Rightarrow> 's ring \<Rightarrow> 's ring" where
  "ring_advance u n g = g\<lparr>rg_uring := u_cq_advance u n (rg_uring g)\<rparr>"

definition ring_reap_completions_wait ::
  "('s, 'q, 'c) uring \<Rightarrow> ('c \<Rightarrow> 's ring \<times> 'w \<Rightarrow> ('s ring \<times> 'w) option) \<Rightarrow> 's ring \<times> 'w \<Rightarrow>
   (int \<times> 's ring \<times> 'w) option" where
  "ring_reap_completions_wait u f gw = do {
     (r, g1) \<leftarrow> ring_submit_and_wait u (fst gw);
     (case r of
        Inl e \<Rightarrow> Some (e, g1, snd gw)
      | Inr () \<Rightarrow> do {
          (reaped, g2, w) \<leftarrow> ring_for_each_cqe u f 0 0 (g1, snd gw);
          Some (int reaped, ring_advance u reaped g2, w)
        })
   }"

definition ring_reap_completions ::
  "('s, 'q, 'c) uring \<Rightarrow> ('c \<Rightarrow> 's ring \<times> 'w \<Rightarrow> ('s ring \<times> 'w) option) \<Rightarrow> 's ring \<times> 'w \<Rightarrow>
   (int \<times> 's ring \<times> 'w) option" where
  "ring_reap_completions u f gw =
     (case u_peek_cqe u (rg_uring (fst gw)) of
        (r, s) \<Rightarrow>
          let g1 = (fst gw)\<lparr>rg_uring := s\<rparr> in
          if r = - EAGAIN then Some (0, g1, snd gw)
          else if r < 0 then Some (r, g1, snd gw)
          else do {
            (reaped, g2, w) \<leftarrow> ring_for_each_cqe u f 0 0 (g1, snd gw);
            Some (int reaped, ring_advance u reaped g2, w)
          })"

partial_function (option) ring_reserve_space :: "('s, 'q, 'c) uring \<Rightarrow> u64 \<Rightarrow> 's ring \<Rightarrow> 's ring option" where
  "ring_reserve_space u n g =
     (if u_sq_space_left u (rg_uring g) \<ge> n then Some g
      else ring_reserve_space u n (ring_submit u g))"

text \<open>\<open>get_sqe_\<close>: the function that takes a slot is its template argument \<open>get\<close>.\<close>

partial_function (option) ring_get_sqe_with ::
  "('s, 'q, 'c) uring \<Rightarrow> ('s \<Rightarrow> ptr option \<times> 's) \<Rightarrow> 's ring \<Rightarrow> (ptr \<times> 's ring) option" where
  "ring_get_sqe_with u get g =
     (case get (rg_uring g) of
        (Some sqe, s) \<Rightarrow> Some (sqe, g\<lparr>rg_uring := s\<rparr>)
      | (None, s) \<Rightarrow>
          let g1 = ring_submit u (g\<lparr>rg_uring := s\<rparr>) in
          if u_sqpoll u then
            (case u_sqring_wait u (rg_uring g1) of
               (r, s') \<Rightarrow> massert (r \<ge> 0) \<bind> (\<lambda>_. ring_get_sqe_with u get (g1\<lparr>rg_uring := s'\<rparr>)))
          else ring_get_sqe_with u get g1)"

definition ring_get_sqe :: "('s, 'q, 'c) uring \<Rightarrow> 's ring \<Rightarrow> (ptr \<times> 's ring) option" where
  "ring_get_sqe u g = ring_get_sqe_with u (u_get_sqe u) g"

definition ring_get_sqe128 :: "('s, 'q, 'c) uring \<Rightarrow> 's ring \<Rightarrow> (ptr \<times> 's ring) option" where
  "ring_get_sqe128 u g =
     (if u_sqe128 u then ring_get_sqe_with u (u_get_sqe128 u) g else Some (nullptr, g))"

text \<open>Taking an entry and filling it, as every client of \<open>get_sqe\<close> does.\<close>

definition ring_queue :: "('s, 'q, 'c) uring \<Rightarrow> 'q \<Rightarrow> 's ring \<Rightarrow> 's ring option" where
  "ring_queue u q g = do {
     (sqe, g1) \<leftarrow> ring_get_sqe u g;
     Some (g1\<lparr>rg_uring := u_fill u sqe q (rg_uring g1)\<rparr>)
   }"

section \<open>What liburing promises\<close>

text \<open>
  The submission queue has \<open>entries\<close> places. A submission succeeds and leaves all of them free, as
  it does when the kernel does not poll the queue from a thread of its own and accepts all entries; taking a slot succeeds exactly
  when one is free and uses one up; filling a slot changes nothing of this.
\<close>

definition sq_contract :: "('s, 'q, 'c) uring \<Rightarrow> nat \<Rightarrow> bool" where
  "sq_contract u entries \<longleftrightarrow>
     0 < entries \<and> entries < 2 ^ 32 \<and>
     (\<forall>s. unat (u_sq_space_left u s) \<le> entries) \<and>
     (\<forall>s. unat (u_sq_space_left u (snd (u_submit u s))) = entries) \<and>
     (\<forall>s. fst (u_get_sqe u s) = None \<longleftrightarrow> u_sq_space_left u s = 0) \<and>
     (\<forall>s. u_sq_space_left u s \<noteq> 0 \<longrightarrow>
        u_sq_space_left u (snd (u_get_sqe u s)) = u_sq_space_left u s - 1) \<and>
     (\<forall>s. u_sq_space_left u s = 0 \<longrightarrow> snd (u_get_sqe u s) = s) \<and>
     (\<forall>p q s. u_sq_space_left u (u_fill u p q s) = u_sq_space_left u s)"

lemma ring_get_sqe_returns:
  assumes ok: "sq_contract u entries" and poll: "\<not> u_sqpoll u"
  shows "\<exists>sqe g'. ring_get_sqe u g = Some (sqe, g')"
proof -
  have hit: "\<exists>sqe g'. ring_get_sqe_with u (u_get_sqe u) g = Some (sqe, g')"
    if free: "u_sq_space_left u (rg_uring g) \<noteq> 0" for g
  proof -
    have "fst (u_get_sqe u (rg_uring g)) \<noteq> None" using ok free by (simp add: sq_contract_def)
    then obtain sqe s where "u_get_sqe u (rg_uring g) = (Some sqe, s)"
      by (cases "u_get_sqe u (rg_uring g)") auto
    then show ?thesis by (subst ring_get_sqe_with.simps) simp
  qed
  show ?thesis
  proof (cases "u_sq_space_left u (rg_uring g) = 0")
    case False
    with hit show ?thesis by (simp add: ring_get_sqe_def)
  next
    case True
    then have none: "u_get_sqe u (rg_uring g) = (None, rg_uring g)"
      using ok by (simp add: sq_contract_def prod_eq_iff)
    have "unat (u_sq_space_left u (rg_uring (ring_submit u g))) = entries"
      using ok by (simp add: ring_submit_def sq_contract_def)
    then have "u_sq_space_left u (rg_uring (ring_submit u g)) \<noteq> 0"
      using ok by (auto simp: sq_contract_def)
    from hit [OF this] show ?thesis
      unfolding ring_get_sqe_def by (subst ring_get_sqe_with.simps) (simp add: none poll)
  qed
qed

lemma ring_reserve_space_fits:
  assumes ok: "sq_contract u entries" and n: "unat n \<le> entries"
  shows "\<exists>g'. ring_reserve_space u n g = Some g' \<and> n \<le> u_sq_space_left u (rg_uring g')"
proof (cases "u_sq_space_left u (rg_uring g) \<ge> n")
  case True
  then show ?thesis by (subst ring_reserve_space.simps) simp
next
  case False
  have "unat (u_sq_space_left u (rg_uring (ring_submit u g))) = entries"
    using ok by (simp add: ring_submit_def sq_contract_def)
  then have "n \<le> u_sq_space_left u (rg_uring (ring_submit u g))"
    using n by (simp add: word_le_nat_alt)
  with False show ?thesis
    by (subst ring_reserve_space.simps, subst ring_reserve_space.simps) simp
qed

text \<open>Reserving submits at most once, which resets the count, and keeps the batch size.\<close>

lemma ring_reserve_space_kept:
  assumes ok: "sq_contract u entries" and n: "unat n \<le> entries"
  shows "\<exists>g'. ring_reserve_space u n g = Some g' \<and> n \<le> u_sq_space_left u (rg_uring g') \<and>
    rg_submit_batch g' = rg_submit_batch g \<and> rg_maybe_submit_count g' \<le> rg_maybe_submit_count g"
proof (cases "u_sq_space_left u (rg_uring g) \<ge> n")
  case True
  then show ?thesis by (subst ring_reserve_space.simps) simp
next
  case False
  have "unat (u_sq_space_left u (rg_uring (ring_submit u g))) = entries"
    using ok by (simp add: ring_submit_def sq_contract_def)
  then have "n \<le> u_sq_space_left u (rg_uring (ring_submit u g))"
    using n by (simp add: word_le_nat_alt)
  moreover have "rg_submit_batch (ring_submit u g) = rg_submit_batch g" "rg_maybe_submit_count (ring_submit u g) = 0"
    by (simp_all add: ring_submit_def)
  ultimately show ?thesis using False
    by (subst ring_reserve_space.simps, subst ring_reserve_space.simps) simp
qed

text \<open>A request for more entries than the queue has is never satisfied.\<close>

lemma ring_reserve_space_diverges:
  assumes ok: "sq_contract u entries" and n: "entries < unat n"
  shows "ring_reserve_space u n g = None"
proof -
  have small: "\<forall>s. \<not> n \<le> u_sq_space_left u s"
    using ok n by (auto simp: sq_contract_def word_le_nat_alt not_le intro: le_less_trans)
  have "ring_reserve_space u n g = Some g' \<Longrightarrow> \<exists>s. n \<le> u_sq_space_left u s" for g'
    by (induction rule: ring_reserve_space.raw_induct [rotated, consumes 1]) (auto split: if_splits)
  with small show ?thesis by fastforce
qed

section \<open>Processing of completions\<close>

text \<open>
  With \<open>n\<close> completions posted and a processing function that returns and does not touch the
  completion queue, every completion is processed exactly once, in order, and the queue is advanced
  past exactly those.
\<close>

fun fold_opt :: "('c \<Rightarrow> 'x \<Rightarrow> 'x option) \<Rightarrow> 'c list \<Rightarrow> 'x \<Rightarrow> 'x option" where
  "fold_opt f [] x = Some x"
| "fold_opt f (c # cs) x = f c x \<bind> fold_opt f cs"

definition cq_view :: "('s, 'q, 'c) uring \<Rightarrow> 's \<Rightarrow> 'c list \<Rightarrow> bool" where
  "cq_view u s cs \<longleftrightarrow> (\<forall>i. u_cqe_at u s i = (if i < length cs then Some (cs ! i) else None))"

lemma ring_for_each_cqe_drop:
  assumes view: "\<And>gw c gw'. f c gw = Some gw' \<Longrightarrow> u_cqe_at u (rg_uring (fst gw')) = u_cqe_at u (rg_uring (fst gw))"
    and cs: "cq_view u (rg_uring (fst gw)) cs" and k: "k \<le> length cs"
    and res: "fold_opt f (drop k cs) gw = Some gw'"
  shows "ring_for_each_cqe u f k n gw = Some (n + sum_list (map (u_cqe_nr u) (drop k cs)), gw')"
  using cs k res
proof (induction "length cs - k" arbitrary: k n gw)
  case 0
  then have "k = length cs" by simp
  with 0 show ?case by (subst ring_for_each_cqe.simps) (simp add: cq_view_def)
next
  case (Suc m)
  then have lt: "k < length cs" by simp
  then have d: "drop k cs = cs ! k # drop (Suc k) cs" by (simp add: Cons_nth_drop_Suc)
  from Suc.prems(3) obtain gw1 where f: "f (cs ! k) gw = Some gw1" "fold_opt f (drop (Suc k) cs) gw1 = Some gw'"
    by (auto simp: d bind_eq_Some_conv)
  have "cq_view u (rg_uring (fst gw1)) cs"
    using view [OF f(1)] Suc.prems(1) by (simp add: cq_view_def)
  from Suc.hyps(1) [OF _ this _ f(2), of "n + u_cqe_nr u (cs ! k)"] Suc.hyps(2) lt
  have "ring_for_each_cqe u f (Suc k) (n + u_cqe_nr u (cs ! k)) gw1 =
      Some (n + u_cqe_nr u (cs ! k) + sum_list (map (u_cqe_nr u) (drop (Suc k) cs)), gw')" by simp
  then show ?case
    using Suc.prems(1) lt f(1) by (subst ring_for_each_cqe.simps) (simp add: cq_view_def d)
qed

lemma ring_for_each_cqe_all:
  assumes "\<And>gw c gw'. f c gw = Some gw' \<Longrightarrow> u_cqe_at u (rg_uring (fst gw')) = u_cqe_at u (rg_uring (fst gw))"
    and "cq_view u (rg_uring (fst gw)) cs" and "fold_opt f cs gw = Some gw'"
  shows "ring_for_each_cqe u f 0 0 gw = Some (sum_list (map (u_cqe_nr u) cs), gw')"
  using ring_for_each_cqe_drop [of f u gw cs 0 gw' 0, OF assms(1,2)] assms(3) by simp

section \<open>Properties\<close>

text \<open>A queue that keeps count of its free places, to instantiate the hypotheses.\<close>

definition uring_count :: "u64 \<Rightarrow> (u64, 'q, 'c) uring" where
  "uring_count n =
     \<lparr>u_submit = (\<lambda>s. (0, n)), u_submit_and_wait = (\<lambda>s. (0, n)), u_peek_cqe = (\<lambda>s. (- EAGAIN, s)),
      u_cqe_at = (\<lambda>s i. None), u_cqe_nr = (\<lambda>c. 1), u_cq_advance = (\<lambda>k s. s),
      u_sq_space_left = (\<lambda>s. min s n),
      u_get_sqe = (\<lambda>s. if min s n = 0 then (None, s) else (Some 8, min s n - 1)),
      u_get_sqe128 = (\<lambda>s. (None, s)), u_fill = (\<lambda>p q s. s), u_sqring_wait = (\<lambda>s. (0, s)),
      u_sqpoll = False, u_sqe128 = False\<rparr>"

lemma uring_count_contract:
  assumes "0 < unat n" and "unat n < 2 ^ 32"
  shows "sq_contract (uring_count n) (unat n)"
proof -
  have dec: "min (s - 1) n = s - 1" if "s \<le> n" "s \<noteq> 0" for s :: u64
    using that by (auto simp: min_def word_le_nat_alt unat_minus_one intro: diff_le_self [THEN order_trans])
  have "min (min s n - 1) n = min s n - 1" if "min s n \<noteq> 0" for s :: u64
    using that by (intro dec) auto
  then show ?thesis
    using assms by (auto simp: sq_contract_def uring_count_def word_le_nat_alt [symmetric])
qed

text \<open>
  Asking for a submission queue entry always yields one: when the queue is full it is submitted
  first, once.
\<close>

theorem get_sqe_returns:
  assumes "sq_contract u entries" and "\<not> u_sqpoll u"
  shows "\<exists>sqe g'. ring_get_sqe u g = Some (sqe, g')"
  using assms by (rule ring_get_sqe_returns)

theorem get_sqe_returns_witness:
  "\<exists>sqe g'. ring_get_sqe (uring_count 4) \<lparr>rg_uring = 0, rg_submit_batch = 1, rg_maybe_submit_count = 0\<rparr> =
     Some (sqe, g')"
  using get_sqe_returns [OF uring_count_contract [of 4]] by (simp add: uring_count_def)

text \<open>
  C40. Reserving space returns exactly when the request fits the submission queue: then that much
  space is free, and otherwise the loop never ends.
\<close>

theorem reserve_space_returns_iff:
  assumes "sq_contract u entries"
  shows "(case ring_reserve_space u n g of
            Some g' \<Rightarrow> unat n \<le> entries \<and> n \<le> u_sq_space_left u (rg_uring g')
          | None \<Rightarrow> entries < unat n)"
proof (cases "unat n \<le> entries")
  case True
  with ring_reserve_space_fits [OF assms True, of g] show ?thesis by auto
next
  case False
  with ring_reserve_space_diverges [OF assms] show ?thesis by simp
qed

theorem reserve_space_returns_iff_witness:
  "(case ring_reserve_space (uring_count 4 :: (u64, unit, unit) uring) 9 \<lparr>rg_uring = 0, rg_submit_batch = 1, rg_maybe_submit_count = 0\<rparr> of
      Some g' \<Rightarrow> unat (9 :: u64) \<le> unat (4 :: u64) \<and> 9 \<le> u_sq_space_left (uring_count 4 :: (u64, unit, unit) uring) (rg_uring g')
    | None \<Rightarrow> unat (4 :: u64) < unat (9 :: u64))"
  by (rule reserve_space_returns_iff [OF uring_count_contract]) simp_all

end
