(* ===== verification/Runtime_Options.thy ===== *)
theory Runtime_Options
  imports Condy_Prelude
begin

text \<open>
  \<open>include/condy/runtime_options.hpp\<close>, and the set-up parameters that \<open>Runtime::create_ring_\<close>
  computes from the options (\<open>runtime.hpp\<close>). The setters refuse combinations of options that
  exclude each other; the properties are about every sequence of setter calls.

  \<open>v\<close> is the version of liburing the library is compiled against: it decides which setters exist
  and which options reach the parameters.
\<close>

type_synonym version = "nat \<times> nat"

text \<open>The macro \<open>CONDY_URING_VERSION_GE\<close> of \<open>condy_uring.hpp\<close>.\<close>

definition uring_version_ge :: "version \<Rightarrow> nat \<Rightarrow> nat \<Rightarrow> bool" where
  "uring_version_ge v major minor \<longleftrightarrow> fst v > major \<or> fst v = major \<and> snd v \<ge> minor"

section \<open>The options\<close>

record options =
  op_event_interval :: u64
  op_disable_register_ring_fd :: bool
  op_iopoll :: bool
  op_hybrid_iopoll :: bool
  op_sqpoll :: bool
  op_sqpoll_idle_time_ms :: u64
  op_sqpoll_thread_cpu :: "u32 option"
  op_defer_taskrun :: bool
  op_sq_size :: u64
  op_cq_size :: u64
  op_submit_batch :: u64
  op_attach_wq_target :: ptr
  op_coop_taskrun :: bool
  op_sqe128 :: bool
  op_cqe32 :: bool
  op_sqe_mixed :: bool
  op_cqe_mixed :: bool
  op_no_mmap :: bool
  op_no_mmap_buf :: ptr
  op_no_mmap_buf_size :: u64
  op_sq_rewind :: bool

definition options_new :: options where
  "options_new =
     \<lparr>op_event_interval = 61, op_disable_register_ring_fd = False, op_iopoll = False,
      op_hybrid_iopoll = False, op_sqpoll = False, op_sqpoll_idle_time_ms = 1000,
      op_sqpoll_thread_cpu = None, op_defer_taskrun = False, op_sq_size = 128, op_cq_size = 0,
      op_submit_batch = 0, op_attach_wq_target = nullptr, op_coop_taskrun = False,
      op_sqe128 = False, op_cqe32 = False, op_sqe_mixed = False, op_cqe_mixed = False,
      op_no_mmap = False, op_no_mmap_buf = nullptr, op_no_mmap_buf_size = 0, op_sq_rewind = False\<rparr>"

section \<open>The setters\<close>

definition event_interval :: "u64 \<Rightarrow> options \<Rightarrow> options result" where
  "event_interval x s = Inr (s\<lparr>op_event_interval := x\<rparr>)"

definition disable_register_ring_fd :: "options \<Rightarrow> options result" where
  "disable_register_ring_fd s = Inr (s\<lparr>op_disable_register_ring_fd := True\<rparr>)"

definition enable_iopoll :: "options \<Rightarrow> options result" where
  "enable_iopoll s = Inr (s\<lparr>op_iopoll := True\<rparr>)"

definition enable_hybrid_iopoll :: "options \<Rightarrow> options result" where
  "enable_hybrid_iopoll s =
     (if \<not> op_iopoll s then Inl (Logic_error ''hybrid_iopoll cannot be enabled without iopoll'')
      else Inr (s\<lparr>op_hybrid_iopoll := True\<rparr>))"

definition enable_sqpoll :: "u64 \<Rightarrow> u32 option \<Rightarrow> options \<Rightarrow> options result" where
  "enable_sqpoll idle_time_ms cpu s =
     (if op_defer_taskrun s then Inl (Logic_error ''sqpoll cannot be enabled with defer_taskrun'')
      else if op_coop_taskrun s then Inl (Logic_error ''sqpoll cannot be enabled with coop_taskrun'')
      else if op_sq_rewind s then Inl (Logic_error ''sqpoll cannot be enabled with sq_rewind'')
      else Inr (s\<lparr>op_sqpoll := True, op_sqpoll_idle_time_ms := idle_time_ms,
                 op_sqpoll_thread_cpu := cpu\<rparr>))"

definition enable_defer_taskrun :: "options \<Rightarrow> options result" where
  "enable_defer_taskrun s =
     (if op_sqpoll s then Inl (Logic_error ''defer_taskrun cannot be enabled with sqpoll'')
      else if op_coop_taskrun s then Inl (Logic_error ''defer_taskrun cannot be enabled with coop_taskrun'')
      else Inr (s\<lparr>op_defer_taskrun := True\<rparr>))"

definition sq_size :: "u64 \<Rightarrow> options \<Rightarrow> options result" where
  "sq_size x s = Inr (s\<lparr>op_sq_size := x\<rparr>)"

definition cq_size :: "u64 \<Rightarrow> options \<Rightarrow> options result" where
  "cq_size x s = Inr (s\<lparr>op_cq_size := x\<rparr>)"

definition submit_batch :: "u64 \<Rightarrow> options \<Rightarrow> options result" where
  "submit_batch x s = Inr (s\<lparr>op_submit_batch := x\<rparr>)"

definition enable_attach_wq :: "ptr \<Rightarrow> options \<Rightarrow> options result" where
  "enable_attach_wq other s = Inr (s\<lparr>op_attach_wq_target := other\<rparr>)"

definition enable_coop_taskrun :: "options \<Rightarrow> options result" where
  "enable_coop_taskrun s =
     (if op_sqpoll s then Inl (Logic_error ''coop_taskrun cannot be enabled with sqpoll'')
      else if op_defer_taskrun s then Inl (Logic_error ''coop_taskrun cannot be enabled with defer_taskrun'')
      else Inr (s\<lparr>op_coop_taskrun := True\<rparr>))"

definition enable_sqe128 :: "options \<Rightarrow> options result" where
  "enable_sqe128 s =
     (if op_sqe_mixed s then Inl (Logic_error ''sqe128 cannot be enabled with sqe_mixed'')
      else Inr (s\<lparr>op_sqe128 := True\<rparr>))"

definition enable_cqe32 :: "options \<Rightarrow> options result" where
  "enable_cqe32 s =
     (if op_cqe_mixed s then Inl (Logic_error ''cqe32 cannot be enabled with cqe_mixed'')
      else Inr (s\<lparr>op_cqe32 := True\<rparr>))"

definition enable_sqe_mixed :: "options \<Rightarrow> options result" where
  "enable_sqe_mixed s =
     (if op_sqe128 s then Inl (Logic_error ''sqe_mixed cannot be enabled with sqe128'')
      else Inr (s\<lparr>op_sqe_mixed := True\<rparr>))"

definition enable_cqe_mixed :: "options \<Rightarrow> options result" where
  "enable_cqe_mixed s =
     (if op_cqe32 s then Inl (Logic_error ''cqe_mixed cannot be enabled with cqe32'')
      else Inr (s\<lparr>op_cqe_mixed := True\<rparr>))"

definition enable_no_mmap :: "ptr \<Rightarrow> u64 \<Rightarrow> options \<Rightarrow> options result" where
  "enable_no_mmap buf buf_size s =
     Inr (s\<lparr>op_no_mmap := True, op_no_mmap_buf := buf, op_no_mmap_buf_size := buf_size\<rparr>)"

definition enable_sq_rewind :: "options \<Rightarrow> options result" where
  "enable_sq_rewind s =
     (if op_sqpoll s then Inl (Logic_error ''sq_rewind cannot be enabled with sqpoll'')
      else Inr (s\<lparr>op_sq_rewind := True\<rparr>))"

section \<open>The parameters of the ring\<close>

datatype setup_flag = CLAMP | SINGLE_ISSUER | SUBMIT_ALL | R_DISABLED | CQSIZE | IOPOLL | HYBRID_IOPOLL
  | SQPOLL | SQ_AFF | ATTACH_WQ | DEFER_TASKRUN | TASKRUN_FLAG | COOP_TASKRUN | SQE128 | CQE32
  | SQE_MIXED | CQE_MIXED | NO_MMAP | SQ_REWIND

text \<open>\<open>io_uring_params\<close>; its fields are 32 bits wide, so the \<open>size_t\<close> options are truncated.\<close>

record params =
  pa_flags :: "setup_flag set"
  pa_cq_entries :: u32
  pa_sq_thread_idle :: u32
  pa_sq_thread_cpu :: u32
  pa_wq_fd :: i32

text \<open>\<open>if (b) params.flags |= fs\<close>, and the blocks that also set another field.\<close>

definition set_if :: "bool \<Rightarrow> setup_flag list \<Rightarrow> params \<Rightarrow> params" where
  "set_if b fs p = (if b then p\<lparr>pa_flags := pa_flags p \<union> set fs\<rparr> else p)"

definition params_cq :: "options \<Rightarrow> params \<Rightarrow> params" where
  "params_cq s p =
     (if op_cq_size s \<noteq> 0 then (set_if True [CQSIZE] p)\<lparr>pa_cq_entries := ucast (op_cq_size s)\<rparr> else p)"

definition params_iopoll :: "version \<Rightarrow> options \<Rightarrow> params \<Rightarrow> params" where
  "params_iopoll v s p =
     (if op_iopoll s
      then set_if (uring_version_ge v 2 9 \<and> op_hybrid_iopoll s) [HYBRID_IOPOLL] (set_if True [IOPOLL] p)
      else p)"

definition params_sqpoll :: "options \<Rightarrow> params \<Rightarrow> params" where
  "params_sqpoll s p =
     (if op_sqpoll s
      then let q = (set_if True [SQPOLL] p)\<lparr>pa_sq_thread_idle := ucast (op_sqpoll_idle_time_ms s)\<rparr>
           in (case op_sqpoll_thread_cpu s of
                 Some cpu \<Rightarrow> (set_if True [SQ_AFF] q)\<lparr>pa_sq_thread_cpu := cpu\<rparr>
               | None \<Rightarrow> q)
      else p)"

definition params_attach :: "i32 \<Rightarrow> options \<Rightarrow> params \<Rightarrow> params" where
  "params_attach wq_fd s p =
     (if op_attach_wq_target s \<noteq> nullptr then (set_if True [ATTACH_WQ] p)\<lparr>pa_wq_fd := wq_fd\<rparr> else p)"

text \<open>
  \<open>create_ring_\<close>: the arguments of the \<open>Ring\<close> constructor. \<open>wq_fd\<close> is the ring descriptor of the
  runtime to attach to; the entries are truncated to \<open>unsigned int\<close>.
\<close>

definition create_ring_params :: "version \<Rightarrow> i32 \<Rightarrow> options \<Rightarrow> params" where
  "create_ring_params v wq_fd s =
     (let p0 = \<lparr>pa_flags = {}, pa_cq_entries = 0, pa_sq_thread_idle = 0, pa_sq_thread_cpu = 0, pa_wq_fd = 0\<rparr>;
          p1 = set_if True [CLAMP, SINGLE_ISSUER, SUBMIT_ALL, R_DISABLED] p0;
          p2 = params_cq s p1;
          p3 = params_iopoll v s p2;
          p4 = params_sqpoll s p3;
          p5 = params_attach wq_fd s p4;
          p6 = set_if (op_defer_taskrun s) [DEFER_TASKRUN, TASKRUN_FLAG] p5;
          p7 = set_if (op_coop_taskrun s) [COOP_TASKRUN, TASKRUN_FLAG] p6;
          p8 = set_if (op_sqe128 s) [SQE128] p7;
          p9 = set_if (op_cqe32 s) [CQE32] p8;
          p10 = set_if (uring_version_ge v 2 13 \<and> op_sqe_mixed s) [SQE_MIXED] p9;
          p11 = set_if (uring_version_ge v 2 13 \<and> op_cqe_mixed s) [CQE_MIXED] p10;
          p12 = set_if (uring_version_ge v 2 5 \<and> op_no_mmap s) [NO_MMAP] p11;
          p13 = set_if (uring_version_ge v 2 14 \<and> op_sq_rewind s) [SQ_REWIND] p12
      in p13)"

definition create_ring_buf :: "version \<Rightarrow> options \<Rightarrow> ptr \<times> u64" where
  "create_ring_buf v s =
     (if uring_version_ge v 2 5 \<and> op_no_mmap s then (op_no_mmap_buf s, op_no_mmap_buf_size s)
      else (nullptr, 0))"

definition create_ring_batch :: "options \<Rightarrow> u64" where
  "create_ring_batch s =
     (if op_submit_batch s = 0
      then if op_sqpoll s then min 32 (op_sq_size s) else - 1
      else op_submit_batch s)"

definition create_ring :: "version \<Rightarrow> i32 \<Rightarrow> options \<Rightarrow> (u32 \<times> params \<times> (ptr \<times> u64) \<times> u64) option" where
  "create_ring v wq_fd s = do {
     let batch = create_ring_batch s;
     massert (batch > 0);
     Some (ucast (op_sq_size s), create_ring_params v wq_fd s, create_ring_buf v s, batch)
   }"

section \<open>Sequences of setter calls\<close>

datatype setter = Event_interval u64 | Disable_register_ring_fd | Enable_iopoll | Enable_hybrid_iopoll
  | Enable_sqpoll u64 "u32 option" | Enable_defer_taskrun | Sq_size u64 | Cq_size u64
  | Submit_batch u64 | Enable_attach_wq ptr | Enable_coop_taskrun | Enable_sqe128 | Enable_cqe32
  | Enable_sqe_mixed | Enable_cqe_mixed | Enable_no_mmap ptr u64 | Enable_sq_rewind

fun set_option :: "setter \<Rightarrow> options \<Rightarrow> options result" where
  "set_option (Event_interval x) = event_interval x"
| "set_option Disable_register_ring_fd = disable_register_ring_fd"
| "set_option Enable_iopoll = enable_iopoll"
| "set_option Enable_hybrid_iopoll = enable_hybrid_iopoll"
| "set_option (Enable_sqpoll t c) = enable_sqpoll t c"
| "set_option Enable_defer_taskrun = enable_defer_taskrun"
| "set_option (Sq_size x) = sq_size x"
| "set_option (Cq_size x) = cq_size x"
| "set_option (Submit_batch x) = submit_batch x"
| "set_option (Enable_attach_wq p) = enable_attach_wq p"
| "set_option Enable_coop_taskrun = enable_coop_taskrun"
| "set_option Enable_sqe128 = enable_sqe128"
| "set_option Enable_cqe32 = enable_cqe32"
| "set_option Enable_sqe_mixed = enable_sqe_mixed"
| "set_option Enable_cqe_mixed = enable_cqe_mixed"
| "set_option (Enable_no_mmap b n) = enable_no_mmap b n"
| "set_option Enable_sq_rewind = enable_sq_rewind"

text \<open>A call that throws leaves the options as they were; the program may go on using them.\<close>

definition set_options :: "setter list \<Rightarrow> options \<Rightarrow> options" where
  "set_options cs s = fold (\<lambda>c s. case set_option c s of Inl _ \<Rightarrow> s | Inr s' \<Rightarrow> s') cs s"

definition options_ok :: "options \<Rightarrow> bool" where
  "options_ok s \<longleftrightarrow>
     \<not> (op_sqpoll s \<and> op_defer_taskrun s) \<and> \<not> (op_sqpoll s \<and> op_coop_taskrun s) \<and>
     \<not> (op_sqpoll s \<and> op_sq_rewind s) \<and> \<not> (op_defer_taskrun s \<and> op_coop_taskrun s) \<and>
     \<not> (op_sqe128 s \<and> op_sqe_mixed s) \<and> \<not> (op_cqe32 s \<and> op_cqe_mixed s) \<and>
     (op_hybrid_iopoll s \<longrightarrow> op_iopoll s)"

lemmas setter_defs = event_interval_def disable_register_ring_fd_def enable_iopoll_def
  enable_hybrid_iopoll_def enable_sqpoll_def enable_defer_taskrun_def sq_size_def cq_size_def
  submit_batch_def enable_attach_wq_def enable_coop_taskrun_def enable_sqe128_def enable_cqe32_def
  enable_sqe_mixed_def enable_cqe_mixed_def enable_no_mmap_def enable_sq_rewind_def

lemma set_option_ok: "options_ok s \<Longrightarrow> (case set_option c s of Inl _ \<Rightarrow> True | Inr s' \<Rightarrow> options_ok s')"
  by (cases c) (simp_all add: options_ok_def setter_defs)

lemma set_options_ok: "options_ok s \<Longrightarrow> options_ok (set_options cs s)"
proof (induction cs arbitrary: s)
  case (Cons c cs)
  have "options_ok (case set_option c s of Inl _ \<Rightarrow> s | Inr s' \<Rightarrow> s')"
    using set_option_ok [OF Cons.prems, of c] Cons.prems by (cases "set_option c s") simp_all
  with Cons.IH show ?case by (simp add: set_options_def)
qed (simp add: set_options_def)

lemma options_ok_new: "options_ok options_new"
  by (simp add: options_ok_def options_new_def)

text \<open>Which flags the parameters carry.\<close>

lemma set_if_mem [simp]: "f \<in> pa_flags (set_if b fs p) \<longleftrightarrow> f \<in> pa_flags p \<or> b \<and> f \<in> set fs"
  by (simp add: set_if_def)

lemma params_cq_mem [simp]: "f \<in> pa_flags (params_cq s p) \<longleftrightarrow> f \<in> pa_flags p \<or> op_cq_size s \<noteq> 0 \<and> f = CQSIZE"
  by (simp add: params_cq_def)

lemma params_iopoll_mem [simp]: "f \<in> pa_flags (params_iopoll v s p) \<longleftrightarrow> f \<in> pa_flags p \<or>
    op_iopoll s \<and> (f = IOPOLL \<or> uring_version_ge v 2 9 \<and> op_hybrid_iopoll s \<and> f = HYBRID_IOPOLL)"
  by (auto simp: params_iopoll_def)

lemma params_sqpoll_mem [simp]: "f \<in> pa_flags (params_sqpoll s p) \<longleftrightarrow> f \<in> pa_flags p \<or>
    op_sqpoll s \<and> (f = SQPOLL \<or> op_sqpoll_thread_cpu s \<noteq> None \<and> f = SQ_AFF)"
  by (auto simp: params_sqpoll_def Let_def split: option.splits)

lemma params_attach_mem [simp]: "f \<in> pa_flags (params_attach wq s p) \<longleftrightarrow> f \<in> pa_flags p \<or>
    op_attach_wq_target s \<noteq> nullptr \<and> f = ATTACH_WQ"
  by (simp add: params_attach_def)

lemma params_cq_entries:
  "pa_cq_entries (set_if b fs p) = pa_cq_entries p"
  "pa_cq_entries (params_iopoll v s p) = pa_cq_entries p"
  "pa_cq_entries (params_sqpoll s p) = pa_cq_entries p"
  "pa_cq_entries (params_attach wq s p) = pa_cq_entries p"
  by (simp_all add: set_if_def params_iopoll_def params_sqpoll_def params_attach_def Let_def
      split: option.splits)

lemma create_ring_flags:
  fixes v wq s
  defines "fs \<equiv> pa_flags (create_ring_params v wq s)"
  shows "SINGLE_ISSUER \<in> fs" and "SQPOLL \<in> fs \<longleftrightarrow> op_sqpoll s"
    and "SQ_AFF \<in> fs \<longleftrightarrow> op_sqpoll s \<and> op_sqpoll_thread_cpu s \<noteq> None"
    and "IOPOLL \<in> fs \<longleftrightarrow> op_iopoll s" and "HYBRID_IOPOLL \<in> fs \<longrightarrow> op_iopoll s \<and> op_hybrid_iopoll s"
    and "DEFER_TASKRUN \<in> fs \<longleftrightarrow> op_defer_taskrun s" and "COOP_TASKRUN \<in> fs \<longleftrightarrow> op_coop_taskrun s"
    and "TASKRUN_FLAG \<in> fs \<longleftrightarrow> op_defer_taskrun s \<or> op_coop_taskrun s"
    and "SQE128 \<in> fs \<longleftrightarrow> op_sqe128 s" and "SQE_MIXED \<in> fs \<longrightarrow> op_sqe_mixed s"
    and "CQE32 \<in> fs \<longleftrightarrow> op_cqe32 s" and "CQE_MIXED \<in> fs \<longrightarrow> op_cqe_mixed s"
    and "SQ_REWIND \<in> fs \<longrightarrow> op_sq_rewind s"
  by (simp_all add: fs_def create_ring_params_def)

text \<open>
  Whatever setters a program calls, in whatever order and whichever of them throw, the ring is
  never asked for flags that exclude each other: kernel polling with task-run notification or
  submission rewind, both task-run modes, wide with mixed entries, hybrid polling without polling,
  or a polling thread's CPU without the polling thread; and deferred task running always comes with
  the single-issuer flag it needs.
\<close>

theorem options_never_conflict:
  "(let fs = pa_flags (create_ring_params v wq (set_options cs options_new))
    in \<not> {SQPOLL, DEFER_TASKRUN} \<subseteq> fs \<and> \<not> {SQPOLL, COOP_TASKRUN} \<subseteq> fs \<and> \<not> {SQPOLL, SQ_REWIND} \<subseteq> fs \<and>
       \<not> {SQPOLL, TASKRUN_FLAG} \<subseteq> fs \<and> \<not> {DEFER_TASKRUN, COOP_TASKRUN} \<subseteq> fs \<and>
       \<not> {SQE128, SQE_MIXED} \<subseteq> fs \<and> \<not> {CQE32, CQE_MIXED} \<subseteq> fs \<and>
       (HYBRID_IOPOLL \<in> fs \<longrightarrow> IOPOLL \<in> fs) \<and> (SQ_AFF \<in> fs \<longrightarrow> SQPOLL \<in> fs) \<and>
       (DEFER_TASKRUN \<in> fs \<longrightarrow> SINGLE_ISSUER \<in> fs))"
proof -
  let ?s = "set_options cs options_new"
  have "options_ok ?s" by (rule set_options_ok [OF options_ok_new])
  then show ?thesis
    unfolding Let_def insert_subset options_ok_def
    using create_ring_flags [of v wq ?s] by blast
qed

theorem options_never_conflict_witness:
  "(let fs = pa_flags (create_ring_params (2, 14) 5
        (set_options [Enable_defer_taskrun, Enable_sqpoll 10 (Some 1), Enable_sqe128, Enable_sqe_mixed] options_new))
    in \<not> {SQPOLL, DEFER_TASKRUN} \<subseteq> fs \<and> \<not> {SQPOLL, COOP_TASKRUN} \<subseteq> fs \<and> \<not> {SQPOLL, SQ_REWIND} \<subseteq> fs \<and>
       \<not> {SQPOLL, TASKRUN_FLAG} \<subseteq> fs \<and> \<not> {DEFER_TASKRUN, COOP_TASKRUN} \<subseteq> fs \<and>
       \<not> {SQE128, SQE_MIXED} \<subseteq> fs \<and> \<not> {CQE32, CQE_MIXED} \<subseteq> fs \<and>
       (HYBRID_IOPOLL \<in> fs \<longrightarrow> IOPOLL \<in> fs) \<and> (SQ_AFF \<in> fs \<longrightarrow> SQPOLL \<in> fs) \<and>
       (DEFER_TASKRUN \<in> fs \<longrightarrow> SINGLE_ISSUER \<in> fs))"
  by (rule options_never_conflict)

text \<open>
  Creating the ring passes its assert on the submission batch except in one case, a polled ring
  of size 0 with the default batch; the batch is then what the user set, or 32 at most for a polled
  ring, or unbounded. The entries and the completion queue size are what the options say modulo
  $2^{32}$.
\<close>

theorem create_ring_batch_bounds:
  "(create_ring v wq s = None \<longleftrightarrow> op_submit_batch s = 0 \<and> op_sqpoll s \<and> op_sq_size s = 0) \<and>
   (case create_ring v wq s of
      None \<Rightarrow> True
    | Some (entries, p, buf, batch) \<Rightarrow>
        0 < batch \<and> (op_submit_batch s \<noteq> 0 \<and> batch = op_submit_batch s \<or>
          op_submit_batch s = 0 \<and> (if op_sqpoll s then batch \<le> 32 \<and> batch \<le> op_sq_size s
                                    else unat batch = 2 ^ 64 - 1)) \<and>
        unat entries = unat (op_sq_size s) mod 2 ^ 32 \<and>
        unat (pa_cq_entries p) = unat (op_cq_size s) mod 2 ^ 32)"
proof -
  have cq: "pa_cq_entries (create_ring_params v wq s) = ucast (op_cq_size s)"
    by (simp add: create_ring_params_def params_cq_entries params_cq_def Let_def)
  have trunc: "unat (ucast x :: u32) = unat x mod 2 ^ 32" for x :: u64
    by (simp add: unsigned_ucast_eq take_bit_eq_mod)
  consider (set) "op_submit_batch s \<noteq> 0" | (poll) "op_submit_batch s = 0" "op_sqpoll s"
    | (max) "op_submit_batch s = 0" "\<not> op_sqpoll s" by blast
  then show ?thesis
  proof cases
    case poll
    then have "create_ring_batch s = min 32 (op_sq_size s)" by (simp add: create_ring_batch_def)
    moreover have "min 32 (op_sq_size s) = 0 \<longleftrightarrow> op_sq_size s = 0" by (auto simp: min_def)
    ultimately show ?thesis
      using poll by (cases "op_sq_size s = 0") (simp_all add: create_ring_def cq trunc word_gt_0 massert_def)
  qed (simp_all add: create_ring_def create_ring_batch_def cq trunc word_gt_0 unsigned_minus_1_eq_mask
      mask_eq_exp_minus_1)
qed

end
