(* ===== verification/Runtime.thy ===== *)
theory Runtime
  imports Uring_Ring Work_Type Utils "HOL-Library.Multiset"
begin

text \<open>
  \<open>include/condy/runtime.hpp\<close> and \<open>detail/runtime.hpp\<close>: the event loop. A world holds the runtimes
  of the process; an operation is given the runtime it is called on (\<open>this\<close>) and the runtime of
  the calling thread (\<open>ctx\<close>, null outside a runtime). The functions of liburing are a parameter
  \<open>u\<close>; the kernel's answer to a synchronous message is the parameter \<open>sync\<close>, and the messages sent
  that way are recorded in the world.

  The two work queues are the intrusive singly linked lists of \<open>Intrusive\<close>, which refine lists
  (\<open>sl_rep\<close>); here they are those lists. The functions behind a work or a finish handle are
  reached through function pointers: \<open>invoke\<close> and \<open>handle\<close> are parameters of the operations that
  call them.
\<close>

section \<open>State\<close>

record 's runtime =
  rt_ring_fd :: i32
  rt_global_queue :: "ptr list"
  rt_exit_allowed :: bool
  rt_ring_enabled :: bool
  rt_local_queue :: "ptr list"
  rt_ring :: "'s ring"
  rt_pending_works :: u64
  rt_tick_count :: u64
  rt_run_thread_id :: "nat option"
  rt_event_interval :: u64
  rt_disable_register_ring_fd :: bool
  rt_bgid_pool :: "u16 id_pool"

record ('s, 'a) world =
  w_rts :: "ptr \<Rightarrow> 's runtime"
  w_synced :: "sqe list"
  w_app :: 'a

type_synonym 's rt_uring = "('s, sqe, cqe) uring"

definition rt_new :: "i32 \<Rightarrow> 's ring \<Rightarrow> u64 \<Rightarrow> bool \<Rightarrow> 's runtime" where
  "rt_new fd ring event_interval disable_register_ring_fd =
     \<lparr>rt_ring_fd = fd, rt_global_queue = [], rt_exit_allowed = False, rt_ring_enabled = False,
      rt_local_queue = [], rt_ring = ring, rt_pending_works = 0, rt_tick_count = 0,
      rt_run_thread_id = None, rt_event_interval = event_interval,
      rt_disable_register_ring_fd = disable_register_ring_fd, rt_bgid_pool = idp_new 0\<rparr>"

definition w_upd :: "ptr \<Rightarrow> ('s runtime \<Rightarrow> 's runtime) \<Rightarrow> ('s, 'a) world \<Rightarrow> ('s, 'a) world" where
  "w_upd r f w = w\<lparr>w_rts := (w_rts w)(r := f (w_rts w r))\<rparr>"

text \<open>Queueing an entry on the ring of a runtime.\<close>

definition rt_queue :: "'s rt_uring \<Rightarrow> ptr \<Rightarrow> sqe \<Rightarrow> ('s, 'a) world \<Rightarrow> ('s, 'a) world option" where
  "rt_queue u r q w = do {
     g \<leftarrow> ring_queue u q (rt_ring (w_rts w r));
     Some (w_upd r (\<lambda>x. x\<lparr>rt_ring := g\<rparr>) w)
   }"

definition rt_submit :: "'s rt_uring \<Rightarrow> ptr \<Rightarrow> ('s, 'a) world \<Rightarrow> ('s, 'a) world" where
  "rt_submit u r w = w_upd r (\<lambda>x. x\<lparr>rt_ring := ring_submit u (rt_ring x)\<rparr>) w"

section \<open>Counting pending works\<close>

definition pend_work_internal :: "ptr \<Rightarrow> ptr \<Rightarrow> ('s, 'a) world \<Rightarrow> ('s, 'a) world option" where
  "pend_work_internal ctx this w = do {
     massert (ctx = this);
     Some (w_upd this (\<lambda>x. x\<lparr>rt_pending_works := rt_pending_works x + 1\<rparr>) w)
   }"

definition resume_work_internal :: "ptr \<Rightarrow> ptr \<Rightarrow> ('s, 'a) world \<Rightarrow> ('s, 'a) world option" where
  "resume_work_internal ctx this w = do {
     massert (ctx = this);
     Some (w_upd this (\<lambda>x. x\<lparr>rt_pending_works := rt_pending_works x - 1\<rparr>) w)
   }"

section \<open>Messages between rings\<close>

definition prep_msg_ring :: "i32 \<Rightarrow> u64 \<Rightarrow> sqe option" where
  "prep_msg_ring ring_fd data = do {
     ud \<leftarrow> encode_work nullptr Schedule;
     Some \<lparr>sq_prep = [(''io_uring_prep_msg_ring'', [I ring_fd, U 0, U data, U 0])],
           sq_user_data = ud, sq_flags = {}\<rparr>
   }"

definition prep_cancel :: "u64 \<Rightarrow> sqe option" where
  "prep_cancel data = do {
     ud \<leftarrow> encode_work nullptr Ignore;
     Some \<lparr>sq_prep = [(''io_uring_prep_cancel64'', [U data, I 0])],
           sq_user_data = ud, sq_flags = {IOSQE_CQE_SKIP_SUCCESS}\<rparr>
   }"

text \<open>\<open>schedule_msg_ring_\<close>: through the current ring, or synchronously outside a runtime.\<close>

definition schedule_msg_ring ::
  "'s rt_uring \<Rightarrow> (sqe \<Rightarrow> i32) \<Rightarrow> ptr \<Rightarrow> ptr \<Rightarrow> u64 \<Rightarrow> ('s, 'a) world \<Rightarrow> ('s, 'a) world result option" where
  "schedule_msg_ring u sync cur this data w = do {
     let ring_fd = rt_ring_fd (w_rts w this);
     q \<leftarrow> prep_msg_ring ring_fd data;
     if cur \<noteq> nullptr then do {
       w1 \<leftarrow> rt_queue u cur q w;
       w2 \<leftarrow> pend_work_internal cur cur w1;
       Some (Inr w2)
     }
     else if sync q < 0 then Some (Inl (Panic ''sync_msg_ring''))
     else Some (Inr (w\<lparr>w_synced := w_synced w @ [q]\<rparr>))
   }"

definition schedule_internal ::
  "'s rt_uring \<Rightarrow> (sqe \<Rightarrow> i32) \<Rightarrow> ptr \<Rightarrow> ptr \<Rightarrow> ptr \<Rightarrow> ('s, 'a) world \<Rightarrow> ('s, 'a) world result option" where
  "schedule_internal u sync ctx this work w =
     (if ctx = this then
        Some (Inr (w_upd this (\<lambda>x. x\<lparr>rt_local_queue := rt_local_queue x @ [work]\<rparr>) w))
      else if rt_ring_enabled (w_rts w this) then do {
        d \<leftarrow> encode_work work Schedule;
        schedule_msg_ring u sync ctx this d w
      }
      else Some (Inr (w_upd this (\<lambda>x. x\<lparr>rt_global_queue := rt_global_queue x @ [work]\<rparr>) w)))"

definition cancel_internal ::
  "'s rt_uring \<Rightarrow> (sqe \<Rightarrow> i32) \<Rightarrow> ptr \<Rightarrow> ptr \<Rightarrow> u64 \<Rightarrow> ('s, 'a) world \<Rightarrow> ('s, 'a) world result option" where
  "cancel_internal u sync ctx this data w =
     (if ctx = this then do {
        q \<leftarrow> prep_cancel data;
        w1 \<leftarrow> rt_queue u this q w;
        Some (Inr w1)
      }
      else if \<not> rt_ring_enabled (w_rts w this) then Some (Inr w)
      else do {
        d \<leftarrow> encode_work_ptr data Cancel;
        r \<leftarrow> schedule_msg_ring u sync ctx this d w;
        (case r of
           Inl f \<Rightarrow> Some (Inl f)
         | Inr w1 \<Rightarrow> Some (Inr (if ctx \<noteq> nullptr then rt_submit u ctx w1 else w1)))
      })"

definition rt_wakeup ::
  "'s rt_uring \<Rightarrow> (sqe \<Rightarrow> i32) \<Rightarrow> ptr \<Rightarrow> ptr \<Rightarrow> ('s, 'a) world \<Rightarrow> ('s, 'a) world result option" where
  "rt_wakeup u sync ctx this w =
     (if ctx = this then Some (Inr w)
      else if \<not> rt_ring_enabled (w_rts w this) then Some (Inr w)
      else do {
        d \<leftarrow> encode_work nullptr Ignore;
        r \<leftarrow> schedule_msg_ring u sync ctx this d w;
        (case r of
           Inl f \<Rightarrow> Some (Inl f)
         | Inr w1 \<Rightarrow> Some (Inr (if ctx \<noteq> nullptr then rt_submit u ctx w1 else w1)))
      })"

definition allow_exit ::
  "'s rt_uring \<Rightarrow> (sqe \<Rightarrow> i32) \<Rightarrow> ptr \<Rightarrow> ptr \<Rightarrow> ('s, 'a) world \<Rightarrow> ('s, 'a) world result option" where
  "allow_exit u sync ctx this w =
     rt_wakeup u sync ctx this (w_upd this (\<lambda>x. x\<lparr>rt_exit_allowed := True\<rparr>) w)"

definition flush_global_queue :: "ptr \<Rightarrow> ('s, 'a) world \<Rightarrow> ('s, 'a) world" where
  "flush_global_queue this w =
     w_upd this (\<lambda>x. x\<lparr>rt_local_queue := rt_local_queue x @ rt_global_queue x, rt_global_queue := []\<rparr>) w"

section \<open>Processing completions\<close>

text \<open>
  \<open>process_cqe_\<close>, in the thread of the runtime. The panic and the unreachable branch end the
  processing; \<open>None\<close> is a failed assert, undefined behaviour or a callee that does not return.
\<close>

definition process_cqe ::
  "'s rt_uring \<Rightarrow> (ptr \<Rightarrow> ('s, 'a) world \<Rightarrow> ('s, 'a) world option) \<Rightarrow>
   (ptr \<Rightarrow> cqe \<Rightarrow> ('s, 'a) world \<Rightarrow> (bool \<times> ('s, 'a) world) option) \<Rightarrow> ptr \<Rightarrow> cqe \<Rightarrow>
   ('s, 'a) world \<Rightarrow> ('s, 'a) world result option" where
  "process_cqe u invoke handle this c w =
     (case decode_work (cq_user_data c) of
        (data, Some Ignore) \<Rightarrow> do {
          massert (cq_res c \<noteq> - EINVAL);
          Some (Inr w)
        }
      | (data, Some Schedule) \<Rightarrow>
          if data = nullptr then
            if cq_res c < 0 then Some (Inl (Panic ''io_uring_prep_msg_ring''))
            else do {
              w1 \<leftarrow> resume_work_internal this this w;
              Some (Inr w1)
            }
          else do {
            w1 \<leftarrow> invoke data w;
            Some (Inr w1)
          }
      | (data, Some Cancel) \<Rightarrow> do {
          q \<leftarrow> prep_cancel data;
          w1 \<leftarrow> rt_queue u this q w;
          Some (Inr w1)
        }
      | (data, Some Common) \<Rightarrow> do {
          (op_finish, w1) \<leftarrow> handle data c w;
          if op_finish then do {
            w2 \<leftarrow> resume_work_internal this this w1;
            Some (Inr w2)
          }
          else Some (Inr w1)
        }
      | (data, None) \<Rightarrow> None)"

text \<open>
  The processing function that the ring calls: a panic stops the process, so it ends the
  iteration; it is kept in the state for the caller.
\<close>

definition process_cqe_in ::
  "'s rt_uring \<Rightarrow> (ptr \<Rightarrow> ('s, 'a) world \<Rightarrow> ('s, 'a) world option) \<Rightarrow>
   (ptr \<Rightarrow> cqe \<Rightarrow> ('s, 'a) world \<Rightarrow> (bool \<times> ('s, 'a) world) option) \<Rightarrow> ptr \<Rightarrow> cqe \<Rightarrow>
   's ring \<times> (failure option \<times> ('s, 'a) world) \<Rightarrow> ('s ring \<times> (failure option \<times> ('s, 'a) world)) option" where
  "process_cqe_in u invoke handle this c gw =
     (case gw of
        (g, Some f, w) \<Rightarrow> Some gw
      | (g, None, w) \<Rightarrow> do {
          r \<leftarrow> process_cqe u invoke handle this c (w_upd this (\<lambda>x. x\<lparr>rt_ring := g\<rparr>) w);
          (case r of
             Inl f \<Rightarrow> Some (g, Some f, w)
           | Inr w1 \<Rightarrow> Some (rt_ring (w_rts w1 this), None, w1))
        })"

definition flush_result ::
  "string \<Rightarrow> ptr \<Rightarrow> int \<times> 's ring \<times> (failure option \<times> ('s, 'a) world) \<Rightarrow> ('s, 'a) world result" where
  "flush_result msg this r =
     (case r of
        (n, g, Some f, w) \<Rightarrow> Inl f
      | (n, g, None, w) \<Rightarrow> if n < 0 then Inl (Panic msg) else Inr (w_upd this (\<lambda>x. x\<lparr>rt_ring := g\<rparr>) w))"

definition flush_ring ::
  "'s rt_uring \<Rightarrow> (ptr \<Rightarrow> ('s, 'a) world \<Rightarrow> ('s, 'a) world option) \<Rightarrow>
   (ptr \<Rightarrow> cqe \<Rightarrow> ('s, 'a) world \<Rightarrow> (bool \<times> ('s, 'a) world) option) \<Rightarrow> ptr \<Rightarrow>
   ('s, 'a) world \<Rightarrow> ('s, 'a) world result option" where
  "flush_ring u invoke handle this w = do {
     r \<leftarrow> ring_reap_completions u (process_cqe_in u invoke handle this) (rt_ring (w_rts w this), None, w);
     Some (flush_result ''io_uring_peek_cqe'' this r)
   }"

definition flush_ring_wait ::
  "'s rt_uring \<Rightarrow> (ptr \<Rightarrow> ('s, 'a) world \<Rightarrow> ('s, 'a) world option) \<Rightarrow>
   (ptr \<Rightarrow> cqe \<Rightarrow> ('s, 'a) world \<Rightarrow> (bool \<times> ('s, 'a) world) option) \<Rightarrow> ptr \<Rightarrow>
   ('s, 'a) world \<Rightarrow> ('s, 'a) world result option" where
  "flush_ring_wait u invoke handle this w = do {
     r \<leftarrow> ring_reap_completions_wait u (process_cqe_in u invoke handle this) (rt_ring (w_rts w this), None, w);
     Some (flush_result ''io_uring_submit_and_wait'' this r)
   }"

section \<open>The event loop\<close>

text \<open>
  The beginning of \<open>run\<close> in thread \<open>tid\<close>; \<open>enable\<close> is what \<open>io_uring_enable_rings\<close> returns.
  (Registering the ring descriptor is an optimisation whose result is ignored.)
\<close>

definition run_begin ::
  "'s rt_uring \<Rightarrow> (ptr \<Rightarrow> ('s, 'a) world \<Rightarrow> ('s, 'a) world option) \<Rightarrow>
   (ptr \<Rightarrow> cqe \<Rightarrow> ('s, 'a) world \<Rightarrow> (bool \<times> ('s, 'a) world) option) \<Rightarrow> ptr \<Rightarrow> nat \<Rightarrow> i32 \<Rightarrow>
   ('s, 'a) world \<Rightarrow> ('s, 'a) world result option" where
  "run_begin u invoke handle this tid enable w =
     (if rt_run_thread_id (w_rts w this) = None then
        if enable < 0 then Some (Inl (System_error ''io_uring_enable_rings'' (- enable)))
        else let w1 = w_upd this (\<lambda>x. x\<lparr>rt_run_thread_id := Some tid\<rparr>) w;
                 w2 = flush_global_queue this w1
             in Some (Inr (w_upd this (\<lambda>x. x\<lparr>rt_ring_enabled := True\<rparr>) w2))
      else if rt_run_thread_id (w_rts w this) = Some tid then flush_ring u invoke handle this w
      else Some (Inl (Runtime_error ''Runtime::run() can only be called from the same thread'')))"

text \<open>One iteration of the loop; the flag says whether the loop goes on.\<close>

definition run_tick ::
  "'s rt_uring \<Rightarrow> (ptr \<Rightarrow> ('s, 'a) world \<Rightarrow> ('s, 'a) world option) \<Rightarrow>
   (ptr \<Rightarrow> cqe \<Rightarrow> ('s, 'a) world \<Rightarrow> (bool \<times> ('s, 'a) world) option) \<Rightarrow> ptr \<Rightarrow>
   ('s, 'a) world \<Rightarrow> ('s, 'a) world result option" where
  "run_tick u invoke handle this w =
     (let w1 = w_upd this (\<lambda>x. x\<lparr>rt_tick_count := rt_tick_count x + 1\<rparr>) w
      in if rt_tick_count (w_rts w1 this) \<ge> rt_event_interval (w_rts w1 this)
         then flush_ring u invoke handle this (w_upd this (\<lambda>x. x\<lparr>rt_tick_count := 0\<rparr>) w1)
         else Some (Inr w1))"

definition run_iteration ::
  "'s rt_uring \<Rightarrow> (ptr \<Rightarrow> ('s, 'a) world \<Rightarrow> ('s, 'a) world option) \<Rightarrow>
   (ptr \<Rightarrow> cqe \<Rightarrow> ('s, 'a) world \<Rightarrow> (bool \<times> ('s, 'a) world) option) \<Rightarrow> ptr \<Rightarrow>
   ('s, 'a) world \<Rightarrow> (bool \<times> ('s, 'a) world) result option" where
  "run_iteration u invoke handle this w = do {
     r \<leftarrow> run_tick u invoke handle this w;
     (case r of
        Inl f \<Rightarrow> Some (Inl f)
      | Inr w1 \<Rightarrow>
          (case rt_local_queue (w_rts w1 this) of
             work # rest \<Rightarrow> do {
               w2 \<leftarrow> invoke work (w_upd this (\<lambda>x. x\<lparr>rt_local_queue := rest\<rparr>) w1);
               Some (Inr (True, w2))
             }
           | [] \<Rightarrow>
               if rt_pending_works (w_rts w1 this) = 0 \<and> rt_exit_allowed (w_rts w1 this)
               then Some (Inr (False, w1))
               else do {
                 r2 \<leftarrow> flush_ring_wait u invoke handle this w1;
                 Some (case r2 of Inl f \<Rightarrow> Inl f | Inr w2 \<Rightarrow> Inr (True, w2))
               }))
   }"

text \<open>The deferred actions at the end of \<open>run\<close>.\<close>

definition run_end_defers :: "ptr \<Rightarrow> ('s, 'a) world \<Rightarrow> ('s, 'a) world" where
  "run_end_defers this w = w_upd this (\<lambda>x. x\<lparr>rt_tick_count := 0, rt_exit_allowed := False\<rparr>) w"

partial_function (option) run_loop ::
  "'s rt_uring \<Rightarrow> (ptr \<Rightarrow> ('s, 'a) world \<Rightarrow> ('s, 'a) world option) \<Rightarrow>
   (ptr \<Rightarrow> cqe \<Rightarrow> ('s, 'a) world \<Rightarrow> (bool \<times> ('s, 'a) world) option) \<Rightarrow> ptr \<Rightarrow>
   ('s, 'a) world \<Rightarrow> ('s, 'a) world result option" where
  "run_loop u invoke handle this w =
     run_iteration u invoke handle this w \<bind> (\<lambda>r.
       case r of
         Inl f \<Rightarrow> Some (Inl f)
       | Inr (go_on, w1) \<Rightarrow> if go_on then run_loop u invoke handle this w1 else Some (Inr w1))"

definition run ::
  "'s rt_uring \<Rightarrow> (ptr \<Rightarrow> ('s, 'a) world \<Rightarrow> ('s, 'a) world option) \<Rightarrow>
   (ptr \<Rightarrow> cqe \<Rightarrow> ('s, 'a) world \<Rightarrow> (bool \<times> ('s, 'a) world) option) \<Rightarrow> ptr \<Rightarrow> nat \<Rightarrow> i32 \<Rightarrow>
   ('s, 'a) world \<Rightarrow> ('s, 'a) world result option" where
  "run u invoke handle this tid enable w = do {
     r \<leftarrow> run_begin u invoke handle this tid enable w;
     (case r of
        Inl f \<Rightarrow> Some (Inl f)
      | Inr w1 \<Rightarrow> do {
          r2 \<leftarrow> run_loop u invoke handle this w1;
          Some (case r2 of Inl f \<Rightarrow> Inl f | Inr w2 \<Rightarrow> Inr (run_end_defers this w2))
        })
   }"

section \<open>Sending a message without a ring\<close>

text \<open>
  \<open>sync_msg_ring\<close> for versions of liburing without \<open>io_uring_register_sync_msg\<close>: the message goes
  through a ring of the thread (\<open>ThreadLocalRing\<close>), and the thread waits for its completion.
\<close>

definition sync_msg_ring :: "'s rt_uring \<Rightarrow> sqe \<Rightarrow> 's ring \<Rightarrow> (i32 \<times> 's ring) option" where
  "sync_msg_ring u q g = do {
     g1 \<leftarrow> ring_queue u q g;
     (n, g2, r) \<leftarrow> ring_reap_completions_wait u (\<lambda>c (g, r). Some (g, cq_res c)) (g1, 0);
     if n < 0 then Some (n, g2)
     else do {
       massert (n = 1);
       Some (r, g2)
     }
   }"

section \<open>Lemmas\<close>

lemma w_upd_sel [simp]:
  "w_rts (w_upd r f w) = (w_rts w)(r := f (w_rts w r))" "w_synced (w_upd r f w) = w_synced w"
  "w_app (w_upd r f w) = w_app w"
  by (simp_all add: w_upd_def)

lemma w_upd_twice [simp]: "w_upd r f (w_upd r g w) = w_upd r (f \<circ> g) w"
  by (simp add: w_upd_def)

lemma w_upd_id: "f (w_rts w r) = w_rts w r \<Longrightarrow> w_upd r f w = w"
  by (cases w) (simp add: w_upd_def)

lemma w_upd_cong: "f (w_rts w r) = g (w_rts w r) \<Longrightarrow> w_upd r f w = w_upd r g w"
  by (simp add: w_upd_def)

lemma ring_queue_returns:
  assumes "sq_contract u entries" and "\<not> u_sqpoll u"
  shows "\<exists>g'. ring_queue u q g = Some g'"
  using ring_get_sqe_returns [OF assms, of g] by (auto simp: ring_queue_def)

text \<open>The message that carries a work, and what the two completions it causes do.\<close>

definition work_msg :: "i32 \<Rightarrow> ptr \<Rightarrow> sqe" where
  "work_msg fd work =
     \<lparr>sq_prep = [(''io_uring_prep_msg_ring'', [I fd, U 0, U (work OR work_type_code Schedule), U 0])],
      sq_user_data = work_type_code Schedule, sq_flags = {}\<rparr>"

lemma prep_msg_ring_work: "prep_msg_ring fd (work OR work_type_code Schedule) = Some (work_msg fd work)"
  by (simp add: prep_msg_ring_def work_msg_def)

lemma decode_null: "decode_work (work_type_code t) = (nullptr, Some t)"
  using decode_tagged [of 0 t] by simp

lemma process_cqe_work:
  assumes "aligned8 work" and "work \<noteq> nullptr" and "cq_user_data c = work OR work_type_code Schedule"
  shows "process_cqe u invoke handle this c w = map_option Inr (invoke work w)"
  using decode_tagged [OF assms(1), of Schedule] assms(2,3)
  by (simp add: process_cqe_def map_conv_bind_option comp_def)

lemma process_cqe_ack:
  assumes "cq_user_data c = work_type_code Schedule" and "0 \<le> cq_res c"
  shows "process_cqe u invoke handle this c w =
    Some (Inr (w_upd this (\<lambda>x. x\<lparr>rt_pending_works := rt_pending_works x - 1\<rparr>) w))"
  using assms decode_null [of Schedule] by (simp add: process_cqe_def resume_work_internal_def del: work_type_code.simps)

section \<open>Properties\<close>

text \<open>
  C16. A work that is scheduled reaches its runtime on every path. From the runtime's own thread it
  joins the local queue; before the runtime runs it joins the global queue; otherwise a message
  goes to the runtime's ring, through the sender's ring (which then counts one more pending work)
  or synchronously. The completion that the message causes at the receiver invokes exactly that
  work, and the sender's completion takes the count back.
\<close>

theorem schedule_delivers:
  assumes "sq_contract u entries" and "\<not> u_sqpoll u" and "\<forall>q. 0 \<le> sync q"
    and "aligned8 work" and "work \<noteq> nullptr"
  shows "\<exists>w'. schedule_internal u sync ctx this work w = Some (Inr w') \<and>
    (if ctx = this then w' = w_upd this (\<lambda>x. x\<lparr>rt_local_queue := rt_local_queue x @ [work]\<rparr>) w
     else if \<not> rt_ring_enabled (w_rts w this)
     then w' = w_upd this (\<lambda>x. x\<lparr>rt_global_queue := rt_global_queue x @ [work]\<rparr>) w
     else (\<exists>q data. sq_prep q = [(''io_uring_prep_msg_ring'', [I (rt_ring_fd (w_rts w this)), U 0, U data, U 0])] \<and>
       (\<forall>c v. cq_user_data c = data \<longrightarrow> process_cqe u invoke handle this c v = map_option Inr (invoke work v)) \<and>
       (if ctx = nullptr then w' = w\<lparr>w_synced := w_synced w @ [q]\<rparr>
        else (\<exists>g. ring_queue u q (rt_ring (w_rts w ctx)) = Some g \<and>
          w' = w_upd ctx (\<lambda>x. x\<lparr>rt_ring := g, rt_pending_works := rt_pending_works x + 1\<rparr>) w \<and>
          (\<forall>c. cq_user_data c = sq_user_data q \<and> 0 \<le> cq_res c \<longrightarrow>
             process_cqe u invoke handle ctx c w' = Some (Inr (w_upd ctx (\<lambda>x. x\<lparr>rt_ring := g\<rparr>) w)))))))"
proof -
  let ?q = "work_msg (rt_ring_fd (w_rts w this)) work"
  let ?d = "work OR work_type_code Schedule"
  obtain g where g: "ring_queue u ?q (rt_ring (w_rts w ctx)) = Some g"
    using ring_queue_returns [OF assms(1,2)] by blast
  have del: "\<forall>c v. cq_user_data c = ?d \<longrightarrow> process_cqe u invoke handle this c v = map_option Inr (invoke work v)"
    using process_cqe_work assms(4,5) by blast
  have prep: "sq_prep ?q = [(''io_uring_prep_msg_ring'', [I (rt_ring_fd (w_rts w this)), U 0, U ?d, U 0])]"
    and ud: "sq_user_data ?q = work_type_code Schedule"
    by (simp_all add: work_msg_def)
  show ?thesis
  proof (cases "ctx = this \<or> \<not> rt_ring_enabled (w_rts w this)")
    case True
    then show ?thesis by (auto simp: schedule_internal_def)
  next
    case False
    show ?thesis
    proof (cases "ctx = nullptr")
      case True
      have "schedule_internal u sync ctx this work w = Some (Inr (w\<lparr>w_synced := w_synced w @ [?q]\<rparr>))"
        using False True assms(3,4)
        by (simp add: schedule_internal_def schedule_msg_ring_def prep_msg_ring_work not_less
            del: work_type_code.simps)
      with False True del prep show ?thesis by auto
    next
      case ctx: False
      let ?w = "w_upd ctx (\<lambda>x. x\<lparr>rt_ring := g, rt_pending_works := rt_pending_works x + 1\<rparr>) w"
      have "schedule_internal u sync ctx this work w = Some (Inr ?w)"
        using False ctx assms(4) g
        by (simp add: schedule_internal_def schedule_msg_ring_def prep_msg_ring_work rt_queue_def
            pend_work_internal_def comp_def del: work_type_code.simps)
      moreover have "process_cqe u invoke handle ctx c ?w = Some (Inr (w_upd ctx (\<lambda>x. x\<lparr>rt_ring := g\<rparr>) w))"
        if "cq_user_data c = sq_user_data ?q" "0 \<le> cq_res c" for c
        using process_cqe_ack [of c u invoke handle ctx ?w] that unfolding ud by (simp add: comp_def)
      ultimately show ?thesis using False ctx g del prep by auto
    qed
  qed
qed

definition sample_world :: "(u64, ptr list) world" where
  "sample_world =
     \<lparr>w_rts = (\<lambda>r. (rt_new (of_nat (unat r)) \<lparr>rg_uring = 4, rg_submit_batch = 1, rg_maybe_submit_count = 0\<rparr> 61 False)
        \<lparr>rt_ring_enabled := True\<rparr>), w_synced = [], w_app = []\<rparr>"

definition log_invoke :: "ptr \<Rightarrow> ('s, ptr list) world \<Rightarrow> ('s, ptr list) world option" where
  "log_invoke p w = Some (w\<lparr>w_app := w_app w @ [p]\<rparr>)"

definition done_handle :: "ptr \<Rightarrow> cqe \<Rightarrow> ('s, 'a) world \<Rightarrow> (bool \<times> ('s, 'a) world) option" where
  "done_handle p c w = Some (True, w)"

theorem schedule_delivers_witness:
  "\<exists>w' q data g. schedule_internal (uring_count 4) (\<lambda>_. 0) 0x10 0x20 0x100 sample_world = Some (Inr w') \<and>
     sq_prep q = [(''io_uring_prep_msg_ring'', [I 32, U 0, U data, U 0])] \<and>
     ring_queue (uring_count 4 :: u64 rt_uring) q (rt_ring (w_rts sample_world 0x10)) = Some g \<and>
     w' = w_upd 0x10 (\<lambda>x. x\<lparr>rt_ring := g, rt_pending_works := rt_pending_works x + 1\<rparr>) sample_world \<and>
     process_cqe (uring_count 4) log_invoke done_handle 0x20
       \<lparr>cq_user_data = data, cq_res = 0, cq_flags = 0, cq_big = (0, 0)\<rparr> sample_world =
       Some (Inr (sample_world\<lparr>w_app := [0x100]\<rparr>)) \<and>
     process_cqe (uring_count 4) log_invoke done_handle 0x10
       \<lparr>cq_user_data = sq_user_data q, cq_res = 0, cq_flags = 0, cq_big = (0, 0)\<rparr> w' =
       Some (Inr (w_upd 0x10 (\<lambda>x. x\<lparr>rt_ring := g\<rparr>) sample_world))"
proof -
  have 1: "sq_contract (uring_count 4 :: u64 rt_uring) (unat (4 :: u64))" by (rule uring_count_contract) simp_all
  have 2: "\<not> u_sqpoll (uring_count 4 :: u64 rt_uring)" by (simp add: uring_count_def)
  have 3: "aligned8 0x100" "(0x100 :: ptr) \<noteq> nullptr" by (simp_all add: aligned8_def)
  have en: "rt_ring_enabled (w_rts sample_world 0x20)" "rt_ring_fd (w_rts sample_world 0x20) = 32" "w_app sample_world = []"
    by (simp_all add: sample_world_def rt_new_def)
  have d: "((0x10 :: ptr) = 0x20) = False" "((0x10 :: ptr) = nullptr) = False"
    "(\<not> rt_ring_enabled (w_rts sample_world 0x20)) = False" by (simp_all add: en)
  have 4: "\<forall>q :: sqe. 0 \<le> (\<lambda>_. 0 :: i32) q" by simp
  note t = schedule_delivers [OF 1 2 4 3, of "0x10" "0x20" sample_world log_invoke done_handle]
  obtain w' q data where s: "schedule_internal (uring_count 4) (\<lambda>_. 0) 0x10 0x20 0x100 sample_world = Some (Inr w')"
    "sq_prep q = [(''io_uring_prep_msg_ring'', [I 32, U 0, U data, U 0])]"
    and inv: "\<forall>c v. cq_user_data c = data \<longrightarrow> process_cqe (uring_count 4) log_invoke done_handle 0x20 c v = map_option Inr (log_invoke 0x100 v)"
    and g: "\<exists>g. ring_queue (uring_count 4 :: u64 rt_uring) q (rt_ring (w_rts sample_world 0x10)) = Some g \<and>
        w' = w_upd 0x10 (\<lambda>x. x\<lparr>rt_ring := g, rt_pending_works := rt_pending_works x + 1\<rparr>) sample_world \<and>
        (\<forall>c. cq_user_data c = sq_user_data q \<and> 0 \<le> cq_res c \<longrightarrow>
           process_cqe (uring_count 4) log_invoke done_handle 0x10 c w' = Some (Inr (w_upd 0x10 (\<lambda>x. x\<lparr>rt_ring := g\<rparr>) sample_world)))"
    using t unfolding d en(2) if_False by fast
  obtain g where g: "ring_queue (uring_count 4 :: u64 rt_uring) q (rt_ring (w_rts sample_world 0x10)) = Some g"
    "w' = w_upd 0x10 (\<lambda>x. x\<lparr>rt_ring := g, rt_pending_works := rt_pending_works x + 1\<rparr>) sample_world"
    "\<forall>c. cq_user_data c = sq_user_data q \<and> 0 \<le> cq_res c \<longrightarrow>
       process_cqe (uring_count 4) log_invoke done_handle 0x10 c w' = Some (Inr (w_upd 0x10 (\<lambda>x. x\<lparr>rt_ring := g\<rparr>) sample_world))"
    using g by blast
  show ?thesis
  proof (intro exI conjI)
    show "process_cqe (uring_count 4) log_invoke done_handle 0x20
       \<lparr>cq_user_data = data, cq_res = 0, cq_flags = 0, cq_big = (0, 0)\<rparr> sample_world = Some (Inr (sample_world\<lparr>w_app := [0x100]\<rparr>))"
      using inv by (simp add: log_invoke_def en(3))
    show "process_cqe (uring_count 4) log_invoke done_handle 0x10
       \<lparr>cq_user_data = sq_user_data q, cq_res = 0, cq_flags = 0, cq_big = (0, 0)\<rparr> w' =
       Some (Inr (w_upd 0x10 (\<lambda>x. x\<lparr>rt_ring := g\<rparr>) sample_world))"
      using g(3) by simp
  qed (rule s g)+
qed

text \<open>The loop ends only through its exit test.\<close>

lemma run_iteration_exit:
  assumes "run_iteration u invoke handle this w = Some (Inr (False, w'))"
  shows "rt_local_queue (w_rts w' this) = [] \<and> rt_pending_works (w_rts w' this) = 0 \<and> rt_exit_allowed (w_rts w' this)"
proof -
  obtain r where r: "run_tick u invoke handle this w = Some r"
    using assms by (auto simp: run_iteration_def bind_eq_Some_conv)
  with assms obtain w1 where tick: "run_tick u invoke handle this w = Some (Inr w1)"
    by (cases r) (simp_all add: run_iteration_def)
  have it: "(case rt_local_queue (w_rts w1 this) of
      work # rest \<Rightarrow> do {
        w2 \<leftarrow> invoke work (w_upd this (\<lambda>x. x\<lparr>rt_local_queue := rest\<rparr>) w1);
        Some (Inr (True, w2))
      }
    | [] \<Rightarrow>
        if rt_pending_works (w_rts w1 this) = 0 \<and> rt_exit_allowed (w_rts w1 this)
        then Some (Inr (False, w1))
        else do {
          r2 \<leftarrow> flush_ring_wait u invoke handle this w1;
          Some (case r2 of Inl f \<Rightarrow> Inl f | Inr w2 \<Rightarrow> Inr (True, w2))
        }) = Some (Inr (False, w'))"
    using assms tick by (simp add: run_iteration_def)
  have no: "(case r2 of Inl f \<Rightarrow> Inl f | Inr w2 \<Rightarrow> Inr (True, w2)) \<noteq> Inr (False, w')" for r2 :: "('a, 'b) world result"
    by (cases r2) auto
  show ?thesis
    using it by (auto simp: no bind_eq_Some_conv split: list.split_asm if_split_asm)
qed

lemma run_loop_exit:
  assumes "run_loop u invoke handle this w = Some r"
  shows "\<forall>w'. r = Inr w' \<longrightarrow>
     rt_local_queue (w_rts w' this) = [] \<and> rt_pending_works (w_rts w' this) = 0 \<and> rt_exit_allowed (w_rts w' this)"
  using assms
proof (induction rule: run_loop.raw_induct [rotated, consumes 1])
  case (1 loop u invoke handle this w r)
  from 1(2) obtain i where i: "run_iteration u invoke handle this w = Some i"
    by (auto simp: bind_eq_Some_conv)
  show ?case
  proof (cases i)
    case (Inl f)
    with 1(2) i show ?thesis by auto
  next
    case (Inr b)
    show ?thesis
    proof (cases "fst b")
      case True
      with 1(2) i Inr have "loop u invoke handle this (snd b) = Some r" by (simp add: case_prod_beta)
      then show ?thesis by (rule 1(1))
    next
      case False
      with 1(2) i Inr have "r = Inr (snd b)" "run_iteration u invoke handle this w = Some (Inr (False, snd b))"
        by (cases b; simp)+
      with run_iteration_exit show ?thesis by blast
    qed
  qed
qed

text \<open>A ring with nothing to reap leaves the runtime alone.\<close>

lemma flush_ring_idle:
  assumes "\<forall>s. u_peek_cqe u s = (- EAGAIN, s)"
  shows "flush_ring u invoke handle this w = Some (Inr w)"
proof -
  have "ring_reap_completions u f (g, x) = Some (0, g, x)" for f g and x :: "failure option \<times> ('a, 'b) world"
    using assms by (simp add: ring_reap_completions_def)
  then show ?thesis by (simp add: flush_ring_def flush_result_def w_upd_id)
qed

lemma run_tick_idle:
  assumes "\<forall>s. u_peek_cqe u s = (- EAGAIN, s)"
  shows "\<exists>n. run_tick u invoke handle this w = Some (Inr (w_upd this (\<lambda>x. x\<lparr>rt_tick_count := n\<rparr>) w))"
proof (cases "rt_tick_count (w_rts w this) + 1 \<ge> rt_event_interval (w_rts w this)")
  case True
  then have "run_tick u invoke handle this w = Some (Inr (w_upd this (\<lambda>x. x\<lparr>rt_tick_count := 0\<rparr>) w))"
    by (simp add: run_tick_def flush_ring_idle [OF assms] comp_def)
  then show ?thesis by blast
next
  case False
  then have "run_tick u invoke handle this w =
      Some (Inr (w_upd this (\<lambda>x. x\<lparr>rt_tick_count := rt_tick_count x + 1\<rparr>) w))"
    by (simp add: run_tick_def)
  also have "w_upd this (\<lambda>x. x\<lparr>rt_tick_count := rt_tick_count x + 1\<rparr>) w =
      w_upd this (\<lambda>x. x\<lparr>rt_tick_count := rt_tick_count (w_rts w this) + 1\<rparr>) w"
    by (rule w_upd_cong) simp
  finally show ?thesis by blast
qed

text \<open>
  The event loop returns only when it is done: when \<open>run\<close> returns normally, no work is left in
  the local queue, no operation or message is pending, and the exit permission, which the loop
  needed to end, is used up.
\<close>

theorem run_exit_quiet:
  assumes "run u invoke handle this tid enable w = Some (Inr w')"
  shows "rt_local_queue (w_rts w' this) = [] \<and> rt_pending_works (w_rts w' this) = 0 \<and>
    \<not> rt_exit_allowed (w_rts w' this) \<and> rt_tick_count (w_rts w' this) = 0 \<and>
    (\<exists>v. rt_exit_allowed (w_rts v this) \<and> w' = run_end_defers this v)"
proof -
  obtain r where r: "run_begin u invoke handle this tid enable w = Some r"
    using assms by (auto simp: run_def bind_eq_Some_conv)
  with assms obtain w1 where w1: "r = Inr w1" by (cases r) (simp_all add: run_def)
  with assms r obtain r2 where r2: "run_loop u invoke handle this w1 = Some r2"
    by (auto simp: run_def bind_eq_Some_conv)
  with assms r w1 obtain v where v: "r2 = Inr v" by (cases r2) (simp_all add: run_def)
  with assms r w1 r2 have "w' = run_end_defers this v" by (simp add: run_def)
  with run_loop_exit [OF r2] v show ?thesis by (auto simp: run_end_defers_def)
qed

lemma run_returns:
  assumes "run_begin u invoke handle this tid enable w = Some (Inr w1)"
    and "run_loop u invoke handle this w1 = Some (Inr w2)"
  shows "run u invoke handle this tid enable w = Some (Inr (run_end_defers this w2))"
  using assms by (simp add: run_def)

text \<open>Running the works of the queue.\<close>

lemma run_loop_drains:
  assumes idle: "\<forall>s. u_peek_cqe u s = (- EAGAIN, s)"
    and inv: "\<forall>p w. invoke p w = Some (w\<lparr>w_app := f p (w_app w)\<rparr>)"
  shows "rt_local_queue (w_rts w this) = works \<Longrightarrow> rt_pending_works (w_rts w this) = 0 \<Longrightarrow>
    rt_exit_allowed (w_rts w this) \<Longrightarrow>
    \<exists>n. run_loop u invoke handle this w =
      Some (Inr ((w_upd this (\<lambda>x. x\<lparr>rt_local_queue := [], rt_tick_count := n\<rparr>) w)\<lparr>w_app := fold f works (w_app w)\<rparr>))"
proof (induction works arbitrary: w)
  case Nil
  obtain n where n: "run_tick u invoke handle this w = Some (Inr (w_upd this (\<lambda>x. x\<lparr>rt_tick_count := n\<rparr>) w))"
    using run_tick_idle [OF idle] by blast
  have "run_iteration u invoke handle this w = Some (Inr (False, w_upd this (\<lambda>x. x\<lparr>rt_tick_count := n\<rparr>) w))"
    using Nil n by (simp add: run_iteration_def)
  moreover have "(w_upd this (\<lambda>x. x\<lparr>rt_local_queue := [], rt_tick_count := n\<rparr>) w)\<lparr>w_app := w_app w\<rparr> =
      w_upd this (\<lambda>x. x\<lparr>rt_tick_count := n\<rparr>) w"
    using Nil by (cases "w_rts w this") (simp add: w_upd_def)
  ultimately show ?case using Nil by (simp add: run_loop.simps exI [of _ n])
next
  case (Cons work rest)
  obtain n where n: "run_tick u invoke handle this w = Some (Inr (w_upd this (\<lambda>x. x\<lparr>rt_tick_count := n\<rparr>) w))"
    using run_tick_idle [OF idle] by blast
  let ?v = "(w_upd this (\<lambda>x. x\<lparr>rt_tick_count := n, rt_local_queue := rest\<rparr>) w)\<lparr>w_app := f work (w_app w)\<rparr>"
  have it: "run_iteration u invoke handle this w = Some (Inr (True, ?v))"
    using Cons.prems n inv by (simp add: run_iteration_def comp_def)
  obtain m where "run_loop u invoke handle this ?v =
      Some (Inr ((w_upd this (\<lambda>x. x\<lparr>rt_local_queue := [], rt_tick_count := m\<rparr>) ?v)\<lparr>w_app := fold f rest (w_app ?v)\<rparr>))"
    using Cons.IH [of ?v] Cons.prems by auto
  moreover have "(w_upd this (\<lambda>x. x\<lparr>rt_local_queue := [], rt_tick_count := m\<rparr>) ?v)\<lparr>w_app := fold f rest (w_app ?v)\<rparr> =
      (w_upd this (\<lambda>x. x\<lparr>rt_local_queue := [], rt_tick_count := m\<rparr>) w)\<lparr>w_app := fold f (work # rest) (w_app w)\<rparr>"
    by (simp add: w_upd_def)
  ultimately have "run_loop u invoke handle this w = Some (Inr
      ((w_upd this (\<lambda>x. x\<lparr>rt_local_queue := [], rt_tick_count := m\<rparr>) w)\<lparr>w_app := fold f (work # rest) (w_app w)\<rparr>))"
    by (subst run_loop.simps) (simp add: it)
  then show ?case by blast
qed

text \<open>Scheduling several works one after the other.\<close>

primrec schedule_all ::
  "'s rt_uring \<Rightarrow> (sqe \<Rightarrow> i32) \<Rightarrow> ptr \<Rightarrow> ptr \<Rightarrow> ptr list \<Rightarrow> ('s, 'a) world \<Rightarrow> ('s, 'a) world result option" where
  "schedule_all u sync ctx this [] w = Some (Inr w)"
| "schedule_all u sync ctx this (work # works) w = do {
     r \<leftarrow> schedule_internal u sync ctx this work w;
     (case r of Inl f \<Rightarrow> Some (Inl f) | Inr w1 \<Rightarrow> schedule_all u sync ctx this works w1)
   }"

lemma schedule_all_stopped:
  assumes "ctx \<noteq> this"
  shows "\<not> rt_ring_enabled (w_rts w this) \<Longrightarrow> schedule_all u sync ctx this works w =
    Some (Inr (w_upd this (\<lambda>x. x\<lparr>rt_global_queue := rt_global_queue x @ works\<rparr>) w))"
proof (induction works arbitrary: w)
  case Nil
  then show ?case by (simp add: w_upd_id)
next
  case (Cons work works)
  with assms show ?case by (simp add: schedule_internal_def comp_def)
qed

text \<open>
  Works scheduled on a runtime that has not started are executed by its first \<open>run\<close>: each
  exactly once, in the order of scheduling, and \<open>run\<close> returns after the last one when the exit has
  been allowed. The effect of a work on the application state is the function \<open>f\<close>; the ring has no
  completion to deliver.
\<close>

theorem run_executes_scheduled:
  assumes "\<forall>s. u_peek_cqe u s = (- EAGAIN, s)" and "0 \<le> enable"
    and "\<forall>p w. invoke p w = Some (w\<lparr>w_app := f p (w_app w)\<rparr>)"
    and "ctx \<noteq> this" and "w_rts w this = rt_new fd ring event_interval disable_register"
  shows "\<exists>w1 w2 w3. schedule_all u sync ctx this works w = Some (Inr w1) \<and>
    allow_exit u sync ctx this w1 = Some (Inr w2) \<and> run u invoke handle this tid enable w2 = Some (Inr w3) \<and>
    w_app w3 = fold f works (w_app w) \<and>
    w_rts w3 this = (rt_new fd ring event_interval disable_register)\<lparr>rt_run_thread_id := Some tid, rt_ring_enabled := True\<rparr>"
proof -
  let ?w1 = "w_upd this (\<lambda>x. x\<lparr>rt_global_queue := rt_global_queue x @ works\<rparr>) w"
  let ?w2 = "w_upd this (\<lambda>x. x\<lparr>rt_exit_allowed := True\<rparr>) ?w1"
  let ?w = "w_upd this (\<lambda>x. x\<lparr>rt_ring_enabled := True\<rparr>)
      (flush_global_queue this (w_upd this (\<lambda>x. x\<lparr>rt_run_thread_id := Some tid\<rparr>) ?w2))"
  have s: "schedule_all u sync ctx this works w = Some (Inr ?w1)"
    by (rule schedule_all_stopped [OF assms(4)]) (simp add: assms(5) rt_new_def)
  have e: "allow_exit u sync ctx this ?w1 = Some (Inr ?w2)"
    using assms(4,5) by (simp add: allow_exit_def rt_wakeup_def rt_new_def)
  have b: "run_begin u invoke handle this tid enable ?w2 = Some (Inr ?w)"
    using assms(2,5) by (simp add: run_begin_def rt_new_def Let_def comp_def)
  have q: "rt_local_queue (w_rts ?w this) = works" "rt_pending_works (w_rts ?w this) = 0"
    "rt_exit_allowed (w_rts ?w this)" "w_app ?w = w_app w"
    using assms(5) by (simp_all add: flush_global_queue_def rt_new_def)
  obtain n where n: "run_loop u invoke handle this ?w = Some (Inr
      ((w_upd this (\<lambda>x. x\<lparr>rt_local_queue := [], rt_tick_count := n\<rparr>) ?w)\<lparr>w_app := fold f works (w_app ?w)\<rparr>))"
    using run_loop_drains [OF assms(1,3) q(1-3)] by blast
  have "run u invoke handle this tid enable ?w2 = Some (Inr (run_end_defers this
      ((w_upd this (\<lambda>x. x\<lparr>rt_local_queue := [], rt_tick_count := n\<rparr>) ?w)\<lparr>w_app := fold f works (w_app ?w)\<rparr>)))"
    by (rule run_returns [OF b n])
  with s e q(4) show ?thesis
    using assms(5) by (simp add: run_end_defers_def flush_global_queue_def rt_new_def)
qed

definition stopped_world :: "(u64, ptr list) world" where
  "stopped_world =
     \<lparr>w_rts = (\<lambda>r. rt_new 5 \<lparr>rg_uring = 4, rg_submit_batch = 1, rg_maybe_submit_count = 0\<rparr> 61 False),
      w_synced = [], w_app = []\<rparr>"

theorem run_executes_scheduled_witness:
  "\<exists>w1 w2 w3. schedule_all (uring_count 4) (\<lambda>_. 0) nullptr 0x20 [0x100, 0x200] stopped_world = Some (Inr w1) \<and>
    allow_exit (uring_count 4) (\<lambda>_. 0) nullptr 0x20 w1 = Some (Inr w2) \<and>
    run (uring_count 4) log_invoke done_handle 0x20 7 0 w2 = Some (Inr w3) \<and>
    w_app w3 = fold (\<lambda>p a. a @ [p]) [0x100, 0x200] [] \<and>
    w_rts w3 0x20 = (rt_new 5 \<lparr>rg_uring = 4, rg_submit_batch = 1, rg_maybe_submit_count = 0\<rparr> 61 False)
       \<lparr>rt_run_thread_id := Some 7, rt_ring_enabled := True\<rparr>"
  using run_executes_scheduled [of "uring_count 4" 0 log_invoke "\<lambda>p a. a @ [p]" nullptr "0x20" stopped_world 5
      "\<lparr>rg_uring = 4, rg_submit_batch = 1, rg_maybe_submit_count = 0\<rparr>" 61 False "\<lambda>_. 0" "[0x100, 0x200]" done_handle 7]
  by (simp add: uring_count_def log_invoke_def stopped_world_def)

theorem run_exit_quiet_witness:
  "\<exists>w'. run (uring_count 4) log_invoke done_handle 0x20 7 0
        (w_upd 0x20 (\<lambda>x. x\<lparr>rt_exit_allowed := True\<rparr>) stopped_world) = Some (Inr w') \<and>
     rt_local_queue (w_rts w' 0x20) = [] \<and> rt_pending_works (w_rts w' 0x20) = 0 \<and>
    \<not> rt_exit_allowed (w_rts w' 0x20) \<and> rt_tick_count (w_rts w' 0x20) = 0 \<and>
    (\<exists>v. rt_exit_allowed (w_rts v 0x20) \<and> w' = run_end_defers 0x20 v)"
proof -
  let ?w = "w_upd 0x20 (\<lambda>x. x\<lparr>rt_exit_allowed := True\<rparr>) stopped_world"
  have idle: "\<forall>s. u_peek_cqe (uring_count 4 :: u64 rt_uring) s = (- EAGAIN, s)" by (simp add: uring_count_def)
  have inv: "\<forall>p w. log_invoke p w = Some (w\<lparr>w_app := (\<lambda>p a. a @ [p]) p (w_app w)\<rparr>)" by (simp add: log_invoke_def)
  obtain v where b: "run_begin (uring_count 4) log_invoke done_handle 0x20 7 0 ?w = Some (Inr v)"
    and v: "rt_local_queue (w_rts v 0x20) = []" "rt_pending_works (w_rts v 0x20) = 0" "rt_exit_allowed (w_rts v 0x20)"
    by (simp add: run_begin_def stopped_world_def rt_new_def flush_global_queue_def Let_def)
  obtain v2 where l: "run_loop (uring_count 4) log_invoke done_handle 0x20 v = Some (Inr v2)"
    using run_loop_drains [OF idle inv v] by blast
  have "run (uring_count 4) log_invoke done_handle 0x20 7 0 ?w = Some (Inr (run_end_defers 0x20 v2))"
    by (rule run_returns [OF b l])
  with run_exit_quiet [OF this] show ?thesis by blast
qed

end
