(* ===== verification/Runtime_Sched.thy ===== *)
theory Runtime_Sched
  imports Runtime
begin

text \<open>
  \<open>Runtime::schedule_internal\<close> in several threads against \<open>Runtime::run\<close>: the interleavings of the
  accesses to \<open>ring_enabled_\<close>, \<open>mutex_\<close> and \<open>global_queue_\<close>, the messages between the rings, and the
  event loop with its exit. The first load of the flag is relaxed and outside the mutex, so it may miss
  a store that has been made; the second is under the mutex and cannot. Any number of calls may be in
  progress, and \<open>run\<close> may be called again after it has returned or thrown.
\<close>

section \<open>State\<close>

text \<open>Where a call of \<open>schedule_internal\<close> from another thread is.\<close>

datatype sched_pc =
    Sc_load ptr    \<comment> \<open>before the relaxed load\<close>
  | Sc_lock ptr    \<comment> \<open>before taking the mutex\<close>
  | Sc_locked ptr  \<comment> \<open>the mutex is taken\<close>
  | Sc_unlock      \<comment> \<open>the work is in the global queue, the mutex still taken\<close>
  | Sc_send ptr    \<comment> \<open>before \<open>schedule_msg_ring_\<close>\<close>
  | Sc_done

text \<open>
  Where \<open>run\<close> is. \<open>Rn_failed\<close> is the exception of a ring that cannot be enabled; \<open>Rn_reap\<close> the loop over
  the completions, in \<open>flush_ring_wait_\<close> (\<open>True\<close>) or \<open>flush_ring_\<close>.
\<close>

datatype run_pc = Rn_begin | Rn_failed | Rn_lock | Rn_locked | Rn_flushed | Rn_unlock
  | Rn_loop | Rn_reap bool | Rn_pop | Rn_test | Rn_wait | Rn_ended

text \<open>Completions: a scheduled work, a wake-up of \<open>allow_exit\<close>, the end of a pending operation.\<close>

datatype completion = Cq_work ptr | Cq_wake | Cq_op

record sched =
  sc_flag :: bool
  sc_mutex :: bool
  sc_global :: "ptr list"
  sc_local :: "ptr list"
  sc_rings :: bool
  sc_queued :: "ptr list"       \<comment> \<open>messages in the submission queues of the callers' runtimes\<close>
  sc_cq :: "completion list"
  sc_pending :: nat
  sc_exit :: bool
  sc_runner :: run_pc
  sc_calls :: "sched_pc list"
  sc_called :: "ptr list"
  sc_executed :: "ptr list"
  sc_refused :: bool

definition sched_init :: sched where
  "sched_init = \<lparr>sc_flag = False, sc_mutex = False, sc_global = [], sc_local = [], sc_rings = False,
     sc_queued = [], sc_cq = [], sc_pending = 0, sc_exit = False, sc_runner = Rn_begin, sc_calls = [],
     sc_called = [], sc_executed = [], sc_refused = False\<rparr>"

section \<open>Steps\<close>

text \<open>
  The kernel delivers a message. A message to a ring that has not been enabled is refused
  (\<open>sc_refused\<close>), which makes the code panic.
\<close>

definition deliver :: "ptr \<Rightarrow> sched \<Rightarrow> sched" where
  "deliver work s = (if sc_rings s then s\<lparr>sc_cq := sc_cq s @ [Cq_work work]\<rparr> else s\<lparr>sc_refused := True\<rparr>)"

text \<open>
  One step of a call; \<open>stale\<close> lets the relaxed load miss the store. A caller that is in a runtime
  (\<open>in_rt\<close>) queues the message on the ring of its own runtime, any other sends it at once.
\<close>

fun sched_step :: "bool \<Rightarrow> bool \<Rightarrow> sched_pc \<Rightarrow> sched \<Rightarrow> (sched_pc \<times> sched) option" where
  "sched_step in_rt stale (Sc_load work) s =
     (if sc_flag s \<and> \<not> stale then Some (Sc_send work, s) else Some (Sc_lock work, s))"
| "sched_step in_rt stale (Sc_lock work) s =
     (if sc_mutex s then None else Some (Sc_locked work, s\<lparr>sc_mutex := True\<rparr>))"
| "sched_step in_rt stale (Sc_locked work) s =
     (if sc_flag s then Some (Sc_send work, s\<lparr>sc_mutex := False\<rparr>)
      else Some (Sc_unlock, s\<lparr>sc_global := sc_global s @ [work]\<rparr>))"
| "sched_step in_rt stale Sc_unlock s = Some (Sc_done, s\<lparr>sc_mutex := False\<rparr>)"
| "sched_step in_rt stale (Sc_send work) s =
     Some (Sc_done, if in_rt then s\<lparr>sc_queued := sc_queued s @ [work]\<rparr> else deliver work s)"
| "sched_step in_rt stale Sc_done s = None"

text \<open>\<open>process_cqe_\<close>, as far as these completions are concerned.\<close>

primrec process :: "completion \<Rightarrow> sched \<Rightarrow> sched" where
  "process (Cq_work work) s = s\<lparr>sc_executed := sc_executed s @ [work]\<rparr>"
| "process Cq_wake s = s"
| "process Cq_op s = s\<lparr>sc_pending := sc_pending s - 1\<rparr>"

text \<open>
  One step of \<open>run\<close>. The choice \<open>c\<close> is the success of \<open>io_uring_enable_rings\<close>, and in the loop whether
  \<open>tick_count_\<close> has reached the interval.
\<close>

fun runner_step :: "bool \<Rightarrow> run_pc \<Rightarrow> sched \<Rightarrow> (run_pc \<times> sched) option" where
  "runner_step c Rn_begin s = Some (if c then (Rn_lock, s\<lparr>sc_rings := True\<rparr>) else (Rn_failed, s))"
| "runner_step c Rn_failed s = None"
| "runner_step c Rn_lock s = (if sc_mutex s then None else Some (Rn_locked, s\<lparr>sc_mutex := True\<rparr>))"
| "runner_step c Rn_locked s =
     Some (Rn_flushed, s\<lparr>sc_local := sc_local s @ sc_global s, sc_global := []\<rparr>)"
| "runner_step c Rn_flushed s = Some (Rn_unlock, s\<lparr>sc_flag := True\<rparr>)"
| "runner_step c Rn_unlock s = Some (Rn_loop, s\<lparr>sc_mutex := False\<rparr>)"
| "runner_step c Rn_loop s = Some (if c then Rn_reap False else Rn_pop, s)"
| "runner_step c (Rn_reap waited) s =
     (case sc_cq s of
        [] \<Rightarrow> Some (if waited then Rn_loop else Rn_pop, s)
      | x # xs \<Rightarrow> Some (Rn_reap waited, process x (s\<lparr>sc_cq := xs\<rparr>)))"
| "runner_step c Rn_pop s =
     (case sc_local s of
        [] \<Rightarrow> Some (Rn_test, s)
      | work # rest \<Rightarrow> Some (Rn_loop, s\<lparr>sc_local := rest, sc_executed := sc_executed s @ [work]\<rparr>))"
| "runner_step c Rn_test s =
     Some (if sc_pending s = 0 \<and> sc_exit s then (Rn_ended, s\<lparr>sc_exit := False\<rparr>) else (Rn_wait, s))"
| "runner_step c Rn_wait s =
     (case sc_cq s of
        [] \<Rightarrow> None
      | x # xs \<Rightarrow> Some (Rn_reap True, process x (s\<lparr>sc_cq := xs\<rparr>)))"
| "runner_step c Rn_ended s = None"

text \<open>The places where the loop runs works and handles of operations.\<close>

definition running :: "run_pc \<Rightarrow> bool" where
  "running pc \<longleftrightarrow> pc \<in> {Rn_loop, Rn_reap False, Rn_reap True}"

text \<open>
  The steps of what is already there: the calls, the submissions of the callers' runtimes, whose loops
  do not end before, and \<open>run\<close>.
\<close>

inductive sched_work :: "sched \<Rightarrow> sched \<Rightarrow> bool" where
  caller: "i < length (sc_calls s) \<Longrightarrow> sched_step in_rt stale (sc_calls s ! i) s = Some (pc, s') \<Longrightarrow>
    sched_work s (s'\<lparr>sc_calls := (sc_calls s)[i := pc]\<rparr>)"
| submit: "sc_queued s = ws @ work # ws' \<Longrightarrow> sched_work s (deliver work (s\<lparr>sc_queued := ws @ ws'\<rparr>))"
| runner: "runner_step c (sc_runner s) s = Some (pc, s') \<Longrightarrow> sched_work s (s'\<lparr>sc_runner := pc\<rparr>)"

text \<open>
  The steps of the system. Others call \<open>schedule_internal\<close> and \<open>allow_exit\<close>, whose wake-up is sent or not
  according to what it loads; what runs in the loop schedules works on its own runtime and starts
  operations, which the kernel completes; and \<open>run\<close> is called again.
\<close>

inductive sched_sys :: "sched \<Rightarrow> sched \<Rightarrow> bool" where
  work: "sched_work s s' \<Longrightarrow> sched_sys s s'"
| call: "sched_sys s (s\<lparr>sc_calls := sc_calls s @ [Sc_load work], sc_called := sc_called s @ [work]\<rparr>)"
| call_own: "running (sc_runner s) \<Longrightarrow>
    sched_sys s (s\<lparr>sc_local := sc_local s @ [work], sc_called := sc_called s @ [work]\<rparr>)"
| pend: "running (sc_runner s) \<Longrightarrow> sched_sys s (s\<lparr>sc_pending := sc_pending s + 1\<rparr>)"
| complete: "count_list (sc_cq s) Cq_op < sc_pending s \<Longrightarrow> sched_sys s (s\<lparr>sc_cq := sc_cq s @ [Cq_op]\<rparr>)"
| allow_exit: "sched_sys s (s\<lparr>sc_exit := True, sc_cq := sc_cq s @ (if sc_flag s \<and> w then [Cq_wake] else [])\<rparr>)"
| again: "sc_runner s = Rn_ended \<Longrightarrow> sched_sys s (s\<lparr>sc_runner := Rn_reap True\<rparr>)"
| retry: "sc_runner s = Rn_failed \<Longrightarrow> sched_sys s (s\<lparr>sc_runner := Rn_begin\<rparr>)"

section \<open>Invariant\<close>

primrec pc_works :: "sched_pc \<Rightarrow> ptr multiset" where
  "pc_works (Sc_load w) = {#w#}"
| "pc_works (Sc_lock w) = {#w#}"
| "pc_works (Sc_locked w) = {#w#}"
| "pc_works (Sc_send w) = {#w#}"
| "pc_works Sc_unlock = {#}"
| "pc_works Sc_done = {#}"

definition in_calls :: "sched_pc list \<Rightarrow> ptr multiset" where
  "in_calls pcs = sum_list (map pc_works pcs)"

primrec cq_works :: "completion list \<Rightarrow> ptr list" where
  "cq_works [] = []"
| "cq_works (x # xs) = (case x of Cq_work w \<Rightarrow> w # cq_works xs | _ \<Rightarrow> cq_works xs)"

fun pc_holds :: "sched_pc \<Rightarrow> nat" where
  "pc_holds (Sc_locked w) = 1"
| "pc_holds Sc_unlock = 1"
| "pc_holds pc = 0"

definition runner_holds :: "run_pc \<Rightarrow> nat" where
  "runner_holds pc = (if pc \<in> {Rn_locked, Rn_flushed, Rn_unlock} then 1 else 0)"

definition conserved :: "sched \<Rightarrow> bool" where
  "conserved s \<longleftrightarrow> mset (sc_called s) =
     in_calls (sc_calls s) + mset (sc_global s) + mset (sc_local s) + mset (sc_queued s) + mset (cq_works (sc_cq s)) +
     mset (sc_executed s)"

definition mutex_ok :: "sched \<Rightarrow> bool" where
  "mutex_ok s \<longleftrightarrow>
     sum_list (map pc_holds (sc_calls s)) + runner_holds (sc_runner s) = (if sc_mutex s then 1 else 0)"

text \<open>\<open>before\<close>: \<open>run\<close> has not taken over the global queue yet.\<close>

definition before :: "run_pc \<Rightarrow> bool" where
  "before pc \<longleftrightarrow> pc \<in> {Rn_begin, Rn_failed, Rn_lock, Rn_locked}"

definition phase_ok :: "sched \<Rightarrow> bool" where
  "phase_ok s \<longleftrightarrow>
     (sc_flag s \<longleftrightarrow> \<not> before (sc_runner s) \<and> sc_runner s \<noteq> Rn_flushed) \<and>
     (sc_rings s \<longleftrightarrow> sc_runner s \<notin> {Rn_begin, Rn_failed}) \<and>
     (\<not> before (sc_runner s) \<longrightarrow> sc_global s = []) \<and>
     (before (sc_runner s) \<longrightarrow> sc_local s = [] \<and> sc_executed s = [] \<and> cq_works (sc_cq s) = []) \<and>
     (\<not> sc_flag s \<longrightarrow> sc_queued s = [] \<and> (\<forall>w. Sc_send w \<notin> set (sc_calls s))) \<and>
     (sc_runner s \<in> {Rn_test, Rn_wait, Rn_ended} \<longrightarrow> sc_local s = []) \<and> \<not> sc_refused s"

definition sched_inv :: "sched \<Rightarrow> bool" where
  "sched_inv s \<longleftrightarrow> conserved s \<and> mutex_ok s \<and> phase_ok s"

section \<open>Lemmas\<close>

lemma in_calls_simps [simp]:
  "in_calls [] = {#}" "in_calls (pc # pcs) = pc_works pc + in_calls pcs"
  "in_calls (pcs @ qs) = in_calls pcs + in_calls qs"
  by (simp_all add: in_calls_def)

lemma cq_works_append [simp]: "cq_works (xs @ ys) = cq_works xs @ cq_works ys"
  by (induction xs) (simp_all split: completion.split)

lemma sum_list_update_add:
  fixes f :: "'a \<Rightarrow> 'b :: comm_monoid_add"
  assumes "i < length xs"
  shows "sum_list (map f (xs[i := y])) + f (xs ! i) = sum_list (map f xs) + f y"
  using assms
proof (induction xs arbitrary: i)
  case (Cons x xs)
  then show ?case by (cases i) (simp_all add: ac_simps)
qed simp

lemma in_calls_update:
  assumes "i < length pcs"
  shows "in_calls (pcs[i := pc]) + pc_works (pcs ! i) = in_calls pcs + pc_works pc"
  unfolding in_calls_def by (rule sum_list_update_add [OF assms])

lemmas holds_update = sum_list_update_add [where f = pc_holds]

text \<open>A thread that holds the mutex is the only one.\<close>

lemma holder_alone:
  assumes "mutex_ok s" and "i < length (sc_calls s)" and "pc_holds (sc_calls s ! i) = 1"
  shows "sc_mutex s \<and> runner_holds (sc_runner s) = 0"
proof -
  have "pc_holds (sc_calls s ! i) \<le> sum_list (map pc_holds (sc_calls s))"
    by (rule member_le_sum_list) (use assms(2) in auto)
  with assms show ?thesis by (auto simp: mutex_ok_def split: if_splits)
qed

lemma set_update_cases: "x \<in> set (xs[i := y]) \<Longrightarrow> x = y \<or> x \<in> set xs"
  using set_update_subset_insert [of xs i y] by blast

text \<open>The works that a call puts somewhere.\<close>

abbreviation placed :: "sched \<Rightarrow> ptr multiset" where
  "placed s \<equiv> mset (sc_global s) + mset (sc_queued s) + mset (cq_works (sc_cq s))"

lemma sched_step_moves:
  assumes "sched_step in_rt stale pc0 s = Some (pc, s')" and "\<not> sc_refused s'"
  shows "pc_works pc + placed s' = pc_works pc0 + placed s"
    and "sc_local s' = sc_local s" and "sc_executed s' = sc_executed s" and "sc_called s' = sc_called s"
  using assms by (cases pc0; auto simp: deliver_def split: if_split_asm)+

lemma caller_conserved:
  assumes "conserved s" and "i < length (sc_calls s)" and "sched_step in_rt stale (sc_calls s ! i) s = Some (pc, s')"
    and "\<not> sc_refused s'"
  shows "conserved (s'\<lparr>sc_calls := (sc_calls s)[i := pc]\<rparr>)"
proof -
  note moves = sched_step_moves [OF assms(3,4)]
  let ?rest = "mset (sc_local s) + mset (sc_executed s)"
  have "mset (sc_called s) + pc_works (sc_calls s ! i) =
      in_calls (sc_calls s) + ?rest + (pc_works (sc_calls s ! i) + placed s)"
    using assms(1) by (simp add: conserved_def ac_simps)
  also have "\<dots> = (in_calls (sc_calls s) + pc_works pc) + ?rest + placed s'"
    unfolding moves(1) [symmetric] by (simp add: ac_simps)
  also have "\<dots> = (in_calls ((sc_calls s)[i := pc]) + ?rest + placed s') + pc_works (sc_calls s ! i)"
    unfolding in_calls_update [OF assms(2), symmetric] by (simp add: ac_simps)
  finally have "mset (sc_called s) = in_calls ((sc_calls s)[i := pc]) + ?rest + placed s'"
    by (rule add_right_imp_eq)
  then show ?thesis by (simp add: conserved_def moves(2-4) ac_simps)
qed

lemma caller_mutex:
  assumes "mutex_ok s" and "i < length (sc_calls s)" and "sched_step in_rt stale (sc_calls s ! i) s = Some (pc, s')"
  shows "mutex_ok (s'\<lparr>sc_calls := (sc_calls s)[i := pc]\<rparr>)"
  using assms(1,3) holds_update [OF assms(2), of pc] holder_alone [OF assms(1,2)]
  by (cases "sc_calls s ! i") (auto simp: mutex_ok_def deliver_def split: if_splits)

lemma sched_step_phase:
  assumes "sched_step in_rt stale pc0 s = Some (pc, s')"
  shows "sc_flag s' = sc_flag s" "sc_rings s' = sc_rings s" "sc_runner s' = sc_runner s"
    "sc_local s' = sc_local s" "sc_executed s' = sc_executed s"
    and "pc = Sc_send w \<Longrightarrow> sc_flag s" and "sc_global s' \<noteq> sc_global s \<Longrightarrow> pc_holds pc0 = 1 \<and> \<not> sc_flag s"
    and "sc_refused s' \<Longrightarrow> sc_refused s \<or> (\<exists>w. pc0 = Sc_send w \<and> \<not> sc_rings s)"
    and "sc_queued s' \<noteq> sc_queued s \<or> sc_cq s' \<noteq> sc_cq s \<Longrightarrow> \<exists>w. pc0 = Sc_send w"
  using assms by (cases pc0; auto simp: deliver_def split: if_split_asm)+

lemma caller_phase:
  assumes "phase_ok s" and "mutex_ok s" and i: "i < length (sc_calls s)"
    and "sched_step in_rt stale (sc_calls s ! i) s = Some (pc, s')"
  shows "phase_ok (s'\<lparr>sc_calls := (sc_calls s)[i := pc]\<rparr>)"
proof -
  note ph = assms(1) [unfolded phase_ok_def] and st = sched_step_phase [OF assms(4)]
  have mem: "sc_calls s ! i \<in> set (sc_calls s)" using i by simp
  have send: "Sc_send w \<notin> set ((sc_calls s)[i := pc])" if "\<not> sc_flag s" for w
    using ph that st(6) [of w] set_update_cases [of "Sc_send w" "sc_calls s" i pc] by metis
  have fl: "sc_flag s" if "sc_calls s ! i = Sc_send w" for w
    using ph that mem by metis
  have ref: "\<not> sc_refused s'"
    using st(8) ph fl by (metis before_def insert_iff)
  have same: "sc_queued s' = sc_queued s \<and> sc_cq s' = sc_cq s" if "\<not> sc_flag s" using st(9) fl that by blast
  have glob: "sc_global s' = []" if "\<not> before (sc_runner s)"
  proof (rule ccontr)
    assume "sc_global s' \<noteq> []"
    with ph that have "sc_global s' \<noteq> sc_global s" by auto
    from st(7) [OF this] have "pc_holds (sc_calls s ! i) = 1" "\<not> sc_flag s" by simp_all
    with holder_alone [OF assms(2) i] that ph show False by (auto simp: runner_holds_def)
  qed
  show ?thesis
    unfolding phase_ok_def using ph send ref glob same by (simp add: st(1-5))
qed

lemma process_sel [simp]:
  "sc_flag (process x s) = sc_flag s" "sc_mutex (process x s) = sc_mutex s" "sc_global (process x s) = sc_global s"
  "sc_local (process x s) = sc_local s" "sc_rings (process x s) = sc_rings s" "sc_queued (process x s) = sc_queued s"
  "sc_cq (process x s) = sc_cq s" "sc_runner (process x s) = sc_runner s" "sc_calls (process x s) = sc_calls s"
  "sc_called (process x s) = sc_called s" "sc_refused (process x s) = sc_refused s" "sc_exit (process x s) = sc_exit s"
  "sc_executed (process x s) = sc_executed s @ cq_works [x]"
  by (cases x; simp)+

lemma cq_works_Cons: "mset (cq_works (x # xs)) = mset (cq_works [x]) + mset (cq_works xs)"
  by (simp split: completion.split)

lemmas inv_defs = sched_inv_def conserved_def mutex_ok_def phase_ok_def runner_holds_def before_def

lemma reaped_inv:
  assumes "sched_inv s" and "sc_cq s = x # xs" and "\<not> before (sc_runner s)"
    and "\<not> before pc" and "runner_holds pc = runner_holds (sc_runner s)" and "pc \<noteq> Rn_flushed" "sc_runner s \<noteq> Rn_flushed"
    and "pc \<notin> {Rn_test, Rn_wait, Rn_ended}"
  shows "sched_inv ((process x (s\<lparr>sc_cq := xs\<rparr>))\<lparr>sc_runner := pc\<rparr>)"
  using assms cq_works_Cons [of x xs]
  by (simp add: sched_inv_def conserved_def mutex_ok_def phase_ok_def del: cq_works.simps) (auto simp: before_def ac_simps)

lemma runner_keeps:
  assumes "sched_inv s" and "runner_step c (sc_runner s) s = Some (pc, s')"
  shows "sched_inv (s'\<lparr>sc_runner := pc\<rparr>)"
proof (cases "sc_runner s")
  case (Rn_reap waited)
  show ?thesis
  proof (cases "sc_cq s")
    case Nil
    then show ?thesis using assms Rn_reap by (auto simp: inv_defs split: if_splits)
  next
    case (Cons x xs)
    then have "s' = process x (s\<lparr>sc_cq := xs\<rparr>)" "pc = Rn_reap waited" using assms(2) Rn_reap by simp_all
    then show ?thesis using reaped_inv [OF assms(1) Cons, of pc] Rn_reap by (simp add: before_def runner_holds_def)
  qed
next
  case Rn_wait
  then obtain x xs where x: "sc_cq s = x # xs" using assms(2) by (auto split: list.splits)
  then have "s' = process x (s\<lparr>sc_cq := xs\<rparr>)" "pc = Rn_reap True" using assms(2) Rn_wait by simp_all
  then show ?thesis using reaped_inv [OF assms(1) x, of pc] Rn_wait by (simp add: before_def runner_holds_def)
next
  case Rn_pop
  show ?thesis
  proof (cases "sc_local s")
    case Nil
    then show ?thesis using assms Rn_pop by (simp add: inv_defs)
  next
    case (Cons work rest)
    then have "s' = s\<lparr>sc_local := rest, sc_executed := sc_executed s @ [work]\<rparr>" "pc = Rn_loop" using assms(2) Rn_pop by simp_all
    then show ?thesis using assms(1) Rn_pop Cons by (simp add: inv_defs)
  qed
next
  case Rn_begin
  show ?thesis
  proof (cases c)
    case True
    then have "s' = s\<lparr>sc_rings := True\<rparr>" "pc = Rn_lock" using assms(2) Rn_begin by simp_all
    then show ?thesis using assms(1) Rn_begin by (simp add: inv_defs)
  next
    case False
    then have "s' = s" "pc = Rn_failed" using assms(2) Rn_begin by simp_all
    then show ?thesis using assms(1) Rn_begin by (simp add: inv_defs)
  qed
next
  case Rn_lock
  then have "s' = s\<lparr>sc_mutex := True\<rparr>" "pc = Rn_locked" "\<not> sc_mutex s" using assms(2) by (simp_all split: if_splits)
  then show ?thesis using assms(1) Rn_lock by (simp add: inv_defs)
next
  case Rn_locked
  then have "s' = s\<lparr>sc_local := sc_local s @ sc_global s, sc_global := []\<rparr>" "pc = Rn_flushed" using assms(2) by simp_all
  then show ?thesis using assms(1) Rn_locked by (simp add: inv_defs)
next
  case Rn_flushed
  then have "s' = s\<lparr>sc_flag := True\<rparr>" "pc = Rn_unlock" using assms(2) by simp_all
  then show ?thesis using assms(1) Rn_flushed by (simp add: inv_defs)
next
  case Rn_unlock
  then have "s' = s\<lparr>sc_mutex := False\<rparr>" "pc = Rn_loop" using assms(2) by simp_all
  then show ?thesis using assms(1) Rn_unlock by (simp add: inv_defs split: if_splits)
next
  case Rn_loop
  then have "s' = s" "pc = (if c then Rn_reap False else Rn_pop)" using assms(2) by simp_all
  then show ?thesis using assms(1) Rn_loop by (cases c) (simp_all add: inv_defs)
next
  case Rn_test
  show ?thesis
  proof (cases "sc_pending s = 0 \<and> sc_exit s")
    case True
    then have "s' = s\<lparr>sc_exit := False\<rparr>" "pc = Rn_ended" using assms(2) Rn_test by simp_all
    then show ?thesis using assms(1) Rn_test by (simp add: inv_defs)
  next
    case False
    then have "s' = s" "pc = Rn_wait" using assms(2) Rn_test by (simp_all split: if_splits)
    then show ?thesis using assms(1) Rn_test by (simp add: inv_defs)
  qed
qed (use assms in simp_all)

lemma submit_keeps:
  assumes "sched_inv s" and "sc_queued s = ws @ work # ws'"
  shows "sched_inv (deliver work (s\<lparr>sc_queued := ws @ ws'\<rparr>))"
proof -
  have "sc_flag s" using assms by (auto simp: sched_inv_def phase_ok_def)
  then have "sc_rings s" "\<not> before (sc_runner s)" using assms(1) by (auto simp: sched_inv_def phase_ok_def before_def)
  then have "deliver work (s\<lparr>sc_queued := ws @ ws'\<rparr>) = s\<lparr>sc_queued := ws @ ws', sc_cq := sc_cq s @ [Cq_work work]\<rparr>"
    by (simp add: deliver_def)
  then show ?thesis
    using assms \<open>sc_flag s\<close> \<open>\<not> before (sc_runner s)\<close> by (simp add: sched_inv_def conserved_def mutex_ok_def phase_ok_def)
qed

lemma sched_work_keeps:
  assumes "sched_work s s'" and "sched_inv s"
  shows "sched_inv s'"
  using assms
proof (induction rule: sched_work.induct)
  case (caller i s in_rt stale pc s')
  then have inv: "conserved s" "mutex_ok s" "phase_ok s" by (simp_all add: sched_inv_def)
  note phase = caller_phase [OF inv(3,2) caller(1,2)]
  then have "\<not> sc_refused s'" by (simp add: phase_ok_def)
  from caller_conserved [OF inv(1) caller(1,2) this] caller_mutex [OF inv(2) caller(1,2)] phase
  show ?case by (simp add: sched_inv_def)
next
  case (submit s ws work ws')
  then show ?case by (intro submit_keeps)
next
  case (runner c s pc s')
  then show ?case by (intro runner_keeps)
qed

lemma sched_sys_keeps:
  assumes "sched_sys s s'" and "sched_inv s"
  shows "sched_inv s'"
  using assms
proof (induction rule: sched_sys.induct)
  case (work s s')
  then show ?case by (rule sched_work_keeps)
next
  case (call s work)
  then show ?case by (simp add: sched_inv_def conserved_def mutex_ok_def phase_ok_def)
next
  case (call_own s work)
  then have "\<not> before (sc_runner s)" "sc_runner s \<notin> {Rn_test, Rn_wait, Rn_ended}" by (auto simp: running_def before_def)
  with call_own(2) show ?case by (simp add: sched_inv_def conserved_def mutex_ok_def phase_ok_def)
next
  case (pend s)
  then show ?case by (simp add: sched_inv_def conserved_def mutex_ok_def phase_ok_def)
next
  case (complete s)
  then show ?case by (simp add: sched_inv_def conserved_def mutex_ok_def phase_ok_def)
next
  case (allow_exit s w)
  then show ?case by (cases "sc_flag s \<and> w") (simp_all add: sched_inv_def conserved_def mutex_ok_def phase_ok_def)
next
  case (again s)
  then show ?case by (simp add: inv_defs)
next
  case (retry s)
  then show ?case by (simp add: inv_defs)
qed

lemma sched_init_inv: "sched_inv sched_init"
  by (simp add: inv_defs sched_init_def)

lemma reachable_inv: "sched_sys\<^sup>*\<^sup>* sched_init s \<Longrightarrow> sched_inv s"
  by (induction rule: rtranclp_induct) (auto simp: sched_init_inv intro: sched_sys_keeps)

section \<open>Properties\<close>

text \<open>
  C4. No work is lost or duplicated around a runtime, for every interleaving of any number of concurrent
  calls with the start of \<open>run\<close>, its event loop, its end and its next call: every work that was scheduled
  is at exactly one place (its call, the global queue, the local queue, a message that is queued or
  delivered, executed). No message goes to a ring that is not enabled, and once the loop runs nothing is
  left behind in the global queue.
\<close>

theorem no_work_lost:
  assumes "sched_sys\<^sup>*\<^sup>* sched_init s"
  shows "mset (sc_called s) = in_calls (sc_calls s) + mset (sc_global s) + mset (sc_local s) +
      mset (sc_queued s) + mset (cq_works (sc_cq s)) + mset (sc_executed s) \<and>
    \<not> sc_refused s \<and> (\<not> before (sc_runner s) \<longrightarrow> sc_global s = [])"
  using reachable_inv [OF assms] by (simp add: sched_inv_def conserved_def phase_ok_def)

text \<open>A run in which a call misses the store of the flag and then finds it under the mutex.\<close>

definition late_state :: sched where
  "late_state = sched_init\<lparr>sc_flag := True, sc_rings := True, sc_runner := Rn_loop, sc_cq := [Cq_work 0x100],
     sc_calls := [Sc_done], sc_called := [0x100]\<rparr>"

lemma late_state_reachable: "sched_sys\<^sup>*\<^sup>* sched_init late_state"
proof -
  note w = sched_sys.work [OF sched_work.runner] and v = sched_sys.work [OF sched_work.caller]
  let ?a = "sched_init\<lparr>sc_calls := [Sc_load 0x100], sc_called := [0x100]\<rparr>"
  have 1: "sched_sys sched_init ?a" using sched_sys.call [of sched_init "0x100"] by (simp add: sched_init_def)
  let ?b = "?a\<lparr>sc_rings := True, sc_runner := Rn_lock\<rparr>"
  have 2: "sched_sys ?a ?b" using w [of True ?a Rn_lock] by (simp add: sched_init_def)
  let ?c = "?b\<lparr>sc_mutex := True, sc_runner := Rn_locked\<rparr>"
  have 3: "sched_sys ?b ?c" using w [of True ?b Rn_locked] by (simp add: sched_init_def)
  let ?d = "?c\<lparr>sc_runner := Rn_flushed\<rparr>"
  have 4: "sched_sys ?c ?d" using w [of True ?c Rn_flushed] by (simp add: sched_init_def)
  let ?e = "?d\<lparr>sc_flag := True, sc_runner := Rn_unlock\<rparr>"
  have 5: "sched_sys ?d ?e" using w [of True ?d Rn_unlock] by (simp add: sched_init_def)
  let ?f = "?e\<lparr>sc_mutex := False, sc_runner := Rn_loop\<rparr>"
  have 6: "sched_sys ?e ?f" using w [of True ?e Rn_loop] by (simp add: sched_init_def)
  let ?g = "?f\<lparr>sc_calls := [Sc_lock 0x100]\<rparr>"
  have 7: "sched_sys ?f ?g" using v [of 0 ?f False True "Sc_lock 0x100"] by (simp add: sched_init_def)
  let ?h = "?g\<lparr>sc_mutex := True, sc_calls := [Sc_locked 0x100]\<rparr>"
  have 8: "sched_sys ?g ?h" using v [of 0 ?g False True "Sc_locked 0x100"] by (simp add: sched_init_def)
  let ?i = "?h\<lparr>sc_mutex := False, sc_calls := [Sc_send 0x100]\<rparr>"
  have 9: "sched_sys ?h ?i" using v [of 0 ?h False True "Sc_send 0x100"] by (simp add: sched_init_def)
  have 10: "sched_sys ?i late_state"
    using v [of 0 ?i False True Sc_done] by (simp add: sched_init_def late_state_def deliver_def)
  show ?thesis
    using 1 2 3 4 5 6 7 8 9 10 by (meson rtranclp.rtrancl_into_rtrancl rtranclp.rtrancl_refl)
qed

theorem no_work_lost_witness:
  "mset (sc_called late_state) = in_calls (sc_calls late_state) + mset (sc_global late_state) +
     mset (sc_local late_state) + mset (sc_queued late_state) + mset (cq_works (sc_cq late_state)) +
     mset (sc_executed late_state) \<and>
    \<not> sc_refused late_state \<and> sc_runner late_state = Rn_loop \<and> sc_global late_state = []"
  using no_work_lost [OF late_state_reachable] by (simp add: late_state_def)

section \<open>What becomes of every scheduled work\<close>

fun pc_rank :: "sched_pc \<Rightarrow> nat" where
  "pc_rank (Sc_load w) = 16"
| "pc_rank (Sc_lock w) = 15"
| "pc_rank (Sc_locked w) = 14"
| "pc_rank (Sc_send w) = 12"
| "pc_rank Sc_unlock = 1"
| "pc_rank Sc_done = 0"

fun runner_rank :: "run_pc \<Rightarrow> nat" where
  "runner_rank Rn_begin = 12"
| "runner_rank Rn_lock = 11"
| "runner_rank Rn_locked = 10"
| "runner_rank Rn_flushed = 9"
| "runner_rank Rn_unlock = 8"
| "runner_rank (Rn_reap waited) = (if waited then 6 else 4)"
| "runner_rank Rn_loop = 5"
| "runner_rank Rn_pop = 3"
| "runner_rank Rn_test = 2"
| "runner_rank Rn_wait = 1"
| "runner_rank Rn_ended = 0"
| "runner_rank Rn_failed = 0"

text \<open>A work weighs more than the steps of one round of the loop.\<close>

definition load :: "sched \<Rightarrow> nat" where
  "load s = 11 * length (sc_global s) + 11 * length (sc_queued s) + 10 * length (sc_cq s)"

definition sched_rank :: "sched \<Rightarrow> nat" where
  "sched_rank s = sum_list (map pc_rank (sc_calls s)) + runner_rank (sc_runner s) + load s + 10 * length (sc_local s)"

lemma sched_step_rank:
  assumes "sched_step in_rt stale pc0 s = Some (pc, s')"
  shows "pc_rank pc + load s' < pc_rank pc0 + load s"
    and "sc_local s' = sc_local s" "sc_runner s' = sc_runner s"
  using assms by (cases pc0; auto simp: load_def deliver_def split: if_split_asm)+

lemma runner_step_rank:
  assumes "runner_step c (sc_runner s) s = Some (pc, s')"
  shows "runner_rank pc + load s' + 10 * length (sc_local s') < runner_rank (sc_runner s) + load s + 10 * length (sc_local s)"
    and "sc_calls s' = sc_calls s"
  using assms by (cases "sc_runner s"; auto simp: load_def split: if_split_asm list.split_asm)+

lemma sched_work_rank:
  assumes "sched_work s s'"
  shows "sched_rank s' < sched_rank s"
  using assms
proof (induction rule: sched_work.induct)
  case (caller i s in_rt stale pc s')
  then show ?case
    using sched_step_rank [OF caller(2)] sum_list_update_add [OF caller(1), of pc_rank pc]
    by (simp add: sched_rank_def load_def)
next
  case (submit s ws work ws')
  then show ?case by (simp add: sched_rank_def load_def deliver_def)
next
  case (runner c s pc s')
  then show ?case using runner_step_rank [OF runner] by (simp add: sched_rank_def load_def)
qed

lemma stuck_free:
  assumes "mutex_ok s" and stuck: "\<nexists>s'. sched_work s s'"
  shows "\<not> sc_mutex s"
proof
  assume "sc_mutex s"
  with assms(1) have "sum_list (map pc_holds (sc_calls s)) = 1 \<or> runner_holds (sc_runner s) = 1"
    by (auto simp: mutex_ok_def runner_holds_def split: if_splits)
  then show False
  proof
    assume "runner_holds (sc_runner s) = 1"
    then have "\<exists>pc s'. runner_step False (sc_runner s) s = Some (pc, s')"
      by (auto simp: runner_holds_def split: if_splits)
    with stuck show False by (metis sched_work.runner)
  next
    assume "sum_list (map pc_holds (sc_calls s)) = 1"
    then obtain i where i: "i < length (sc_calls s)" "pc_holds (sc_calls s ! i) \<noteq> 0"
      by (metis One_nat_def Suc_n_not_le_n in_set_conv_nth length_map nth_map sum_list_eq_0_iff le_refl)
    then have "\<exists>pc s'. sched_step False False (sc_calls s ! i) s = Some (pc, s')"
      by (cases "sc_calls s ! i") auto
    with stuck i show False by (metis sched_work.caller)
  qed
qed

lemma stuck_done:
  assumes "sched_inv s" and stuck: "\<nexists>s'. sched_work s s'"
  shows "sc_runner s \<in> {Rn_failed, Rn_wait, Rn_ended}" and "set (sc_calls s) \<subseteq> {Sc_done}" and "sc_queued s = []"
    and "sc_runner s = Rn_wait \<Longrightarrow> sc_cq s = []"
proof -
  have mf: "\<not> sc_mutex s" using assms by (intro stuck_free) (simp_all add: sched_inv_def)
  have rs: "runner_step c (sc_runner s) s = None" for c
    using stuck by (metis sched_work.runner not_None_eq surj_pair)
  show "sc_runner s \<in> {Rn_failed, Rn_wait, Rn_ended}"
    using rs [of False] mf by (cases "sc_runner s") (auto split: list.splits)
  show "sc_cq s = []" if "sc_runner s = Rn_wait" using rs [of False] that by (simp split: list.splits)
  show "sc_queued s = []" using stuck by (cases "sc_queued s") (auto dest: sched_work.submit [where ws = "[]", simplified])
  show "set (sc_calls s) \<subseteq> {Sc_done}"
  proof
    fix pc
    assume "pc \<in> set (sc_calls s)"
    then obtain i where i: "i < length (sc_calls s)" "sc_calls s ! i = pc" by (auto simp: in_set_conv_nth)
    then have "sched_step False False pc s = None"
      using stuck by (metis sched_work.caller not_None_eq surj_pair)
    with mf show "pc \<in> {Sc_done}" by (cases pc) (auto split: if_splits)
  qed
qed

lemma in_calls_done: "set pcs \<subseteq> {Sc_done} \<Longrightarrow> in_calls pcs = {#}"
  by (induction pcs) auto

text \<open>Where the works are when nothing can move.\<close>

definition settled :: "sched \<Rightarrow> bool" where
  "settled s \<longleftrightarrow> set (sc_calls s) \<subseteq> {Sc_done} \<and>
     (case sc_runner s of
        Rn_wait \<Rightarrow> mset (sc_executed s) = mset (sc_called s)
      | Rn_ended \<Rightarrow> mset (sc_executed s) + mset (cq_works (sc_cq s)) = mset (sc_called s)
      | Rn_failed \<Rightarrow> sc_executed s = [] \<and> mset (sc_global s) = mset (sc_called s)
      | _ \<Rightarrow> False)"

lemma stuck_settled:
  assumes "sched_inv s" and "\<nexists>s'. sched_work s s'"
  shows "settled s"
proof -
  note st = stuck_done [OF assms]
  have c: "mset (sc_called s) = mset (sc_global s) + mset (sc_local s) + mset (cq_works (sc_cq s)) + mset (sc_executed s)"
    using assms(1) st(3) in_calls_done [OF st(2)] by (simp add: sched_inv_def conserved_def)
  have ph: "phase_ok s" using assms(1) by (simp add: sched_inv_def)
  consider "sc_runner s = Rn_failed" | "sc_runner s = Rn_wait" "sc_cq s = []" | "sc_runner s = Rn_ended" using st(1,4) by blast
  then show ?thesis using ph st(2) c by cases (simp_all add: settled_def phase_ok_def before_def)
qed

text \<open>Without \<open>allow_exit\<close> the loop does not end.\<close>

lemma sched_work_exit:
  assumes "sched_work s s'"
  shows "\<not> sc_exit s \<and> sc_runner s \<noteq> Rn_ended \<Longrightarrow> \<not> sc_exit s' \<and> sc_runner s' \<noteq> Rn_ended"
  using assms
proof (induction rule: sched_work.induct)
  case (caller i s in_rt stale pc s')
  then show ?case by (cases "sc_calls s ! i") (auto simp: deliver_def split: if_splits)
next
  case (runner c s pc s')
  then show ?case by (cases "sc_runner s") (auto split: if_splits list.splits)
qed (simp add: deliver_def)

lemma sched_works_exit:
  "sched_work\<^sup>*\<^sup>* s t \<Longrightarrow> \<not> sc_exit s \<and> sc_runner s \<noteq> Rn_ended \<Longrightarrow> \<not> sc_exit t \<and> sc_runner t \<noteq> Rn_ended"
  by (induction rule: rtranclp_induct) (auto dest: sched_work_exit)

text \<open>
  C6. What becomes of every scheduled work. From every reachable state the calls, the messages and \<open>run\<close>
  make finitely many steps by themselves, and where no step is possible every call has returned and one of
  three things holds. The loop waits for completions, and exactly the scheduled works have been executed,
  each as often as it was scheduled. Or \<open>run\<close> has returned, after \<open>allow_exit\<close>, and the works that were not
  executed are those whose messages the loop has not reaped, which are left to the next \<open>run\<close>. Or \<open>run\<close> has
  thrown because the ring could not be enabled, and all works are still in the global queue. The loop only
  ends when the exit was allowed.
\<close>

theorem scheduled_executed:
  assumes "sched_sys\<^sup>*\<^sup>* sched_init s"
  shows "(\<nexists>f. f 0 = s \<and> (\<forall>n. sched_work (f n) (f (Suc n)))) \<and>
    (\<exists>t. sched_work\<^sup>*\<^sup>* s t \<and> (\<nexists>t'. sched_work t t')) \<and>
    (\<forall>t. sched_work\<^sup>*\<^sup>* s t \<and> (\<nexists>t'. sched_work t t') \<longrightarrow>
       settled t \<and> (\<not> sc_exit s \<and> sc_runner s \<noteq> Rn_ended \<longrightarrow> sc_runner t \<noteq> Rn_ended))"
proof (intro conjI allI impI)
  have wf: "wfp (\<lambda>t' t. sched_work t t')"
    by (rule wfp_if_convertible_to_nat [where f = sched_rank]) (rule sched_work_rank)
  then show "\<nexists>f. f 0 = s \<and> (\<forall>n. sched_work (f n) (f (Suc n)))"
    by (auto simp: wfp_def wf_iff_no_infinite_down_chain)
  show "\<exists>t. sched_work\<^sup>*\<^sup>* s t \<and> (\<nexists>t'. sched_work t t')"
    using wf
  proof (induction s rule: wfp_induct_rule)
    case (less s)
    then show ?case by (meson converse_rtranclp_into_rtranclp rtranclp.rtrancl_refl)
  qed
  fix t
  assume t: "sched_work\<^sup>*\<^sup>* s t \<and> (\<nexists>t'. sched_work t t')"
  then have "sched_sys\<^sup>*\<^sup>* s t" by (metis mono_rtranclp sched_sys.work)
  with assms have "sched_inv t" by (intro reachable_inv) (rule rtranclp_trans)
  then show "settled t" using t by (intro stuck_settled) simp_all
  show "sc_runner t \<noteq> Rn_ended" if "\<not> sc_exit s \<and> sc_runner s \<noteq> Rn_ended"
    using sched_works_exit [OF conjunct1 [OF t] that] by simp
qed

theorem scheduled_executed_witness:
  "(\<nexists>f. f 0 = late_state \<and> (\<forall>n. sched_work (f n) (f (Suc n)))) \<and>
    (\<exists>t. sched_work\<^sup>*\<^sup>* late_state t \<and> (\<nexists>t'. sched_work t t') \<and> settled t \<and> sc_runner t \<noteq> Rn_ended)"
  using scheduled_executed [OF late_state_reachable] by (simp add: late_state_def sched_init_def) blast

text \<open>
  A message that has been delivered does not count as pending work. In this run a work is scheduled, the
  exit is allowed, and the loop ends without having looked at its completions: the work is not executed.
\<close>

definition stranded_state :: sched where
  "stranded_state = late_state\<lparr>sc_runner := Rn_ended\<rparr>"

lemma exit_strands_work:
  "sched_sys\<^sup>*\<^sup>* sched_init stranded_state \<and> (\<nexists>t. sched_work stranded_state t) \<and>
    sc_called stranded_state = [0x100] \<and> sc_executed stranded_state = []"
proof (intro conjI)
  note w = sched_sys.work [OF sched_work.runner] and defs = late_state_def sched_init_def
  let ?a = "late_state\<lparr>sc_exit := True\<rparr>"
  have 1: "sched_sys late_state ?a" using sched_sys.allow_exit [of late_state False] by (simp add: defs)
  let ?b = "?a\<lparr>sc_runner := Rn_pop\<rparr>"
  have 2: "sched_sys ?a ?b" using w [of False ?a Rn_pop] by (simp add: defs)
  let ?c = "?b\<lparr>sc_runner := Rn_test\<rparr>"
  have 3: "sched_sys ?b ?c" using w [of False ?b Rn_test] by (simp add: defs)
  have 4: "sched_sys ?c stranded_state" using w [of False ?c Rn_ended] by (simp add: defs stranded_state_def)
  show "sched_sys\<^sup>*\<^sup>* sched_init stranded_state"
    using late_state_reachable 1 2 3 4 by (meson rtranclp.rtrancl_into_rtrancl)
  show "\<nexists>t. sched_work stranded_state t"
    by (auto simp: stranded_state_def defs elim!: sched_work.cases)
qed (simp_all add: stranded_state_def late_state_def sched_init_def)

end
