(* ===== verification/Runtime_Exit.thy ===== *)
theory Runtime_Exit
  imports Runtime
begin

text \<open>
  \<open>Runtime::allow_exit\<close> (with \<open>wakeup_\<close>) from another thread against an idle \<open>Runtime::run\<close> that is
  starting: the accesses to \<open>exit_allowed_\<close> and \<open>ring_enabled_\<close> of the two threads. Each thread
  stores one flag and then loads the other one. None of the four accesses is sequentially
  consistent, so a store may stay in its thread's store buffer while the thread goes on; the
  parameter \<open>buffered\<close> says whether it may.
\<close>

datatype exit_pc = Ax_store | Ax_load | Ax_send | Ax_done

datatype idle_pc = Rx_enable | Rx_check | Rx_wait | Rx_exit

record exit_state =
  ex_allowed :: bool
  ex_allowed_buf :: bool
  ex_enabled :: bool
  ex_enabled_buf :: bool
  ex_msgs :: nat
  ex_caller :: exit_pc
  ex_runner :: idle_pc

definition exit_init :: exit_state where
  "exit_init = \<lparr>ex_allowed = False, ex_allowed_buf = False, ex_enabled = False, ex_enabled_buf = False,
     ex_msgs = 0, ex_caller = Ax_store, ex_runner = Rx_enable\<rparr>"

definition store_allowed :: "bool \<Rightarrow> exit_state \<Rightarrow> exit_state" where
  "store_allowed buffered s = (if buffered then s\<lparr>ex_allowed_buf := True\<rparr> else s\<lparr>ex_allowed := True\<rparr>)"

definition store_enabled :: "bool \<Rightarrow> exit_state \<Rightarrow> exit_state" where
  "store_enabled buffered s = (if buffered then s\<lparr>ex_enabled_buf := True\<rparr> else s\<lparr>ex_enabled := True\<rparr>)"

text \<open>\<open>allow_exit\<close>: the store, the load in \<open>wakeup_\<close>, the message.\<close>

fun exit_step :: "bool \<Rightarrow> exit_pc \<Rightarrow> exit_state \<Rightarrow> (exit_pc \<times> exit_state) option" where
  "exit_step buffered Ax_store s = Some (Ax_load, store_allowed buffered s)"
| "exit_step buffered Ax_load s = Some (if \<not> ex_enabled s then Ax_done else Ax_send, s)"
| "exit_step buffered Ax_send s = Some (Ax_done, s\<lparr>ex_msgs := ex_msgs s + 1\<rparr>)"
| "exit_step buffered Ax_done s = None"

text \<open>\<open>run\<close> with nothing to do: the store, the exit test, the wait for a completion.\<close>

fun idle_step :: "bool \<Rightarrow> idle_pc \<Rightarrow> exit_state \<Rightarrow> (idle_pc \<times> exit_state) option" where
  "idle_step buffered Rx_enable s = Some (Rx_check, store_enabled buffered s)"
| "idle_step buffered Rx_check s = Some (if ex_allowed s then Rx_exit else Rx_wait, s)"
| "idle_step buffered Rx_wait s =
     (if ex_msgs s = 0 then None else Some (Rx_check, s\<lparr>ex_msgs := ex_msgs s - 1\<rparr>))"
| "idle_step buffered Rx_exit s = None"

inductive exit_sys :: "bool \<Rightarrow> exit_state \<Rightarrow> exit_state \<Rightarrow> bool" for buffered where
  caller: "exit_step buffered (ex_caller s) s = Some (pc, s') \<Longrightarrow> exit_sys buffered s (s'\<lparr>ex_caller := pc\<rparr>)"
| runner: "idle_step buffered (ex_runner s) s = Some (pc, s') \<Longrightarrow> exit_sys buffered s (s'\<lparr>ex_runner := pc\<rparr>)"
| flush_allowed: "ex_allowed_buf s \<Longrightarrow> exit_sys buffered s (s\<lparr>ex_allowed_buf := False, ex_allowed := True\<rparr>)"
| flush_enabled: "ex_enabled_buf s \<Longrightarrow> exit_sys buffered s (s\<lparr>ex_enabled_buf := False, ex_enabled := True\<rparr>)"

inductive_simps exit_sys_iff: "exit_sys buffered s t"

text \<open>Without store buffers: a runner that waits is still going to be woken.\<close>

definition exit_inv :: "exit_state \<Rightarrow> bool" where
  "exit_inv s \<longleftrightarrow>
     \<not> ex_allowed_buf s \<and> \<not> ex_enabled_buf s \<and> (ex_enabled s \<longleftrightarrow> ex_runner s \<noteq> Rx_enable) \<and>
     (ex_allowed s \<longleftrightarrow> ex_caller s \<noteq> Ax_store) \<and>
     (ex_runner s = Rx_wait \<longrightarrow> ex_caller s \<noteq> Ax_done \<or> ex_msgs s > 0)"

lemma exit_inv_step:
  assumes "exit_sys False s t" and "exit_inv s"
  shows "exit_inv t"
  using assms
proof (induction rule: exit_sys.induct)
  case (caller s pc s')
  then show ?case
    by (cases "ex_caller s") (auto simp: exit_inv_def store_allowed_def)
next
  case (runner s pc s')
  then show ?case
    by (cases "ex_runner s") (auto simp: exit_inv_def store_enabled_def split: if_split_asm)
qed (auto simp: exit_inv_def)

lemma exit_init_inv: "exit_inv exit_init"
  by (simp add: exit_inv_def exit_init_def)

lemma exit_inv_reachable: "(exit_sys False)\<^sup>*\<^sup>* exit_init s \<Longrightarrow> exit_inv s"
  by (induction rule: rtranclp_induct) (auto intro: exit_inv_step exit_init_inv)

lemma exit_inv_stuck:
  assumes "exit_inv s" and stuck: "\<nexists>t. exit_sys False s t"
  shows "ex_runner s = Rx_exit"
proof -
  have "exit_step False (ex_caller s) s = None" "idle_step False (ex_runner s) s = None"
    using stuck by (metis exit_sys.caller exit_sys.runner not_None_eq surj_pair)+
  with assms(1) show ?thesis
    by (cases "ex_caller s"; cases "ex_runner s") (auto simp: exit_inv_def split: if_split_asm)
qed

text \<open>The lost wake-up.\<close>

definition exit_lost :: exit_state where
  "exit_lost = \<lparr>ex_allowed = True, ex_allowed_buf = False, ex_enabled = True, ex_enabled_buf = False,
     ex_msgs = 0, ex_caller = Ax_done, ex_runner = Rx_wait\<rparr>"

lemma exit_lost_reachable: "(exit_sys True)\<^sup>*\<^sup>* exit_init exit_lost"
proof -
  let ?a = "exit_init\<lparr>ex_allowed_buf := True, ex_caller := Ax_load\<rparr>"
  have 1: "exit_sys True exit_init ?a"
    using exit_sys.caller [of True exit_init Ax_load] by (simp add: exit_init_def store_allowed_def)
  let ?b = "?a\<lparr>ex_caller := Ax_done\<rparr>"
  have 2: "exit_sys True ?a ?b" using exit_sys.caller [of True ?a Ax_done] by (simp add: exit_init_def)
  let ?c = "?b\<lparr>ex_enabled_buf := True, ex_runner := Rx_check\<rparr>"
  have 3: "exit_sys True ?b ?c"
    using exit_sys.runner [of True ?b Rx_check] by (simp add: exit_init_def store_enabled_def)
  let ?d = "?c\<lparr>ex_runner := Rx_wait\<rparr>"
  have 4: "exit_sys True ?c ?d" using exit_sys.runner [of True ?c Rx_wait] by (simp add: exit_init_def)
  let ?e = "?d\<lparr>ex_allowed_buf := False, ex_allowed := True\<rparr>"
  have 5: "exit_sys True ?d ?e" by (rule exit_sys.flush_allowed) (simp add: exit_init_def)
  have 6: "exit_sys True ?e exit_lost"
    using exit_sys.flush_enabled [of ?e True] by (simp add: exit_init_def exit_lost_def)
  show ?thesis using 1 2 3 4 5 6 by (meson rtranclp.rtrancl_into_rtrancl rtranclp.rtrancl_refl)
qed

lemma exit_lost_stuck: "\<not> exit_sys True exit_lost t"
  by (auto simp: exit_sys_iff exit_lost_def)

text \<open>
  C31. The wake-up of \<open>allow_exit\<close> needs more than the memory orders it uses. If stores are visible
  at once, the system can only come to rest with the runtime's loop ended. With store buffers,
  which the release store followed by the relaxed load permits, it can come to rest with the loop
  waiting forever: the exit is allowed, the ring is enabled, and no message was sent.
\<close>

theorem allow_exit_wakeup:
  "(\<forall>s. (exit_sys False)\<^sup>*\<^sup>* exit_init s \<and> (\<nexists>t. exit_sys False s t) \<longrightarrow> ex_runner s = Rx_exit) \<and>
   (\<exists>s. (exit_sys True)\<^sup>*\<^sup>* exit_init s \<and> (\<nexists>t. exit_sys True s t) \<and>
      ex_runner s = Rx_wait \<and> ex_allowed s \<and> ex_enabled s \<and> ex_msgs s = 0)"
proof
  show "\<forall>s. (exit_sys False)\<^sup>*\<^sup>* exit_init s \<and> (\<nexists>t. exit_sys False s t) \<longrightarrow> ex_runner s = Rx_exit"
    using exit_inv_reachable exit_inv_stuck by blast
  show "\<exists>s. (exit_sys True)\<^sup>*\<^sup>* exit_init s \<and> (\<nexists>t. exit_sys True s t) \<and>
      ex_runner s = Rx_wait \<and> ex_allowed s \<and> ex_enabled s \<and> ex_msgs s = 0"
    using exit_lost_reachable exit_lost_stuck
    by (intro exI [of _ exit_lost]) (auto simp: exit_lost_def)
qed

definition exit_final :: exit_state where
  "exit_final = \<lparr>ex_allowed = True, ex_allowed_buf = False, ex_enabled = True, ex_enabled_buf = False,
     ex_msgs = 0, ex_caller = Ax_done, ex_runner = Rx_exit\<rparr>"

theorem allow_exit_wakeup_witness:
  "(exit_sys False)\<^sup>*\<^sup>* exit_init exit_final \<and> (\<nexists>t. exit_sys False exit_final t) \<and> ex_runner exit_final = Rx_exit"
proof -
  let ?a = "exit_init\<lparr>ex_allowed := True, ex_caller := Ax_load\<rparr>"
  have 1: "exit_sys False exit_init ?a"
    using exit_sys.caller [of False exit_init Ax_load] by (simp add: exit_init_def store_allowed_def)
  let ?b = "?a\<lparr>ex_caller := Ax_done\<rparr>"
  have 2: "exit_sys False ?a ?b" using exit_sys.caller [of False ?a Ax_done] by (simp add: exit_init_def)
  let ?c = "?b\<lparr>ex_enabled := True, ex_runner := Rx_check\<rparr>"
  have 3: "exit_sys False ?b ?c"
    using exit_sys.runner [of False ?b Rx_check] by (simp add: exit_init_def store_enabled_def)
  have 4: "exit_sys False ?c exit_final"
    using exit_sys.runner [of False ?c Rx_exit] by (simp add: exit_init_def exit_final_def)
  have reach: "(exit_sys False)\<^sup>*\<^sup>* exit_init exit_final"
    using 1 2 3 4 by (meson rtranclp.rtrancl_into_rtrancl rtranclp.rtrancl_refl)
  have "\<nexists>t. exit_sys False exit_final t" by (auto simp: exit_sys_iff exit_final_def)
  with reach allow_exit_wakeup show ?thesis by blast
qed

end
