(* ===== verification/Futex.thy ===== *)
theory Futex
  imports Intrusive "HOL-Library.Multiset"
begin

text \<open>
  \<open>include/condy/futex.hpp\<close>: the user-space futex. The futex holds the list of waiting handles;
  the entries of all handles are one heap, which the list of the futex and the local list of
  \<open>notify_all_\<close> share. The value of the atomic is part of the state, since the application changes
  it. The calls on runtimes are returned in the order they are made.

  The operations are first composed as the code runs them one after the other; the last section
  interleaves \<open>notify_all_\<close>, whose loop runs outside the mutex, with a cancellation.
\<close>

section \<open>State\<close>

record wait_handle =
  wh_runtime :: ptr
  wh_result :: i32
  wh_stop_callback :: bool

record 'v futex =
  fx_off :: u64
  fx_handles :: "ptr \<Rightarrow> wait_handle"
  fx_heap :: dheap
  fx_awaiters :: double_link_list
  fx_value :: 'v

definition fx_new :: "u64 \<Rightarrow> (ptr \<Rightarrow> wait_handle) \<Rightarrow> 'v \<Rightarrow> 'v futex" where
  "fx_new off hs v = \<lparr>fx_off = off, fx_handles = hs, fx_heap = \<lambda>_. d_detached, fx_awaiters = dl_new, fx_value = v\<rparr>"

definition wh_new :: wait_handle where
  "wh_new = \<lparr>wh_runtime = nullptr, wh_result = - ENOTRECOVERABLE, wh_stop_callback = False\<rparr>"

definition fx_upd :: "ptr \<Rightarrow> (wait_handle \<Rightarrow> wait_handle) \<Rightarrow> 'v futex \<Rightarrow> 'v futex" where
  "fx_upd p g f = f\<lparr>fx_handles := (fx_handles f)(p := g (fx_handles f p))\<rparr>"

section \<open>Operations\<close>

definition wh_set_result :: "ptr \<Rightarrow> i32 \<Rightarrow> 'v futex \<Rightarrow> 'v futex" where
  "wh_set_result p r = fx_upd p (\<lambda>h. h\<lparr>wh_result := r\<rparr>)"

definition wh_schedule :: "ptr \<Rightarrow> 'v futex \<Rightarrow> call list option" where
  "wh_schedule p f = do {
     massert (wh_runtime (fx_handles f p) \<noteq> nullptr);
     Some [Schedule_internal (wh_runtime (fx_handles f p)) p]
   }"

definition fx_cancel_wait :: "ptr \<Rightarrow> 'v futex \<Rightarrow> bool \<times> 'v futex" where
  "fx_cancel_wait p f =
     (case idl_remove (fx_off f) (fx_heap f, fx_awaiters f) p of
        (b, h, l) \<Rightarrow> (b, f\<lparr>fx_heap := h, fx_awaiters := l\<rparr>))"

definition fx_request_wait :: "ptr \<Rightarrow> 'v \<Rightarrow> 'v futex \<Rightarrow> i32 \<times> 'v futex" where
  "fx_request_wait p old f =
     (if fx_value f \<noteq> old then (0, f)
      else case idl_push_back (fx_off f) (fx_heap f, fx_awaiters f) p of
        (h, l) \<Rightarrow> (- EAGAIN, f\<lparr>fx_heap := h, fx_awaiters := l\<rparr>))"

definition fx_notify_one :: "'v futex \<Rightarrow> ('v futex \<times> call list) option" where
  "fx_notify_one f =
     (case idl_pop_front (fx_off f) (fx_heap f, fx_awaiters f) of
        (p, h, l) \<Rightarrow>
          let f1 = f\<lparr>fx_heap := h, fx_awaiters := l\<rparr> in
          if p \<noteq> nullptr then do {
            let f2 = wh_set_result p 0 f1;
            cs \<leftarrow> wh_schedule p f2;
            Some (f2, cs)
          }
          else Some (f1, []))"

text \<open>
  \<open>notify_all_\<close>: the list is taken under the mutex, then the handles are woken one by one.
\<close>

definition fx_notify_take :: "'v futex \<Rightarrow> double_link_list \<times> 'v futex" where
  "fx_notify_take f = (case dl_move (fx_awaiters f) of (hs, l) \<Rightarrow> (hs, f\<lparr>fx_awaiters := l\<rparr>))"

definition fx_notify_pop :: "i32 \<Rightarrow> double_link_list \<Rightarrow> 'v futex \<Rightarrow> (bool \<times> double_link_list \<times> 'v futex \<times> call list) option" where
  "fx_notify_pop result hs f =
     (case idl_pop_front (fx_off f) (fx_heap f, hs) of
        (p, h, hs1) \<Rightarrow>
          let f1 = f\<lparr>fx_heap := h\<rparr> in
          if p \<noteq> nullptr then do {
            let f2 = wh_set_result p result f1;
            cs \<leftarrow> wh_schedule p f2;
            Some (True, hs1, f2, cs)
          }
          else Some (False, hs1, f1, []))"

partial_function (option) fx_notify_loop ::
  "i32 \<Rightarrow> double_link_list \<Rightarrow> 'v futex \<Rightarrow> call list \<Rightarrow> ('v futex \<times> call list) option" where
  "fx_notify_loop result hs f acc =
     fx_notify_pop result hs f \<bind> (\<lambda>(b, hs1, f1, cs).
       if b then fx_notify_loop result hs1 f1 (acc @ cs) else Some (f1, acc))"

definition fx_notify_all :: "i32 \<Rightarrow> 'v futex \<Rightarrow> ('v futex \<times> call list) option" where
  "fx_notify_all result f = (case fx_notify_take f of (hs, f1) \<Rightarrow> fx_notify_loop result hs f1 [])"

definition fx_destroy :: "'v futex \<Rightarrow> ('v futex \<times> call list) option" where
  "fx_destroy f = fx_notify_all (- EIDRM) f"

text \<open>The finish handle. As in the channel, the stop token is two flags.\<close>

definition wh_cancel :: "ptr \<Rightarrow> 'v futex \<Rightarrow> ('v futex \<times> call list) option" where
  "wh_cancel p f =
     (case fx_cancel_wait p f of
        (b, f1) \<Rightarrow>
          if b then do {
            let f2 = wh_set_result p (- ECANCELED) f1;
            massert (wh_runtime (fx_handles f2 p) \<noteq> nullptr);
            Some (f2, [Schedule_internal (wh_runtime (fx_handles f2 p)) p])
          }
          else Some (f1, []))"

definition wh_start :: "bool \<Rightarrow> bool \<Rightarrow> ptr \<Rightarrow> 'v \<Rightarrow> ptr \<Rightarrow> 'v futex \<Rightarrow> (i32 option \<times> 'v futex \<times> call list) option" where
  "wh_start stop_possible stop_requested rt old p f =
     (case fx_request_wait p old (fx_upd p (\<lambda>h. h\<lparr>wh_runtime := rt\<rparr>) f) of
        (r, f1) \<Rightarrow>
          if r \<noteq> - EAGAIN then Some (Some r, f1, [])
          else if \<not> stop_possible then Some (None, f1, [Pend_work rt])
          else do {
            (f2, cs) \<leftarrow> (if stop_requested then wh_cancel p f1 else Some (f1, []));
            Some (None, fx_upd p (\<lambda>h. h\<lparr>wh_stop_callback := True\<rparr>) f2, Pend_work rt # cs)
          })"

definition wh_invoke :: "ptr \<Rightarrow> 'v futex \<Rightarrow> (i32 \<times> 'v futex \<times> call list) option" where
  "wh_invoke p f = do {
     let f1 = fx_upd p (\<lambda>h. h\<lparr>wh_stop_callback := False\<rparr>) f;
     massert (wh_runtime (fx_handles f1 p) \<noteq> nullptr);
     Some (wh_result (fx_handles f1 p), f1, [Resume_work (wh_runtime (fx_handles f1 p))])
   }"

section \<open>Runs of operations\<close>

datatype 'v fx_op =
    Fx_wait bool bool ptr 'v ptr  \<comment> \<open>\<open>start\<close>: stop flags, runtime, old value, handle\<close>
  | Fx_stop ptr                   \<comment> \<open>the stop callback of a handle\<close>
  | Fx_notify_one
  | Fx_notify_all
  | Fx_store 'v                   \<comment> \<open>the application stores a value\<close>

primrec fx_step :: "'v fx_op \<Rightarrow> 'v futex \<Rightarrow> ('v futex \<times> call list) option" where
  "fx_step (Fx_wait pos req rt old p) f = map_option snd (wh_start pos req rt old p f)"
| "fx_step (Fx_stop p) f = wh_cancel p f"
| "fx_step Fx_notify_one f = fx_notify_one f"
| "fx_step Fx_notify_all f = fx_notify_all 0 f"
| "fx_step (Fx_store v) f = Some (f\<lparr>fx_value := v\<rparr>, [])"

primrec fx_run :: "'v fx_op list \<Rightarrow> 'v futex \<Rightarrow> ('v futex \<times> call list) option" where
  "fx_run [] f = Some (f, [])"
| "fx_run (op # ops) f = do {
     (f1, cs) \<leftarrow> fx_step op f;
     (f2, ds) \<leftarrow> fx_run ops f1;
     Some (f2, cs @ ds)
   }"

section \<open>The abstract futex\<close>

text \<open>The waiting handles in the order they came, each with its runtime, and who is woken how.\<close>

record 'v afutex =
  af_waiters :: "(ptr \<times> ptr) list"
  af_value :: 'v

definition af_stop :: "ptr \<Rightarrow> 'v afutex \<Rightarrow> 'v afutex \<times> (ptr \<times> ptr \<times> i32) list" where
  "af_stop p a =
     (a\<lparr>af_waiters := filter (\<lambda>w. fst w \<noteq> p) (af_waiters a)\<rparr>,
      map (\<lambda>(q, rt). (q, rt, - ECANCELED)) (filter (\<lambda>w. fst w = p) (af_waiters a)))"

primrec af_step :: "'v fx_op \<Rightarrow> 'v afutex \<Rightarrow> 'v afutex \<times> (ptr \<times> ptr \<times> i32) list" where
  "af_step (Fx_wait pos req rt old p) a =
     (if af_value a \<noteq> old then (a, [])
      else if pos \<and> req then af_stop p (a\<lparr>af_waiters := af_waiters a @ [(p, rt)]\<rparr>)
      else (a\<lparr>af_waiters := af_waiters a @ [(p, rt)]\<rparr>, []))"
| "af_step (Fx_stop p) a = af_stop p a"
| "af_step Fx_notify_one a =
     (case af_waiters a of
        [] \<Rightarrow> (a, [])
      | (p, rt) # ws \<Rightarrow> (a\<lparr>af_waiters := ws\<rparr>, [(p, rt, 0)]))"
| "af_step Fx_notify_all a =
     (a\<lparr>af_waiters := []\<rparr>, map (\<lambda>(p, rt). (p, rt, 0)) (af_waiters a))"
| "af_step (Fx_store v) a = (a\<lparr>af_value := v\<rparr>, [])"

primrec af_run :: "'v fx_op list \<Rightarrow> 'v afutex \<Rightarrow> 'v afutex \<times> (ptr \<times> ptr \<times> i32) list" where
  "af_run [] a = (a, [])"
| "af_run (op # ops) a =
     (case af_step op a of (a1, ws) \<Rightarrow> (case af_run ops a1 of (a2, vs) \<Rightarrow> (a2, ws @ vs)))"

text \<open>What the callers guarantee: a handle that starts is not waiting already, and has a runtime.\<close>

fun fx_ok :: "u64 \<Rightarrow> 'v fx_op \<Rightarrow> 'v afutex \<Rightarrow> bool" where
  "fx_ok off (Fx_wait pos req rt old p) a \<longleftrightarrow>
     idl_ok off p \<and> rt \<noteq> nullptr \<and> p \<notin> fst ` set (af_waiters a)"
| "fx_ok off (Fx_stop p) a \<longleftrightarrow> idl_ok off p"
| "fx_ok off op a \<longleftrightarrow> True"

primrec fx_oks :: "u64 \<Rightarrow> 'v fx_op list \<Rightarrow> 'v afutex \<Rightarrow> bool" where
  "fx_oks off [] a \<longleftrightarrow> True"
| "fx_oks off (op # ops) a \<longleftrightarrow> fx_ok off op a \<and> fx_oks off ops (fst (af_step op a))"

section \<open>Refinement\<close>

definition fx_rel :: "'v futex \<Rightarrow> 'v afutex \<Rightarrow> bool" where
  "fx_rel f a \<longleftrightarrow>
     idl_rep (fx_off f) (fx_heap f, fx_awaiters f) (map fst (af_waiters a)) \<and>
     (\<forall>w \<in> set (af_waiters a). wh_runtime (fx_handles f (fst w)) = snd w \<and> snd w \<noteq> nullptr) \<and>
     fx_value f = af_value a"

text \<open>The calls that wake the given handles.\<close>

definition wake_calls :: "(ptr \<times> ptr \<times> i32) list \<Rightarrow> call list" where
  "wake_calls ws = map (\<lambda>(p, rt, r). Schedule_internal rt p) ws"

fun is_wake :: "call \<Rightarrow> bool" where
  "is_wake (Schedule_internal rt p) = True"
| "is_wake c = False"

lemma wake_calls_simps [simp]:
  "wake_calls [] = []" "wake_calls ((p, rt, r) # ws) = Schedule_internal rt p # wake_calls ws"
  "wake_calls (ws @ vs) = wake_calls ws @ wake_calls vs"
  by (auto simp: wake_calls_def)

lemma filter_wake_calls [simp]: "filter is_wake (wake_calls ws) = wake_calls ws"
  by (induction ws) auto

lemma fx_upd_sel [simp]:
  "fx_off (fx_upd p g f) = fx_off f" "fx_heap (fx_upd p g f) = fx_heap f"
  "fx_awaiters (fx_upd p g f) = fx_awaiters f" "fx_value (fx_upd p g f) = fx_value f"
  "fx_handles (fx_upd p g f) = (fx_handles f)(p := g (fx_handles f p))"
  by (simp_all add: fx_upd_def)

lemma wh_set_result_sel [simp]:
  "fx_off (wh_set_result p r f) = fx_off f" "fx_heap (wh_set_result p r f) = fx_heap f"
  "fx_awaiters (wh_set_result p r f) = fx_awaiters f" "fx_value (wh_set_result p r f) = fx_value f"
  "wh_runtime (fx_handles (wh_set_result p r f) q) = wh_runtime (fx_handles f q)"
  "wh_result (fx_handles (wh_set_result p r f) q) = (if q = p then r else wh_result (fx_handles f q))"
  by (simp_all add: wh_set_result_def)

definition fx_sim :: "'v futex \<Rightarrow> ('v futex \<times> call list) option \<Rightarrow> 'v afutex \<times> (ptr \<times> ptr \<times> i32) list \<Rightarrow> bool" where
  "fx_sim f r ar \<longleftrightarrow>
     (\<exists>f' cs. r = Some (f', cs) \<and> fx_off f' = fx_off f \<and> fx_rel f' (fst ar) \<and>
        filter is_wake cs = wake_calls (snd ar) \<and> (\<forall>w \<in> set (snd ar). wh_result (fx_handles f' (fst w)) = snd (snd w)))"

lemma fx_rel_distinct: "fx_rel f a \<Longrightarrow> distinct (map fst (af_waiters a))"
  using idl.rep_distinct by (auto simp: fx_rel_def)

lemma filter_fst_remove1:
  "distinct (map fst ws) \<Longrightarrow> map fst (filter (\<lambda>w. fst w \<noteq> p) ws) = remove1 p (map fst ws)"
proof (induction ws)
  case (Cons w ws)
  then have "filter (\<lambda>v. fst v \<noteq> p) ws = ws" if "p \<notin> fst ` set ws"
    using that by (auto simp: filter_id_conv)
  with Cons show ?case by (cases "fst w = p") simp_all
qed simp

lemma filter_fst_eq:
  assumes "distinct (map fst ws)"
  shows "filter (\<lambda>w. fst w = p) ws = (case map_of ws p of None \<Rightarrow> [] | Some rt \<Rightarrow> [(p, rt)])"
  using assms
proof (induction ws)
  case (Cons w ws)
  then have "map_of ws p = None" if "fst w = p"
    using that by (simp add: map_of_eq_None_iff)
  with Cons show ?case by (cases "fst w = p") (cases w, simp)+
qed simp

lemma wh_cancel_sim:
  assumes rel: "fx_rel f a" and "idl_ok (fx_off f) p"
  shows "fx_sim f (wh_cancel p f) (af_stop p a)"
proof -
  note dist = fx_rel_distinct [OF rel]
  obtain b h l where rem: "idl_remove (fx_off f) (fx_heap f, fx_awaiters f) p = (b, h, l)"
    by (cases "idl_remove (fx_off f) (fx_heap f, fx_awaiters f) p") auto
  have b: "b = (p \<in> fst ` set (af_waiters a))"
    and rep: "idl_rep (fx_off f) (h, l) (map fst (filter (\<lambda>w. fst w \<noteq> p) (af_waiters a)))"
    using idl.rep_remove [of "fx_off f" _ _ p] rel assms(2) rem filter_fst_remove1 [OF dist]
    by (force simp: fx_rel_def)+
  show ?thesis
  proof (cases "map_of (af_waiters a) p")
    case None
    then have "\<not> b" by (simp add: b map_of_eq_None_iff)
    then have "wh_cancel p f = Some (f\<lparr>fx_heap := h, fx_awaiters := l\<rparr>, [])"
      by (simp add: wh_cancel_def fx_cancel_wait_def rem)
    then show ?thesis
      using rel rep None filter_fst_eq [OF dist, of p] by (auto simp: fx_sim_def af_stop_def fx_rel_def)
  next
    case (Some rt)
    then have "b" and rt: "wh_runtime (fx_handles f p) = rt" "rt \<noteq> nullptr"
      using rel by (force simp: b fx_rel_def dest!: map_of_SomeD)+
    then have "wh_cancel p f = Some (wh_set_result p (- ECANCELED) (f\<lparr>fx_heap := h, fx_awaiters := l\<rparr>),
        [Schedule_internal rt p])"
      by (simp add: wh_cancel_def fx_cancel_wait_def rem)
    then show ?thesis
      using rel rep Some filter_fst_eq [OF dist, of p] by (auto simp: fx_sim_def af_stop_def fx_rel_def)
  qed
qed

lemma wh_start_sim:
  assumes rel: "fx_rel f a" and ok: "fx_ok (fx_off f) (Fx_wait pos req rt old p) a"
  shows "fx_sim f (fx_step (Fx_wait pos req rt old p) f) (af_step (Fx_wait pos req rt old p) a)"
proof (cases "fx_value f = old")
  case False
  with rel ok show ?thesis
    by (auto simp: fx_sim_def wh_start_def fx_request_wait_def fx_rel_def)
next
  case True
  let ?f = "fx_upd p (\<lambda>h. h\<lparr>wh_runtime := rt\<rparr>) f"
  obtain h l where push: "idl_push_back (fx_off f) (fx_heap f, fx_awaiters f) p = (h, l)"
    by (cases "idl_push_back (fx_off f) (fx_heap f, fx_awaiters f) p") auto
  let ?f1 = "?f\<lparr>fx_heap := h, fx_awaiters := l\<rparr>" and ?a1 = "a\<lparr>af_waiters := af_waiters a @ [(p, rt)]\<rparr>"
  have req: "fx_request_wait p old ?f = (- EAGAIN, ?f1)"
    using True push by (simp add: fx_request_wait_def)
  have "idl_rep (fx_off f) (h, l) (map fst (af_waiters a) @ [p])"
    using idl.rep_push [of "fx_off f" "(fx_heap f, fx_awaiters f)" "map fst (af_waiters a)" p] rel ok push
    by (simp add: fx_rel_def)
  then have rel1: "fx_rel ?f1 ?a1"
    using rel ok by (auto simp: fx_rel_def)
  show ?thesis
  proof (cases "pos \<and> req")
    case stop: True
    have "fx_sim ?f1 (wh_cancel p ?f1) (af_stop p ?a1)"
      by (rule wh_cancel_sim [OF rel1]) (use ok in simp)
    then obtain f2 cs where c: "wh_cancel p ?f1 = Some (f2, cs)" and f2: "fx_off f2 = fx_off f"
        "fx_rel f2 (fst (af_stop p ?a1))" "filter is_wake cs = wake_calls (snd (af_stop p ?a1))"
        "\<forall>w \<in> set (snd (af_stop p ?a1)). wh_result (fx_handles f2 (fst w)) = snd (snd w)"
      by (auto simp: fx_sim_def)
    have "fx_step (Fx_wait pos req rt old p) f =
        Some (fx_upd p (\<lambda>h. h\<lparr>wh_stop_callback := True\<rparr>) f2, Pend_work rt # cs)"
      using stop req c by (simp add: wh_start_def)
    with stop True rel f2 show ?thesis
      by (auto simp: fx_sim_def fx_rel_def)
  next
    case False
    then show ?thesis
      using True rel rel1 req by (auto simp: fx_sim_def fx_rel_def wh_start_def)
  qed
qed

lemma idl_pop_waiter:
  assumes "idl_rep off s (p # ps)"
  shows "\<exists>h l. idl_pop_front off s = (p, h, l) \<and> idl_rep off (h, l) ps \<and> p \<noteq> nullptr"
proof -
  obtain q h l where pop: "idl_pop_front off s = (q, h, l)" by (cases "idl_pop_front off s") auto
  have "p \<noteq> nullptr" using idl.rep_ok [OF assms, of p] idl.ok_not_null by auto
  with idl.rep_pop_Cons [OF assms] pop show ?thesis by simp
qed

lemma fx_notify_one_sim:
  assumes rel: "fx_rel f a"
  shows "fx_sim f (fx_notify_one f) (af_step Fx_notify_one a)"
proof (cases "af_waiters a")
  case Nil
  then have "idl_pop_front (fx_off f) (fx_heap f, fx_awaiters f) = (nullptr, (fx_heap f, fx_awaiters f))"
    using rel idl.rep_pop_Nil by (simp add: fx_rel_def)
  with Nil rel show ?thesis by (simp add: fx_notify_one_def fx_sim_def)
next
  case (Cons w ws)
  obtain p rt where w: "w = (p, rt)" by (cases w) auto
  have "idl_rep (fx_off f) (fx_heap f, fx_awaiters f) (p # map fst ws)"
    using rel Cons w by (simp add: fx_rel_def)
  from idl_pop_waiter [OF this] obtain h l where
    "idl_pop_front (fx_off f) (fx_heap f, fx_awaiters f) = (p, h, l)"
    "idl_rep (fx_off f) (h, l) (map fst ws)" "p \<noteq> nullptr" by blast
  with rel Cons w show ?thesis
    by (simp add: fx_notify_one_def fx_sim_def fx_rel_def wh_schedule_def)
qed

text \<open>The loop of \<open>notify_all_\<close> returns and wakes every handle of the list it took.\<close>

lemma fx_notify_loop_wakes:
  assumes "idl_rep (fx_off f) (fx_heap f, hs) (map fst ws)"
    and "\<forall>w \<in> set ws. wh_runtime (fx_handles f (fst w)) = snd w \<and> snd w \<noteq> nullptr"
  shows "\<exists>f' hs'. fx_notify_loop r hs f acc = Some (f', acc @ wake_calls (map (\<lambda>w. (fst w, snd w, r)) ws)) \<and>
    fx_off f' = fx_off f \<and> fx_value f' = fx_value f \<and> fx_awaiters f' = fx_awaiters f \<and>
    idl_rep (fx_off f) (fx_heap f', hs') [] \<and>
    (\<forall>q. wh_result (fx_handles f' q) = (if q \<in> fst ` set ws then r else wh_result (fx_handles f q)))"
  using assms
proof (induction ws arbitrary: f hs acc)
  case Nil
  then have "fx_notify_pop r hs f = Some (False, hs, f, [])"
    using idl.rep_pop_Nil [of "fx_off f" "(fx_heap f, hs)"] by (simp add: fx_notify_pop_def)
  then show ?case using Nil by (auto simp: fx_notify_loop.simps)
next
  case (Cons w ws)
  obtain p rt where w: "w = (p, rt)" by (cases w) auto
  from Cons.prems(1) obtain h l where pop: "idl_pop_front (fx_off f) (fx_heap f, hs) = (p, h, l)"
    "idl_rep (fx_off f) (h, l) (map fst ws)" "p \<noteq> nullptr"
    using idl_pop_waiter [of "fx_off f" "(fx_heap f, hs)" p "map fst ws"] by (auto simp: w)
  let ?f = "wh_set_result p r (f\<lparr>fx_heap := h\<rparr>)"
  have step: "fx_notify_pop r hs f = Some (True, l, ?f, [Schedule_internal rt p])"
    using pop Cons.prems(2) by (simp add: fx_notify_pop_def w wh_schedule_def)
  have "p \<notin> fst ` set ws" using idl.rep_distinct [OF Cons.prems(1)] by (simp add: w)
  then show ?case
    using Cons.IH [of ?f l "acc @ [Schedule_internal rt p]"] pop Cons.prems(2) step
    by (auto simp: w fx_notify_loop.simps [of r hs f])
qed

lemma fx_notify_all_sim:
  assumes rel: "fx_rel f a"
  shows "fx_sim f (fx_notify_all r f) (a\<lparr>af_waiters := []\<rparr>, map (\<lambda>w. (fst w, snd w, r)) (af_waiters a))"
proof -
  let ?f = "f\<lparr>fx_awaiters := \<lparr>dl_head = nullptr, dl_tail = nullptr\<rparr>\<rparr>"
  have rep: "idl_rep (fx_off ?f) (fx_heap ?f, fx_awaiters f) (map fst (af_waiters a))"
    "\<forall>w \<in> set (af_waiters a). wh_runtime (fx_handles ?f (fst w)) = snd w \<and> snd w \<noteq> nullptr"
    using rel by (simp_all add: fx_rel_def)
  from fx_notify_loop_wakes [OF rep, of r "[]"] obtain f' hs' where
    l: "fx_notify_loop r (fx_awaiters f) ?f [] = Some (f', wake_calls (map (\<lambda>w. (fst w, snd w, r)) (af_waiters a)))"
    and f': "fx_off f' = fx_off f" "fx_value f' = fx_value f" "fx_awaiters f' = fx_awaiters ?f"
      "idl_rep (fx_off f) (fx_heap f', hs') []"
      "\<forall>q. wh_result (fx_handles f' q) = (if q \<in> fst ` set (af_waiters a) then r else wh_result (fx_handles f q))"
    by auto
  have "idl_rep (fx_off f) (fx_heap f', fx_awaiters f') []"
    using f'(3,4) by (simp add: idl_rep_def dl_rep_def dl_linked_def)
  moreover have "fx_notify_all r f = fx_notify_loop r (fx_awaiters f) ?f []"
    by (cases "fx_awaiters f") (simp add: fx_notify_all_def fx_notify_take_def dl_move_def)
  ultimately show ?thesis using l f' rel by (simp add: fx_sim_def fx_rel_def)
qed

lemma fx_step_sim:
  assumes "fx_rel f a" and "fx_ok (fx_off f) op a"
  shows "fx_sim f (fx_step op f) (af_step op a)"
proof (cases op)
  case (Fx_wait pos req rt old p)
  with assms show ?thesis by (simp only: wh_start_sim)
next
  case (Fx_stop p)
  then show ?thesis using wh_cancel_sim assms by simp
next
  case Fx_notify_one
  then show ?thesis using fx_notify_one_sim assms by simp
next
  case Fx_notify_all
  then show ?thesis using fx_notify_all_sim [OF assms(1), of 0] by (simp add: case_prod_beta')
next
  case (Fx_store v)
  then show ?thesis using assms by (simp add: fx_sim_def fx_rel_def)
qed

lemma fx_run_sim:
  "fx_rel f a \<Longrightarrow> fx_oks (fx_off f) ops a \<Longrightarrow>
   \<exists>f' cs. fx_run ops f = Some (f', cs) \<and> fx_off f' = fx_off f \<and> fx_rel f' (fst (af_run ops a)) \<and>
     filter is_wake cs = wake_calls (snd (af_run ops a))"
proof (induction ops arbitrary: f a)
  case (Cons op ops)
  have "fx_sim f (fx_step op f) (af_step op a)" by (rule fx_step_sim) (use Cons.prems in simp_all)
  then obtain f1 cs where f1: "fx_step op f = Some (f1, cs)" "fx_off f1 = fx_off f"
    "fx_rel f1 (fst (af_step op a))" "filter is_wake cs = wake_calls (snd (af_step op a))"
    by (auto simp: fx_sim_def)
  from Cons.IH [of f1 "fst (af_step op a)"] Cons.prems f1 obtain f2 ds where
    "fx_run ops f1 = Some (f2, ds)" "fx_off f2 = fx_off f1" "fx_rel f2 (fst (af_run ops (fst (af_step op a))))"
    "filter is_wake ds = wake_calls (snd (af_run ops (fst (af_step op a))))" by auto
  with f1 show ?case by (simp add: case_prod_beta)
qed simp

text \<open>Who starts to wait in a run, and the balance with who is woken.\<close>

primrec af_blocked :: "'v fx_op list \<Rightarrow> 'v afutex \<Rightarrow> (ptr \<times> ptr) list" where
  "af_blocked [] a = []"
| "af_blocked (op # ops) a =
     (case op of
        Fx_wait pos req rt old p \<Rightarrow> if af_value a = old then [(p, rt)] else []
      | _ \<Rightarrow> []) @ af_blocked ops (fst (af_step op a))"

abbreviation woken :: "(ptr \<times> ptr \<times> i32) list \<Rightarrow> (ptr \<times> ptr) list" where
  "woken ws \<equiv> map (\<lambda>w. (fst w, fst (snd w))) ws"

lemma af_stop_balance:
  "image_mset (\<lambda>w. (fst w, fst (snd w))) (mset (snd (af_stop p a))) + mset (af_waiters (fst (af_stop p a))) =
   mset (af_waiters a)"
proof -
  have "woken (snd (af_stop p a)) = filter (\<lambda>w. fst w = p) (af_waiters a)"
    by (simp add: af_stop_def comp_def case_prod_beta)
  then have "image_mset (\<lambda>w. (fst w, fst (snd w))) (mset (snd (af_stop p a))) =
      mset (filter (\<lambda>w. fst w = p) (af_waiters a))" by (metis mset_map)
  then show ?thesis by (simp add: af_stop_def)
qed

lemma af_run_balance:
  "mset (af_waiters a @ af_blocked ops a) = mset (woken (snd (af_run ops a)) @ af_waiters (fst (af_run ops a)))"
proof (induction ops arbitrary: a)
  case (Cons op ops)
  let ?b = "case op of Fx_wait pos req rt old p \<Rightarrow> if af_value a = old then [(p, rt)] else [] | _ \<Rightarrow> []"
  let ?a = "fst (af_step op a)" and ?w = "snd (af_step op a)"
  have "mset (af_waiters a @ ?b) = mset (woken ?w @ af_waiters ?a)"
    by (cases op) (auto simp: af_stop_balance comp_def case_prod_beta split: list.split)
  then have "mset (af_waiters a @ ?b) + mset (af_blocked ops ?a) = mset (woken ?w) + mset (af_waiters ?a @ af_blocked ops ?a)"
    by (simp add: ac_simps)
  also have "\<dots> = mset (woken ?w) + mset (woken (snd (af_run ops ?a)) @ af_waiters (fst (af_run ops ?a)))"
    unfolding Cons ..
  finally show ?case by (simp add: case_prod_beta ac_simps)
qed simp

section \<open>Properties\<close>

text \<open>
  C8. Every wait of a futex ends once. For every sequence of waits, notifications, cancellations
  and stores, all operations return, no assert fails, and the handles scheduled on their runtimes
  together with those still in the list are exactly the waits that blocked, each as often as it
  blocked: no wake-up is lost and none is delivered twice.
\<close>

theorem futex_wakes_once:
  assumes "fx_oks off ops \<lparr>af_waiters = [], af_value = v\<rparr>"
  shows "let a = \<lparr>af_waiters = [], af_value = v\<rparr>; (a', ws) = af_run ops a in
    \<exists>f' cs. fx_run ops (fx_new off hs v) = Some (f', cs) \<and> filter is_wake cs = wake_calls ws \<and>
      idl_rep off (fx_heap f', fx_awaiters f') (map fst (af_waiters a')) \<and>
      mset (af_blocked ops a) = mset (woken ws @ af_waiters a')"
proof -
  let ?a = "\<lparr>af_waiters = [], af_value = v\<rparr>"
  have rel: "fx_rel (fx_new off hs v) ?a"
    using idl_rep_new [of off] by (simp add: fx_rel_def fx_new_def idl_new_def)
  have off: "fx_off (fx_new off hs v) = off" by (simp add: fx_new_def)
  from fx_run_sim [OF rel, unfolded off, OF assms] obtain f' cs where
    "fx_run ops (fx_new off hs v) = Some (f', cs)" "fx_off f' = off"
    "fx_rel f' (fst (af_run ops ?a))" "filter is_wake cs = wake_calls (snd (af_run ops ?a))"
    by blast
  with af_run_balance [of ?a ops] show ?thesis
    by (auto simp: fx_rel_def case_prod_beta Let_def)
qed

theorem futex_wakes_once_witness:
  "let ops = [Fx_wait False False 0x10 7 0x100, Fx_wait True False 0x20 (7 :: nat) 0x200, Fx_stop 0x200,
       Fx_wait False False 0x10 7 0x300, Fx_notify_one];
       a = \<lparr>af_waiters = [], af_value = 7\<rparr>; (a', ws) = af_run ops a in
    ws = [(0x200, 0x20, - ECANCELED), (0x100, 0x10, 0)] \<and> af_waiters a' = [(0x300, 0x10)] \<and>
    (\<exists>f' cs. fx_run ops (fx_new 8 (\<lambda>_. wh_new) 7) = Some (f', cs) \<and> filter is_wake cs = wake_calls ws \<and>
      idl_rep 8 (fx_heap f', fx_awaiters f') (map fst (af_waiters a')) \<and>
      mset (af_blocked ops a) = mset (woken ws @ af_waiters a'))"
  using futex_wakes_once [of 8 "[Fx_wait False False 0x10 7 0x100, Fx_wait True False 0x20 (7 :: nat) 0x200, Fx_stop 0x200,
       Fx_wait False False 0x10 7 0x300, Fx_notify_one]" 7 "\<lambda>_. wh_new"]
  by (simp add: af_stop_def idl_ok_def Let_def)

section \<open>Cancellation during a notification\<close>

lemma notify_loop_more:
  "fx_notify_pop result hs f = Some (True, hs1, f1, cs) \<Longrightarrow> fx_notify_loop result hs f acc = fx_notify_loop result hs1 f1 (acc @ cs)"
  by (subst fx_notify_loop.simps) simp

lemma notify_loop_end:
  "fx_notify_pop result hs f = Some (False, hs1, f1, cs) \<Longrightarrow> fx_notify_loop result hs f acc = Some (f1, acc)"
  by (subst fx_notify_loop.simps) simp

lemma notify_cancel_first:
  assumes rel: "fx_rel f a" and ws: "af_waiters a = (p, rt) # (q, rt') # ws"
  shows "\<exists>hs f1 f2 f3. fx_notify_take f = (hs, f1) \<and>
    \<not> dl_remove_asserts (fx_heap f1) (fx_awaiters f1) (p + fx_off f) \<and>
    wh_cancel p f1 = Some (f2, [Schedule_internal rt p]) \<and>
    fx_notify_loop result hs f2 [] = Some (f3, [Schedule_internal rt p]) \<and>
    fx_awaiters f3 = \<lparr>dl_head = q + fx_off f, dl_tail = nullptr\<rparr>"
proof -
  let ?x = "p + fx_off f" and ?y = "q + fx_off f" and ?h = "fx_heap f"
  let ?hs = "\<lparr>dl_head = ?x, dl_tail = dl_tail (fx_awaiters f)\<rparr>"
  let ?empty = "\<lparr>dl_head = nullptr, dl_tail = nullptr\<rparr>"
  have rep: "dl_rep ?h (fx_awaiters f) (?x # ?y # map (\<lambda>p. p + fx_off f) (map fst ws))" and null: "p \<noteq> nullptr"
    using rel ws by (auto simp: fx_rel_def idl_rep_def)
  then have x: "d_prev (?h ?x) = nullptr" "d_next (?h ?x) = ?y" "?x \<noteq> ?y" "?x \<noteq> nullptr" "?y \<noteq> nullptr"
    and hd: "dl_head (fx_awaiters f) = ?x" by (simp_all add: dl_rep_def dl_linked_def)
  have rt: "wh_runtime (fx_handles f p) = rt" "rt \<noteq> nullptr" using rel ws by (auto simp: fx_rel_def)
  let ?f1 = "f\<lparr>fx_awaiters := ?empty\<rparr>"
  have take: "fx_notify_take f = (?hs, ?f1)" by (simp add: fx_notify_take_def dl_move_def hd)
  let ?h2 = "?h(?y := (?h ?y)\<lparr>d_prev := nullptr\<rparr>, ?x := d_detached)"
  let ?l2 = "\<lparr>dl_head = ?y, dl_tail = nullptr\<rparr>"
  let ?f2 = "wh_set_result p (- ECANCELED) (?f1\<lparr>fx_heap := ?h2, fx_awaiters := ?l2\<rparr>)"
  have "dl_remove ?h ?empty ?x = (True, ?h2, ?l2)"
    using x by (simp add: dl_remove_def Let_def d_detachI)
  then have cancel: "wh_cancel p ?f1 = Some (?f2, [Schedule_internal rt p])"
    using rt by (simp add: wh_cancel_def fx_cancel_wait_def idl_remove_def)
  have asserts: "\<not> dl_remove_asserts (fx_heap ?f1) (fx_awaiters ?f1) ?x" using x by (simp add: dl_remove_asserts_def)
  let ?f3 = "wh_set_result p result (?f2\<lparr>fx_heap := ?h2\<rparr>)"
  have "dl_pop_front ?h2 ?hs = (?x, ?h2, ?empty)"
    using x by (simp add: dl_pop_front_def dl_empty_def Let_def d_detachI)
  then have pop1: "fx_notify_pop result ?hs ?f2 = Some (True, ?empty, ?f3, [Schedule_internal rt p])"
    using x null rt by (simp add: fx_notify_pop_def idl_pop_front_def container_of_def wh_schedule_def)
  have pop2: "fx_notify_pop result ?empty ?f3 = Some (False, ?empty, ?f3\<lparr>fx_heap := ?h2\<rparr>, [])"
    by (simp add: fx_notify_pop_def idl_pop_front_def dl_pop_front_def dl_empty_def)
  have loop: "fx_notify_loop result ?hs ?f2 [] = Some (?f3\<lparr>fx_heap := ?h2\<rparr>, [Schedule_internal rt p])"
    using notify_loop_more [OF pop1, of "[]"] notify_loop_end [OF pop2] by simp
  show ?thesis
    using take asserts cancel loop
    by (intro exI [of _ ?hs] exI [of _ ?f1] exI [of _ ?f2] exI [of _ "?f3\<lparr>fx_heap := ?h2\<rparr>"]) simp
qed



end
