(* ===== verification/Finish_Handles.thy ===== *)
theory Finish_Handles
  imports Runtime
begin

text \<open>
  \<open>include/condy/cqe_handler.hpp\<close> and \<open>detail/finish_handles.hpp\<close>: what a completion is turned
  into, and the finish handles of one-shot, multi-shot and zero-copy operations. A completion
  handler may change the state \<open>'b\<close> of the buffers it is bound to and returns \<open>None\<close> where it runs
  into undefined behaviour. The calls a finish handle makes (receiver, callback, free function,
  deletion of itself) are returned as events; \<open>None\<close> is a second use of the receiver or a use of a
  deleted handle.
\<close>

section \<open>Completion handlers\<close>

type_synonym ('b, 'r) cqe_handler = "cqe \<Rightarrow> 'b \<Rightarrow> ('r \<times> 'b) option"

definition simple_cqe_handler :: "('b, i32) cqe_handler" where
  "simple_cqe_handler c b = Some (cq_res c, b)"

text \<open>\<open>handle_finish\<close> of the buffers is the argument.\<close>

definition select_buffer_cqe_handler :: "(cqe \<Rightarrow> 'b \<Rightarrow> ('x \<times> 'b) option) \<Rightarrow> ('b, i32 \<times> 'x) cqe_handler" where
  "select_buffer_cqe_handler handle_finish c b = do {
     (x, b1) \<leftarrow> handle_finish c b;
     Some ((cq_res c, x), b1)
   }"

definition nvme_passthru_cqe_handler :: "('b, i32 \<times> u64) cqe_handler" where
  "nvme_passthru_cqe_handler c b = Some ((cq_res c, fst (cq_big c)), b)"

record scsi_bsg_result =
  res2 :: u64

definition device_status :: "scsi_bsg_result \<Rightarrow> u8" where
  "device_status r = ucast (res2 r AND 0xff)"

definition driver_status :: "scsi_bsg_result \<Rightarrow> u8" where
  "driver_status r = ucast (drop_bit 8 (res2 r) AND 0xff)"

definition host_status :: "scsi_bsg_result \<Rightarrow> u8" where
  "host_status r = ucast (drop_bit 16 (res2 r) AND 0xff)"

definition sense_len :: "scsi_bsg_result \<Rightarrow> u8" where
  "sense_len r = ucast (drop_bit 24 (res2 r) AND 0xff)"

definition resid_len :: "scsi_bsg_result \<Rightarrow> u32" where
  "resid_len r = ucast (drop_bit 32 (res2 r))"

definition scsi_bsg_passthru_cqe_handler :: "('b, i32 \<times> scsi_bsg_result) cqe_handler" where
  "scsi_bsg_passthru_cqe_handler c b = Some ((cq_res c, \<lparr>res2 = fst (cq_big c)\<rparr>), b)"

record tx_timestamp_result =
  tt_tstype :: i32
  tt_hwts :: bool
  tt_ts :: "u64 \<times> u64"

text \<open>The shift and the flag of the kernel interface are arguments.\<close>

definition tx_timestamp_cqe_handler :: "nat \<Rightarrow> u32 \<Rightarrow> ('b, i32 \<times> tx_timestamp_result) cqe_handler" where
  "tx_timestamp_cqe_handler type_shift hw_flag c b =
     Some ((cq_res c, \<lparr>tt_tstype = sint (drop_bit type_shift (cq_flags c)),
                       tt_hwts = (cq_flags c AND hw_flag \<noteq> 0), tt_ts = cq_big c\<rparr>), b)"

section \<open>Finish handles\<close>

definition cq_more :: "cqe \<Rightarrow> bool" where
  "cq_more c \<longleftrightarrow> cq_flags c AND IORING_CQE_F_MORE \<noteq> 0"

definition cq_notif :: "cqe \<Rightarrow> bool" where
  "cq_notif c \<longleftrightarrow> cq_flags c AND IORING_CQE_F_NOTIF \<noteq> 0"

datatype 'r fh_event =
    Receive 'r       \<comment> \<open>the receiver is invoked\<close>
  | Shot 'r          \<comment> \<open>the callback of a multi-shot operation\<close>
  | Free i32         \<comment> \<open>the free function of a zero-copy operation\<close>
  | Delete_self

record 'b finish_handle =
  fh_stop_callback :: bool
  fh_receiver :: bool       \<comment> \<open>the receiver has not been used\<close>
  fh_alive :: bool
  fh_buffers :: 'b

definition fh_new :: "'b \<Rightarrow> 'b finish_handle" where
  "fh_new b = \<lparr>fh_stop_callback = False, fh_receiver = True, fh_alive = True, fh_buffers = b\<rparr>"

text \<open>\<open>maybe_set_cancel\<close>, when a stop is possible; the callback cancels the entry of this handle.\<close>

definition maybe_set_cancel :: "bool \<Rightarrow> 'b finish_handle \<Rightarrow> 'b finish_handle" where
  "maybe_set_cancel stop_possible h = (if stop_possible then h\<lparr>fh_stop_callback := True\<rparr> else h)"

definition fh_cancellation ::
  "'s rt_uring \<Rightarrow> (sqe \<Rightarrow> i32) \<Rightarrow> ptr \<Rightarrow> ptr \<Rightarrow> ptr \<Rightarrow> ('s, 'a) world \<Rightarrow> ('s, 'a) world result option" where
  "fh_cancellation u sync ctx runtime self w = do {
     d \<leftarrow> encode_work self Common;
     cancel_internal u sync ctx runtime d w
   }"

definition fh_finish :: "('b, 'r) cqe_handler \<Rightarrow> cqe \<Rightarrow> 'b finish_handle \<Rightarrow> ('b finish_handle \<times> 'r fh_event list) option" where
  "fh_finish handler c h = do {
     massert (fh_alive h \<and> fh_receiver h);
     (r, b) \<leftarrow> handler c (fh_buffers h);
     Some (h\<lparr>fh_stop_callback := False, fh_receiver := False, fh_buffers := b\<rparr>, [Receive r])
   }"

definition op_handle_impl ::
  "('b, 'r) cqe_handler \<Rightarrow> cqe \<Rightarrow> 'b finish_handle \<Rightarrow> (bool \<times> 'b finish_handle \<times> 'r fh_event list) option" where
  "op_handle_impl handler c h = do {
     (h1, es) \<leftarrow> fh_finish handler c h;
     Some (True, h1, es)
   }"

definition ms_handle_impl ::
  "('b, 'r) cqe_handler \<Rightarrow> cqe \<Rightarrow> 'b finish_handle \<Rightarrow> (bool \<times> 'b finish_handle \<times> 'r fh_event list) option" where
  "ms_handle_impl handler c h =
     (if cq_more c then do {
        massert (fh_alive h);
        (r, b) \<leftarrow> handler c (fh_buffers h);
        Some (False, h\<lparr>fh_buffers := b\<rparr>, [Shot r])
      }
      else do {
        (h1, es) \<leftarrow> fh_finish handler c h;
        Some (True, h1, es)
      })"

definition zc_notify :: "i32 \<Rightarrow> 'b finish_handle \<Rightarrow> ('b finish_handle \<times> 'r fh_event list) option" where
  "zc_notify res h = do {
     massert (fh_alive h);
     Some (h\<lparr>fh_alive := False\<rparr>, [Free res, Delete_self])
   }"

definition zc_handle_impl ::
  "('b, 'r) cqe_handler \<Rightarrow> cqe \<Rightarrow> 'b finish_handle \<Rightarrow> (bool \<times> 'b finish_handle \<times> 'r fh_event list) option" where
  "zc_handle_impl handler c h =
     (if cq_more c then do {
        (h1, es) \<leftarrow> fh_finish handler c h;
        Some (False, h1, es)
      }
      else if cq_notif c then do {
        (h1, es) \<leftarrow> zc_notify (cq_res c) h;
        Some (True, h1, es)
      }
      else do {
        (h1, es) \<leftarrow> fh_finish handler c h;
        (h2, fs) \<leftarrow> zc_notify 0 h1;
        Some (True, h2, es @ fs)
      })"

section \<open>Streams of completions\<close>

text \<open>The completions of one operation, one after the other, until the handle says it is finished.\<close>

fun fh_stream ::
  "(cqe \<Rightarrow> 'b finish_handle \<Rightarrow> (bool \<times> 'b finish_handle \<times> 'r fh_event list) option) \<Rightarrow> cqe list \<Rightarrow>
   'b finish_handle \<Rightarrow> (bool list \<times> 'b finish_handle \<times> 'r fh_event list) option" where
  "fh_stream impl [] h = Some ([], h, [])"
| "fh_stream impl (c # cs) h = do {
     (fin, h1, es) \<leftarrow> impl c h;
     (fins, h2, fs) \<leftarrow> fh_stream impl cs h1;
     Some (fin # fins, h2, es @ fs)
   }"

text \<open>The results of the completion handler along a stream.\<close>

fun handler_run :: "('b, 'r) cqe_handler \<Rightarrow> cqe list \<Rightarrow> 'b \<Rightarrow> ('r list \<times> 'b) option" where
  "handler_run handler [] b = Some ([], b)"
| "handler_run handler (c # cs) b = do {
     (r, b1) \<leftarrow> handler c b;
     (rs, b2) \<leftarrow> handler_run handler cs b1;
     Some (r # rs, b2)
   }"

lemma handler_run_append:
  "handler_run handler (cs @ [c]) b = do {
     (rs, b1) \<leftarrow> handler_run handler cs b;
     (r, b2) \<leftarrow> handler c b1;
     Some (rs @ [r], b2)
   }"
proof (induction cs arbitrary: b)
  case (Cons d cs)
  then show ?case by (cases "handler d b") (auto simp: Option.bind_assoc split_beta intro: Option.bind_cong)
qed (auto simp: split_beta)

lemma ms_stream_more:
  assumes "\<forall>c \<in> set cs. cq_more c" and "handler_run handler cs (fh_buffers h) = Some (rs, b)" and "fh_alive h"
  shows "fh_stream (ms_handle_impl handler) cs h = Some (replicate (length cs) False, h\<lparr>fh_buffers := b\<rparr>, map Shot rs)"
  using assms
proof (induction cs arbitrary: h rs)
  case (Cons c cs)
  then obtain r b1 rs1 where r: "handler c (fh_buffers h) = Some (r, b1)" "handler_run handler cs b1 = Some (rs1, b)"
      "rs = r # rs1"
    by (auto simp: bind_eq_Some_conv)
  with Cons.IH [of "h\<lparr>fh_buffers := b1\<rparr>" rs1] Cons.prems show ?case
    by (simp add: ms_handle_impl_def)
qed simp

lemma fh_stream_append:
  "fh_stream impl (cs @ ds) h = do {
     (fins, h1, es) \<leftarrow> fh_stream impl cs h;
     (gins, h2, fs) \<leftarrow> fh_stream impl ds h1;
     Some (fins @ gins, h2, es @ fs)
   }"
proof (induction cs arbitrary: h)
  case (Cons c cs)
  then show ?case by (cases "impl c h") (auto simp: Option.bind_assoc split_beta intro: Option.bind_cong)
qed (auto simp: split_beta)

text \<open>
  What the kernel promises of the completions of one operation. All completions of a multi-shot
  operation but the last carry \<open>IORING_CQE_F_MORE\<close>. A zero-copy operation completes with this flag
  and then with a notification, or with a single completion that has neither flag.
\<close>

definition ms_contract :: "cqe list \<Rightarrow> bool" where
  "ms_contract cs \<longleftrightarrow> cs \<noteq> [] \<and> (\<forall>c \<in> set (butlast cs). cq_more c) \<and> \<not> cq_more (last cs)"

definition zc_contract :: "cqe list \<Rightarrow> bool" where
  "zc_contract cs \<longleftrightarrow>
     (\<exists>c d. cs = [c, d] \<and> cq_more c \<and> \<not> cq_more d \<and> cq_notif d) \<or> (\<exists>c. cs = [c] \<and> \<not> cq_more c \<and> \<not> cq_notif c)"

section \<open>Properties\<close>

text \<open>
  C23. A multi-shot operation delivers every completion once and in order: all results but the last
  go to the callback, the last one goes to the receiver, the handle reports the end of the
  operation exactly at the last completion, and the stop callback is gone.
\<close>

theorem multishot_stream:
  assumes "ms_contract cs" and "handler_run handler cs b = Some (rs, b')"
  shows "\<exists>h. fh_stream (ms_handle_impl handler) cs (maybe_set_cancel stop (fh_new b)) =
      Some (replicate (length cs - 1) False @ [True], h, map Shot (butlast rs) @ [Receive (last rs)]) \<and>
    fh_buffers h = b' \<and> \<not> fh_stop_callback h \<and> \<not> fh_receiver h"
proof -
  let ?h = "maybe_set_cancel stop (fh_new b)"
  have cs: "cs = butlast cs @ [last cs]" using assms(1) by (simp add: ms_contract_def)
  have "handler_run handler (butlast cs @ [last cs]) b = Some (rs, b')" using assms(2) cs by simp
  then obtain qs b1 r where qs: "handler_run handler (butlast cs) b = Some (qs, b1)"
      "handler (last cs) b1 = Some (r, b')" "rs = qs @ [r]"
    unfolding handler_run_append by (auto simp: bind_eq_Some_conv split_beta)
  have h: "fh_buffers ?h = b" "fh_alive ?h" "fh_receiver ?h" by (auto simp: maybe_set_cancel_def fh_new_def)
  have "fh_stream (ms_handle_impl handler) (butlast cs) ?h =
      Some (replicate (length (butlast cs)) False, ?h\<lparr>fh_buffers := b1\<rparr>, map Shot qs)"
    using assms(1) qs h by (intro ms_stream_more) (auto simp: ms_contract_def)
  moreover have "ms_handle_impl handler (last cs) (?h\<lparr>fh_buffers := b1\<rparr>) =
      Some (True, ?h\<lparr>fh_buffers := b', fh_stop_callback := False, fh_receiver := False\<rparr>, [Receive r])"
    using assms(1) qs h by (simp add: ms_contract_def ms_handle_impl_def fh_finish_def)
  ultimately have "fh_stream (ms_handle_impl handler) (butlast cs @ [last cs]) ?h =
      Some (replicate (length cs - 1) False @ [True],
        ?h\<lparr>fh_buffers := b', fh_stop_callback := False, fh_receiver := False\<rparr>, map Shot qs @ [Receive r])"
    by (simp add: fh_stream_append)
  with cs qs(3) show ?thesis by simp
qed

text \<open>
  C26. A zero-copy operation, however the kernel completes it, invokes its receiver exactly once, then
  calls the free function exactly once and deletes the handle, in this order; the handle reports
  the end of the operation with the last completion only.
\<close>

theorem zerocopy_stream:
  assumes "zc_contract cs" and "handler (hd cs) b = Some (r, b')"
  shows "\<exists>h res. fh_stream (zc_handle_impl handler) cs (maybe_set_cancel stop (fh_new b)) =
      Some (replicate (length cs - 1) False @ [True], h, [Receive r, Free res, Delete_self]) \<and>
    res = (if length cs = 2 then cq_res (last cs) else 0) \<and>
    fh_buffers h = b' \<and> \<not> fh_stop_callback h \<and> \<not> fh_receiver h \<and> \<not> fh_alive h"
  using assms
  by (auto simp: zc_contract_def zc_handle_impl_def zc_notify_def fh_finish_def maybe_set_cancel_def fh_new_def)

abbreviation sample_cqe :: "i32 \<Rightarrow> u32 \<Rightarrow> cqe" where
  "sample_cqe res flags \<equiv> \<lparr>cq_user_data = 0, cq_res = res, cq_flags = flags, cq_big = (0, 0)\<rparr>"

theorem multishot_stream_witness:
  "\<exists>h. fh_stream (ms_handle_impl simple_cqe_handler) [sample_cqe 5 2, sample_cqe 6 2, sample_cqe 0 0]
      (maybe_set_cancel True (fh_new ())) =
      Some (replicate 2 False @ [True], h, map Shot (butlast [5, 6, 0]) @ [Receive (last [5, 6, 0])]) \<and>
    fh_buffers h = () \<and> \<not> fh_stop_callback h \<and> \<not> fh_receiver h"
  using multishot_stream [of "[sample_cqe 5 2, sample_cqe 6 2, sample_cqe 0 0]" simple_cqe_handler "()" "[5, 6, 0]" "()" True]
  by (simp add: ms_contract_def cq_more_def simple_cqe_handler_def numeral_2_eq_2)

theorem zerocopy_stream_witness:
  "\<exists>h res. fh_stream (zc_handle_impl simple_cqe_handler) [sample_cqe 100 2, sample_cqe 7 8]
      (maybe_set_cancel True (fh_new ())) =
      Some (replicate (length [sample_cqe 100 2, sample_cqe 7 8] - 1) False @ [True], h, [Receive 100, Free res, Delete_self]) \<and>
    res = (if length [sample_cqe 100 2, sample_cqe 7 8] = 2 then cq_res (last [sample_cqe 100 2, sample_cqe 7 8]) else 0) \<and>
    fh_buffers h = () \<and> \<not> fh_stop_callback h \<and> \<not> fh_receiver h \<and> \<not> fh_alive h"
  by (rule zerocopy_stream) (simp_all add: zc_contract_def cq_more_def cq_notif_def simple_cqe_handler_def)

text \<open>
  The accessors of a SCSI result lose nothing: the five fields read from the second result word
  put together give the word back.
\<close>

theorem scsi_fields_roundtrip:
  "res2 r = ucast (device_status r) OR push_bit 8 (ucast (driver_status r)) OR push_bit 16 (ucast (host_status r)) OR
     push_bit 24 (ucast (sense_len r)) OR push_bit 32 (ucast (resid_len r))"
proof (rule bit_word_eqI)
  fix n
  assume n: "n < LENGTH(64)"
  have ff: "(0xff :: u64) = mask 8" by (simp add: mask_eq_exp_minus_1)
  have "n < 8 \<or> 8 \<le> n \<and> n < 16 \<or> 16 \<le> n \<and> n < 24 \<or> 24 \<le> n \<and> n < 32 \<or> 32 \<le> n \<and> n < 64"
    using n by (auto simp: not_less)
  then show "bit (res2 r) n = bit (ucast (device_status r) OR push_bit 8 (ucast (driver_status r)) OR
      push_bit 16 (ucast (host_status r)) OR push_bit 24 (ucast (sense_len r)) OR push_bit 32 (ucast (resid_len r)) :: u64) n"
    unfolding device_status_def driver_status_def host_status_def sense_len_def resid_len_def ff
    by (elim disjE) (auto simp: bit_simps)
qed

end
