(* ===== verification/Op_States.thy ===== *)
theory Op_States
  imports Finish_Handles
begin

text \<open>
  \<open>include/condy/detail/op_states.hpp\<close>: the operation states. The first section is the start of a
  single operation on the ring of the current runtime; the second the parallel operation states
  behind \<open>when_all\<close> and \<open>when_any\<close>; the third the linked ones.
\<close>

section \<open>A single operation\<close>

text \<open>
  A preparation function takes an entry from the ring and describes what it is filled with; a null
  entry means that the operation is not supported. The flags and the user data are set by the
  operation state.
\<close>

type_synonym 's prep = "'s rt_uring \<Rightarrow> 's ring \<Rightarrow> (ptr \<times> sqe \<times> 's ring) option"

text \<open>
  \<open>OpSenderOperationState::start\<close> up to the registration of the stop callback, which concerns the
  handle only and is \<open>maybe_set_cancel\<close> of the finish handles. \<open>Inl\<close> is the result that \<open>fail_\<close> delivers.
\<close>

definition op_start ::
  "'s rt_uring \<Rightarrow> ptr \<Rightarrow> bool \<Rightarrow> 's prep \<Rightarrow> sqe_flag set \<Rightarrow> ptr \<Rightarrow> ('s, 'a) world \<Rightarrow> ((i32 + unit) \<times> ('s, 'a) world) option" where
  "op_start u ctx stop_requested prep flags self w =
     (if ctx = nullptr then Some (Inl (- EINVAL), w)
      else if stop_requested then Some (Inl (- ECANCELED), w)
      else do {
        (sqe, q, g) \<leftarrow> prep u (rt_ring (w_rts w ctx));
        let w1 = w_upd ctx (\<lambda>x. x\<lparr>rt_ring := g\<rparr>) w;
        if sqe = nullptr then Some (Inl (- EINVAL), w1)
        else do {
          w2 \<leftarrow> pend_work_internal ctx ctx w1;
          work \<leftarrow> encode_work self Common;
          let q1 = q\<lparr>sq_flags := sq_flags q \<union> flags, sq_user_data := work\<rparr>;
          let g1 = g\<lparr>rg_uring := u_fill u sqe q1 (rg_uring g)\<rparr>;
          Some (Inr (), w_upd ctx (\<lambda>x. x\<lparr>rt_ring := ring_maybe_submit u g1\<rparr>) w2)
        }
      })"

text \<open>\<open>fail_\<close>: the handle sees a completion with the error and nothing else.\<close>

definition op_fail ::
  "(cqe \<Rightarrow> 'b finish_handle \<Rightarrow> (bool \<times> 'b finish_handle \<times> 'r fh_event list) option) \<Rightarrow> i32 \<Rightarrow>
   'b finish_handle \<Rightarrow> ('b finish_handle \<times> 'r fh_event list) option" where
  "op_fail impl res h = do {
     massert (res < 0);
     (_, h1, es) \<leftarrow> impl \<lparr>cq_user_data = 0, cq_res = res, cq_flags = 0, cq_big = (0, 0)\<rparr> h;
     Some (h1, es)
   }"

text \<open>\<open>FlaggedOpState::start\<close>; \<open>start\<close> is the operation below.\<close>

definition flagged_start :: "sqe_flag set \<Rightarrow> (sqe_flag set \<Rightarrow> 'w \<Rightarrow> 'x) \<Rightarrow> sqe_flag set \<Rightarrow> 'w \<Rightarrow> 'x" where
  "flagged_start Flags start flags w = start (flags \<union> Flags) w"

text \<open>The preparation functions of the library: they take an entry and make the given calls on it.\<close>

definition op_prep :: "(string \<times> arg list) list \<Rightarrow> sqe_flag set \<Rightarrow> 's prep" where
  "op_prep calls flags u g = do {
     (sqe, g1) \<leftarrow> ring_get_sqe u g;
     Some (sqe, \<lparr>sq_prep = calls, sq_user_data = 0, sq_flags = flags\<rparr>, g1)
   }"

definition op_prep128 :: "(string \<times> arg list) list \<Rightarrow> sqe_flag set \<Rightarrow> 's prep" where
  "op_prep128 calls flags u g = do {
     (sqe, g1) \<leftarrow> ring_get_sqe128 u g;
     Some (sqe, \<lparr>sq_prep = (if sqe \<noteq> nullptr then calls else []), sq_user_data = 0, sq_flags = flags\<rparr>, g1)
   }"

section \<open>Parallel operations\<close>

text \<open>
  The two cancellers differ in the stop token that they give to the children: \<open>When_any\<close> has a
  stop source of its own, \<open>When_all\<close> passes the token of the receiver on.
\<close>

datatype canceller = When_any | When_all

record 'r par =
  pa_canceller :: canceller
  pa_order :: "nat option list"
  pa_results :: "'r option list"
  pa_completed_count :: nat
  pa_stop_callback :: bool
  pa_stop_requested :: bool     \<comment> \<open>of the token that the children have\<close>
  pa_received :: "(nat option list \<times> 'r option list) list"

definition chain_token :: "bool \<Rightarrow> bool \<Rightarrow> 'r par \<Rightarrow> 'r par" where
  "chain_token stop_possible stop_requested s =
     (case pa_canceller s of
        When_any \<Rightarrow> if stop_possible then s\<lparr>pa_stop_callback := True, pa_stop_requested := stop_requested\<rparr> else s
      | When_all \<Rightarrow> s\<lparr>pa_stop_requested := stop_possible \<and> stop_requested\<rparr>)"

definition canceller_done :: "'r par \<Rightarrow> 'r par" where
  "canceller_done s = (case pa_canceller s of When_any \<Rightarrow> s\<lparr>pa_stop_requested := True\<rparr> | When_all \<Rightarrow> s)"

definition canceller_reset :: "'r par \<Rightarrow> 'r par" where
  "canceller_reset s = (case pa_canceller s of When_any \<Rightarrow> s\<lparr>pa_stop_callback := False\<rparr> | When_all \<Rightarrow> s)"

text \<open>The constructor, for \<open>n\<close> senders.\<close>

definition par_new :: "canceller \<Rightarrow> bool \<Rightarrow> bool \<Rightarrow> nat \<Rightarrow> 'r par" where
  "par_new c stop_possible stop_requested n =
     chain_token stop_possible stop_requested
       \<lparr>pa_canceller = c, pa_order = replicate n None, pa_results = replicate n None, pa_completed_count = 0,
        pa_stop_callback = False, pa_stop_requested = False, pa_received = []\<rparr>"

definition par_deliver :: "'r par \<Rightarrow> 'r par" where
  "par_deliver s = s\<lparr>pa_received := pa_received s @ [(pa_order s, pa_results s)]\<rparr>"

text \<open>\<open>ParallelOperationState::receive_\<close>; an index outside the arrays is undefined behaviour.\<close>

definition par_store :: "nat \<Rightarrow> 'r \<Rightarrow> 'r par \<Rightarrow> (nat \<times> 'r par) option" where
  "par_store i r s = do {
     let s1 = canceller_done s;
     let no = pa_completed_count s1;
     massert (no < length (pa_order s1) \<and> i < length (pa_results s1));
     Some (no, s1\<lparr>pa_completed_count := no + 1, pa_order := (pa_order s1)[no := Some i],
                  pa_results := (pa_results s1)[i := Some r]\<rparr>)
   }"

definition par_receive :: "nat \<times> 'r \<Rightarrow> 'r par \<Rightarrow> 'r par option" where
  "par_receive ir s = do {
     (no, s1) \<leftarrow> par_store (fst ir) (snd ir) s;
     Some (if no + 1 = length (pa_order s1) then par_deliver (canceller_reset s1) else s1)
   }"

text \<open>\<open>RangedParallelOperationState::receive_\<close>, which does not reset the canceller.\<close>

definition ranged_receive :: "nat \<times> 'r \<Rightarrow> 'r par \<Rightarrow> 'r par option" where
  "ranged_receive ir s = do {
     (no, s1) \<leftarrow> par_store (fst ir) (snd ir) s;
     Some (if no + 1 = length (pa_order s1) then par_deliver s1 else s1)
   }"

text \<open>
  Starting the children one after the other. A child that completes inline yields its result at
  once; whether it does may depend on the stop token. The results are returned, in their order.
\<close>

type_synonym 'r child = "sqe_flag set \<Rightarrow> bool \<Rightarrow> 'r option"

fun start_children ::
  "(nat \<times> 'r \<Rightarrow> 'r par \<Rightarrow> 'r par option) \<Rightarrow> 'r child list \<Rightarrow> nat \<Rightarrow> sqe_flag set \<Rightarrow> 'r par \<Rightarrow> ((nat \<times> 'r) list \<times> 'r par) option" where
  "start_children receive [] i flags s = Some ([], s)"
| "start_children receive (c # cs) i flags s =
     (case c flags (pa_stop_requested s) of
        None \<Rightarrow> start_children receive cs (i + 1) flags s
      | Some r \<Rightarrow> do {
          s1 \<leftarrow> receive (i, r) s;
          (ds, s2) \<leftarrow> start_children receive cs (i + 1) flags s1;
          Some ((i, r) # ds, s2)
        })"

definition par_start :: "'r child list \<Rightarrow> sqe_flag set \<Rightarrow> 'r par \<Rightarrow> ((nat \<times> 'r) list \<times> 'r par) option" where
  "par_start children flags s =
     (if length children = 0 then Some ([], par_deliver s) else start_children par_receive children 0 flags s)"

definition ranged_start :: "'r child list \<Rightarrow> sqe_flag set \<Rightarrow> 'r par \<Rightarrow> ((nat \<times> 'r) list \<times> 'r par) option" where
  "ranged_start children flags s =
     (if children = [] then Some ([], par_deliver s) else start_children ranged_receive children 0 flags s)"

text \<open>
  What the wrappers of the receiver make of the pair. \<open>receiver_any\<close> is the wrapper of the vector
  variant; the one of the tuple variant passes \<open>tuple_at(results, index)\<close>, a variant that holds the
  same result as the alternative of the same index.
\<close>

definition receiver_all :: "nat option list \<times> 'r option list \<Rightarrow> 'r option list" where
  "receiver_all result = snd result"

definition receiver_any :: "nat option list \<times> 'r option list \<Rightarrow> (nat \<times> 'r) option" where
  "receiver_any result =
     (case result of (order, results) \<Rightarrow> do {
        massert (0 < length order);
        i \<leftarrow> order ! 0;
        massert (i < length results);
        r \<leftarrow> results ! i;
        Some (i, r)
      })"

section \<open>Linked operations\<close>

text \<open>
  The children as functions that start them. \<open>start_linked\<close> is the recursion of the tuple variant,
  \<open>ranged_linked\<close> the loop of the vector variant; \<open>link_start\<close> reserves the space first.
\<close>

fun start_linked :: "sqe_flag set \<Rightarrow> (sqe_flag set \<Rightarrow> 'w \<Rightarrow> 'w option) list \<Rightarrow> sqe_flag set \<Rightarrow> 'w \<Rightarrow> 'w option" where
  "start_linked Flags [] flags w = Some w"
| "start_linked Flags [c] flags w = c flags w"
| "start_linked Flags (c # cs) flags w = c (flags \<union> Flags) w \<bind> start_linked Flags cs flags"

function ranged_linked :: "sqe_flag set \<Rightarrow> (sqe_flag set \<Rightarrow> 'w \<Rightarrow> 'w option) list \<Rightarrow> nat \<Rightarrow> sqe_flag set \<Rightarrow> 'w \<Rightarrow> 'w option" where
  "ranged_linked Flags cs i flags w =
     (if i < length cs then
        (cs ! i) (if i < length cs - 1 then flags \<union> Flags else flags) w \<bind> ranged_linked Flags cs (i + 1) flags
      else Some w)"
  by auto
termination
  by (relation "measure (\<lambda>(Flags, cs, i, flags, w). length cs - i)") auto

definition link_reserve :: "'s rt_uring \<Rightarrow> ptr \<Rightarrow> nat \<Rightarrow> ('s, 'a) world \<Rightarrow> ('s, 'a) world option" where
  "link_reserve u ctx n w = do {
     massert (ctx \<noteq> nullptr);
     g \<leftarrow> ring_reserve_space u (of_nat n) (rt_ring (w_rts w ctx));
     Some (w_upd ctx (\<lambda>x. x\<lparr>rt_ring := g\<rparr>) w)
   }"

definition link_start ::
  "'s rt_uring \<Rightarrow> ptr \<Rightarrow> sqe_flag set \<Rightarrow> (sqe_flag set \<Rightarrow> ('s, 'a) world \<Rightarrow> ('s, 'a) world option) list \<Rightarrow>
   sqe_flag set \<Rightarrow> ('s, 'a) world \<Rightarrow> ('s, 'a) world option" where
  "link_start u ctx Flags cs flags w = do {
     w1 \<leftarrow> link_reserve u ctx (length cs) w;
     start_linked Flags cs flags w1
   }"

definition ranged_link_start ::
  "'s rt_uring \<Rightarrow> ptr \<Rightarrow> sqe_flag set \<Rightarrow> (sqe_flag set \<Rightarrow> ('s, 'a) world \<Rightarrow> ('s, 'a) world option) list \<Rightarrow>
   sqe_flag set \<Rightarrow> ('s, 'a) world \<Rightarrow> ('s, 'a) world option" where
  "ranged_link_start u ctx Flags cs flags w = do {
     w1 \<leftarrow> link_reserve u ctx (length cs) w;
     ranged_linked Flags cs 0 flags w1
   }"

section \<open>Lemmas\<close>

lemma start_linked_append:
  "start_linked Flags (cs @ [c]) flags w =
   fold_opt (\<lambda>d. d (flags \<union> Flags)) cs w \<bind> c flags"
proof (induction cs arbitrary: w)
  case (Cons d cs)
  then show ?case by (cases cs) (auto intro: Option.bind_cong)
qed simp

lemma start_linked_Nil: "start_linked Flags [] flags = Some"
  by (intro ext) simp

declare ranged_linked.simps [simp del]

lemma ranged_linked_drop:
  assumes "i \<le> length cs"
  shows "ranged_linked Flags cs i flags w = start_linked Flags (drop i cs) flags w"
  using assms
proof (induction "length cs - i" arbitrary: i w)
  case 0
  then show ?case by (subst ranged_linked.simps) simp
next
  case (Suc m)
  then have lt: "i < length cs" by simp
  have IH: "ranged_linked Flags cs (Suc i) flags = start_linked Flags (drop (Suc i) cs) flags"
    using Suc.hyps(1) [of "Suc i"] Suc.hyps(2) lt by (intro ext) simp
  have d: "drop i cs = cs ! i # drop (Suc i) cs" using lt by (simp add: Cons_nth_drop_Suc)
  show ?case
  proof (cases "drop (Suc i) cs")
    case Nil
    then have "\<not> i < length cs - 1" by auto
    with Nil lt show ?thesis by (subst ranged_linked.simps) (simp add: d IH start_linked_Nil)
  next
    case (Cons x xs)
    then have "i < length cs - 1" using lt by (metis Suc_lessI diff_Suc_1 drop_all length_Suc_conv less_diff_conv
          list.distinct(1) not_less add.commute plus_1_eq_Suc)
    with Cons lt show ?thesis by (subst ranged_linked.simps) (simp add: d IH)
  qed
qed

lemma ring_get_sqe_slot:
  assumes slots: "\<forall>s. fst (u_get_sqe u s) \<noteq> Some nullptr" and get: "ring_get_sqe u g = Some (sqe, g')"
  shows "sqe \<noteq> nullptr"
proof -
  have "ring_get_sqe_with u f g = Some r \<Longrightarrow> (\<forall>s. fst (f s) \<noteq> Some nullptr) \<longrightarrow> fst r \<noteq> nullptr" for f r
  proof (induction rule: ring_get_sqe_with.raw_induct [rotated, consumes 1])
    case (1 rec u f g r)
    then show ?case
    proof (cases "fst (f (rg_uring g))")
      case (Some p)
      with 1(2) have "fst r = p" by (auto split: prod.split_asm)
      with Some show ?thesis by auto
    next
      case None
      then obtain s where "f (rg_uring g) = (None, s)" by (cases "f (rg_uring g)") auto
      with 1(2) obtain g2 where "rec u f g2 = Some r"
        by (cases "u_sqpoll u") (auto simp: Let_def bind_eq_Some_conv split: prod.split_asm)
      from 1(1) [OF this] show ?thesis .
    qed
  qed
  with get slots show ?thesis by (force simp: ring_get_sqe_def)
qed

text \<open>The state of a parallel operation after the completions \<open>ps\<close>.\<close>

definition par_after :: "canceller \<Rightarrow> bool \<Rightarrow> bool \<Rightarrow> nat \<Rightarrow> (nat \<times> 'r) list \<Rightarrow> 'r par \<Rightarrow> bool" where
  "par_after c pos req n ps s \<longleftrightarrow>
     pa_canceller s = c \<and> pa_completed_count s = length ps \<and>
     pa_order s = map (Some \<circ> fst) ps @ replicate (n - length ps) None \<and>
     pa_results s = map (map_of ps) [0..<n] \<and>
     pa_stop_requested s = (pos \<and> req \<or> c = When_any \<and> ps \<noteq> []) \<and>
     pa_received s = (if length ps = n \<and> 0 < n then [(pa_order s, pa_results s)] else [])"

lemma par_new_after: "par_after c pos req n [] (par_new c pos req n)"
  by (cases c) (auto simp: par_after_def par_new_def chain_token_def map_replicate_trivial intro: nth_equalityI)

lemma order_update: "k < n \<Longrightarrow> length xs = k \<Longrightarrow> (xs @ replicate (n - k) None)[k := Some i] = xs @ Some i # replicate (n - Suc k) None"
  by (cases "n - k") (auto simp: list_update_append)

lemma results_update:
  assumes "i \<notin> fst ` set ps"
  shows "(map (map_of ps) [0..<n])[i := Some r] = map (map_of (ps @ [(i, r)])) [0..<n]"
proof (rule nth_equalityI)
  fix j
  assume "j < length ((map (map_of ps) [0..<n])[i := Some r])"
  moreover have "map_of ps i = None" using assms by (simp add: map_of_eq_None_iff)
  ultimately show "(map (map_of ps) [0..<n])[i := Some r] ! j = map (map_of (ps @ [(i, r)])) [0..<n] ! j"
    by (cases "j = i") (auto simp: map_add_def split: option.split)
qed simp

lemma par_store_after:
  assumes after: "par_after c pos req n ps s" and "length ps < n" and "i < n" and "i \<notin> fst ` set ps"
  shows "\<exists>s1. par_store i r s = Some (length ps, s1) \<and> pa_canceller s1 = c \<and> pa_completed_count s1 = length (ps @ [(i, r)]) \<and>
    pa_order s1 = map (Some \<circ> fst) (ps @ [(i, r)]) @ replicate (n - length (ps @ [(i, r)])) None \<and>
    pa_results s1 = map (map_of (ps @ [(i, r)])) [0..<n] \<and>
    pa_stop_requested s1 = (pos \<and> req \<or> c = When_any \<and> ps @ [(i, r)] \<noteq> []) \<and> pa_received s1 = []"
  using assms order_update [of "length ps" n "map (Some \<circ> fst) ps" i] results_update [of i ps n r]
  by (cases c) (simp_all add: par_store_def par_after_def canceller_done_def Let_def del: map_of_append)

lemma par_receive_after:
  assumes "par_after c pos req n ps s" and "length ps < n" and "i < n" and "i \<notin> fst ` set ps"
  shows "\<exists>s'. par_receive (i, r) s = Some s' \<and> par_after c pos req n (ps @ [(i, r)]) s' \<and>
    (length (ps @ [(i, r)]) = n \<and> c = When_any \<longrightarrow> \<not> pa_stop_callback s')"
proof -
  from par_store_after [OF assms, of r] obtain s1 where s1: "par_store i r s = Some (length ps, s1)"
    "pa_canceller s1 = c" "pa_completed_count s1 = length (ps @ [(i, r)])"
    "pa_order s1 = map (Some \<circ> fst) (ps @ [(i, r)]) @ replicate (n - length (ps @ [(i, r)])) None"
    "pa_results s1 = map (map_of (ps @ [(i, r)])) [0..<n]"
    "pa_stop_requested s1 = (pos \<and> req \<or> c = When_any \<and> ps @ [(i, r)] \<noteq> [])" "pa_received s1 = []"
    by blast
  have len: "length (pa_order s1) = n" using s1(4) assms(2) by simp
  show ?thesis
    using s1 assms(2) len
    by (cases c) (auto simp: par_receive_def par_after_def par_deliver_def canceller_reset_def simp del: map_of_append map_append)
qed

lemma ranged_receive_after:
  assumes "par_after c pos req n ps s" and "length ps < n" and "i < n" and "i \<notin> fst ` set ps"
  shows "\<exists>s'. ranged_receive (i, r) s = Some s' \<and> par_after c pos req n (ps @ [(i, r)]) s'"
proof -
  from par_store_after [OF assms, of r] obtain s1 where s1: "par_store i r s = Some (length ps, s1)"
    "pa_canceller s1 = c" "pa_completed_count s1 = length (ps @ [(i, r)])"
    "pa_order s1 = map (Some \<circ> fst) (ps @ [(i, r)]) @ replicate (n - length (ps @ [(i, r)])) None"
    "pa_results s1 = map (map_of (ps @ [(i, r)])) [0..<n]"
    "pa_stop_requested s1 = (pos \<and> req \<or> c = When_any \<and> ps @ [(i, r)] \<noteq> [])" "pa_received s1 = []"
    by blast
  have len: "length (pa_order s1) = n" using s1(4) assms(2) by simp
  show ?thesis
    using s1 assms(2) len
    by (cases c) (auto simp: ranged_receive_def par_after_def par_deliver_def simp del: map_of_append map_append)
qed

text \<open>
  What both variants of \<open>receive_\<close> promise, and what follows for the operation: any mixture of
  children that complete inline and later completions of the other ones delivers once.
\<close>

locale parallel_receive =
  fixes receive :: "nat \<times> 'r \<Rightarrow> 'r par \<Rightarrow> 'r par option"
  assumes receive_after: "par_after c pos req n ps s \<Longrightarrow> length ps < n \<Longrightarrow> i < n \<Longrightarrow> i \<notin> fst ` set ps \<Longrightarrow>
    \<exists>s'. receive (i, r) s = Some s' \<and> par_after c pos req n (ps @ [(i, r)]) s'"
begin

lemma distinct_room:
  assumes "distinct (map fst (ps @ (i, r) # cs))" and "fst ` set (ps @ (i, r) # cs) \<subseteq> {..<n}"
  shows "length ps < n \<and> i < n \<and> i \<notin> fst ` set ps"
proof -
  have "card (fst ` set (ps @ [(i, r)])) \<le> card {..<n}"
    using assms(2) by (intro card_mono) auto
  moreover have "card (fst ` set (ps @ [(i, r)])) = length (ps @ [(i, r)])"
    using assms(1) distinct_card [of "map fst (ps @ [(i, r)])"] by auto
  ultimately show ?thesis using assms by auto
qed

lemma run_after:
  "par_after c pos req n ps s \<Longrightarrow> distinct (map fst (ps @ cs)) \<Longrightarrow> fst ` set (ps @ cs) \<subseteq> {..<n} \<Longrightarrow>
   \<exists>s'. fold_opt receive cs s = Some s' \<and> par_after c pos req n (ps @ cs) s'"
proof (induction cs arbitrary: ps s)
  case (Cons d cs)
  obtain i r where d: "d = (i, r)" by (cases d) auto
  from distinct_room [of ps i r cs n] Cons.prems d receive_after [OF Cons.prems(1), of i r] obtain s1 where
    s1: "receive d s = Some s1" "par_after c pos req n (ps @ [d]) s1" by auto
  with Cons.IH [OF s1(2)] Cons.prems show ?case by auto
qed simp

lemma start_after:
  "par_after c pos req n ps s \<Longrightarrow> distinct (map fst ps) \<Longrightarrow> fst ` set ps \<subseteq> {..<i} \<Longrightarrow> n = i + length children \<Longrightarrow>
   \<exists>ds s'. start_children receive children i flags s = Some (ds, s') \<and> par_after c pos req n (ps @ ds) s' \<and>
     distinct (map fst (ps @ ds)) \<and> fst ` set (ps @ ds) \<subseteq> {..<n}"
proof (induction children arbitrary: i ps s)
  case (Cons child children)
  show ?case
  proof (cases "child flags (pa_stop_requested s)")
    case None
    with Cons.IH [of ps s "i + 1"] Cons.prems show ?thesis by force
  next
    case (Some r)
    have "distinct (map fst (ps @ (i, r) # []))" "fst ` set (ps @ (i, r) # []) \<subseteq> {..<n}"
      using Cons.prems by auto
    from distinct_room [OF this] receive_after [OF Cons.prems(1), of i r] obtain s1 where
      s1: "receive (i, r) s = Some s1" "par_after c pos req n (ps @ [(i, r)]) s1" by auto
    have "distinct (map fst (ps @ [(i, r)]))" "fst ` set (ps @ [(i, r)]) \<subseteq> {..<i + 1}"
      using Cons.prems by auto
    from Cons.IH [OF s1(2) this] Cons.prems(4) obtain ds s2 where
      "start_children receive children (i + 1) flags s1 = Some (ds, s2)"
      "par_after c pos req n ((ps @ [(i, r)]) @ ds) s2" "distinct (map fst ((ps @ [(i, r)]) @ ds))"
      "fst ` set ((ps @ [(i, r)]) @ ds) \<subseteq> {..<n}" by auto
    with s1 Some show ?thesis by simp
  qed
qed auto

lemma after_received:
  assumes "par_after c pos req n cs s" and "distinct (map fst cs)" and "fst ` set cs = {..<n}" and "0 < n"
  shows "pa_received s = [(map (Some \<circ> fst) cs, map (map_of cs) [0..<n])] \<and>
    receiver_any (hd (pa_received s)) = Some (hd cs)"
proof -
  have len: "length cs = n" using assms(2,3) distinct_card [of "map fst cs"] by simp
  then obtain i r ds where cs: "cs = (i, r) # ds" using assms(4) by (cases cs) auto
  moreover have "i < n" using assms(3) cs by auto
  ultimately show ?thesis using assms(1,4) len by (simp add: par_after_def receiver_any_def)
qed

lemma completes:
  assumes "children \<noteq> []"
  shows "\<exists>ds s1. start_children receive children 0 flags (par_new c pos req (length children)) = Some (ds, s1) \<and>
    (\<forall>es. distinct (map fst (ds @ es)) \<and> fst ` set (ds @ es) = {..<length children} \<longrightarrow>
      (\<exists>s2. fold_opt receive es s1 = Some s2 \<and>
        pa_received s2 = [(map (Some \<circ> fst) (ds @ es), map (map_of (ds @ es)) [0..<length children])] \<and>
        receiver_any (hd (pa_received s2)) = Some (hd (ds @ es)) \<and>
        pa_stop_requested s2 = (pos \<and> req \<or> c = When_any)) \<and>
      (\<forall>k < length es. \<exists>s2. fold_opt receive (take k es) s1 = Some s2 \<and> pa_received s2 = []))"
proof -
  let ?n = "length children"
  from start_after [OF par_new_after [of c pos req ?n], of 0 children flags] obtain ds s1 where
    ds: "start_children receive children 0 flags (par_new c pos req ?n) = Some (ds, s1)"
    "par_after c pos req ?n ds s1" by auto
  have main: "(\<exists>s2. fold_opt receive es s1 = Some s2 \<and>
        pa_received s2 = [(map (Some \<circ> fst) (ds @ es), map (map_of (ds @ es)) [0..<?n])] \<and>
        receiver_any (hd (pa_received s2)) = Some (hd (ds @ es)) \<and>
        pa_stop_requested s2 = (pos \<and> req \<or> c = When_any)) \<and>
      (\<forall>k < length es. \<exists>s2. fold_opt receive (take k es) s1 = Some s2 \<and> pa_received s2 = [])"
    if es: "distinct (map fst (ds @ es))" "fst ` set (ds @ es) = {..<?n}" for es
  proof (intro conjI allI impI)
    obtain s2 where s2: "fold_opt receive es s1 = Some s2" "par_after c pos req ?n (ds @ es) s2"
      using run_after [OF ds(2) es(1) equalityD1 [OF es(2)]] by blast
    have ne: "ds @ es \<noteq> []" using es(2) assms by auto
    show "\<exists>s2. fold_opt receive es s1 = Some s2 \<and>
        pa_received s2 = [(map (Some \<circ> fst) (ds @ es), map (map_of (ds @ es)) [0..<?n])] \<and>
        receiver_any (hd (pa_received s2)) = Some (hd (ds @ es)) \<and>
        pa_stop_requested s2 = (pos \<and> req \<or> c = When_any)"
    proof (intro exI conjI)
      show "fold_opt receive es s1 = Some s2" by (rule s2)
      have "0 < ?n" using assms by simp
      note rec = after_received [OF s2(2) es this]
      show "pa_received s2 = [(map (Some \<circ> fst) (ds @ es), map (map_of (ds @ es)) [0..<?n])]"
        "receiver_any (hd (pa_received s2)) = Some (hd (ds @ es))"
        using rec by blast+
      show "pa_stop_requested s2 = (pos \<and> req \<or> c = When_any)" using s2(2) ne by (auto simp: par_after_def)
    qed
    fix k
    assume k: "k < length es"
    have len: "length (ds @ es) = ?n" using distinct_card [OF es(1)] unfolding set_map es(2) by simp
    have split: "ds @ es = (ds @ take k es) @ drop k es" by simp
    have "distinct (map fst (ds @ take k es))"
      using es(1) unfolding split map_append [of _ "ds @ take k es"] distinct_append by blast
    moreover have "fst ` set (ds @ take k es) \<subseteq> {..<?n}"
      using es(2) unfolding split set_append [of "ds @ take k es"] by blast
    ultimately obtain s2 where
      "fold_opt receive (take k es) s1 = Some s2" "par_after c pos req ?n (ds @ take k es) s2"
      using run_after [OF ds(2)] by blast
    with k len show "\<exists>s2. fold_opt receive (take k es) s1 = Some s2 \<and> pa_received s2 = []"
      by (auto simp: par_after_def)
  qed
  show ?thesis
    by (rule exI, rule exI, rule conjI [OF ds(1)], rule allI, rule impI, rule main, erule conjunct1, erule conjunct2)
qed

end

interpretation tuple: parallel_receive par_receive
proof
  fix c pos req n ps i r and s :: "'r par"
  assume "par_after c pos req n ps s" "length ps < n" "i < n" "i \<notin> fst ` set ps"
  from par_receive_after [OF this, of r]
  show "\<exists>s'. par_receive (i, r) s = Some s' \<and> par_after c pos req n (ps @ [(i, r)]) s'" by blast
qed

interpretation ranged: parallel_receive ranged_receive
proof
  fix c pos req n ps i r and s :: "'r par"
  assume "par_after c pos req n ps s" "length ps < n" "i < n" "i \<notin> fst ` set ps"
  then show "\<exists>s'. ranged_receive (i, r) s = Some s' \<and> par_after c pos req n (ps @ [(i, r)]) s'"
    by (rule ranged_receive_after)
qed

section \<open>Properties of single operations\<close>

text \<open>
  C14. An operation that starts is connected with its completion. The start takes one entry of the
  ring, fills it with the prepared calls, the flags and the address of the finish handle, and
  counts one more pending work. A completion with that user data is dispatched to exactly this
  finish handle, and takes the count back when the handle says that the operation is finished.
\<close>

theorem op_start_dispatch:
  assumes "sq_contract u entries" and "\<not> u_sqpoll u" and "\<forall>s. fst (u_get_sqe u s) \<noteq> Some nullptr"
    and "aligned8 self" and "ctx \<noteq> nullptr"
  shows "\<exists>w' q sqe g. op_start u ctx False (op_prep calls qflags) flags self w = Some (Inr (), w') \<and>
    ring_get_sqe u (rt_ring (w_rts w ctx)) = Some (sqe, g) \<and> sq_prep q = calls \<and> sq_flags q = qflags \<union> flags \<and>
    w' = w_upd ctx (\<lambda>x. x\<lparr>rt_pending_works := rt_pending_works x + 1,
      rt_ring := ring_maybe_submit u (g\<lparr>rg_uring := u_fill u sqe q (rg_uring g)\<rparr>)\<rparr>) w \<and>
    (\<forall>c v fin v1. cq_user_data c = sq_user_data q \<and> handle self c v = Some (fin, v1) \<longrightarrow>
       process_cqe u invoke handle ctx c v =
       Some (Inr (if fin then w_upd ctx (\<lambda>x. x\<lparr>rt_pending_works := rt_pending_works x - 1\<rparr>) v1 else v1)))"
proof -
  obtain sqe g where get: "ring_get_sqe u (rt_ring (w_rts w ctx)) = Some (sqe, g)"
    using ring_get_sqe_returns [OF assms(1,2)] by blast
  have sqe: "sqe \<noteq> nullptr" using ring_get_sqe_slot [OF assms(3) get] .
  let ?q = "\<lparr>sq_prep = calls, sq_user_data = self OR work_type_code Common, sq_flags = qflags \<union> flags\<rparr>"
  have "op_start u ctx False (op_prep calls qflags) flags self w = Some (Inr (),
      w_upd ctx (\<lambda>x. x\<lparr>rt_pending_works := rt_pending_works x + 1,
        rt_ring := ring_maybe_submit u (g\<lparr>rg_uring := u_fill u sqe ?q (rg_uring g)\<rparr>)\<rparr>) w)"
    using assms(4,5) get sqe
    by (simp add: op_start_def op_prep_def pend_work_internal_def comp_def del: work_type_code.simps)
  moreover have "process_cqe u invoke handle ctx c v =
       Some (Inr (if fin then w_upd ctx (\<lambda>x. x\<lparr>rt_pending_works := rt_pending_works x - 1\<rparr>) v1 else v1))"
    if "cq_user_data c = sq_user_data ?q" "handle self c v = Some (fin, v1)" for c v fin v1
    using that decode_tagged [OF assms(4), of Common]
    by (simp add: process_cqe_def resume_work_internal_def del: work_type_code.simps)
  ultimately show ?thesis using get by (intro exI [of _ ?q] exI conjI allI impI) (auto simp del: work_type_code.simps)
qed

lemma sample_slots: "\<forall>s. fst (u_get_sqe (uring_count n :: u64 rt_uring) s) \<noteq> Some nullptr"
  by (simp add: uring_count_def)

theorem op_start_dispatch_witness:
  "\<exists>w' q sqe g. op_start (uring_count 4) 0x10 False (op_prep [(''io_uring_prep_nop'', [])] {}) {IOSQE_ASYNC} 0x100 sample_world =
      Some (Inr (), w') \<and>
    ring_get_sqe (uring_count 4 :: u64 rt_uring) (rt_ring (w_rts sample_world 0x10)) = Some (sqe, g) \<and>
    sq_prep q = [(''io_uring_prep_nop'', [])] \<and> sq_flags q = {IOSQE_ASYNC} \<and>
    w' = w_upd 0x10 (\<lambda>x. x\<lparr>rt_pending_works := rt_pending_works x + 1,
      rt_ring := ring_maybe_submit (uring_count 4 :: u64 rt_uring)
        (g\<lparr>rg_uring := u_fill (uring_count 4 :: u64 rt_uring) sqe q (rg_uring g)\<rparr>)\<rparr>) sample_world \<and>
    process_cqe (uring_count 4) log_invoke done_handle 0x10
      \<lparr>cq_user_data = sq_user_data q, cq_res = 0, cq_flags = 0, cq_big = (0, 0)\<rparr> w' =
      Some (Inr (w_upd 0x10 (\<lambda>x. x\<lparr>rt_pending_works := rt_pending_works x - 1\<rparr>) w'))"
proof -
  have "sq_contract (uring_count 4 :: u64 rt_uring) (unat (4 :: u64))" by (rule uring_count_contract) simp_all
  moreover have "\<not> u_sqpoll (uring_count 4 :: u64 rt_uring)" by (simp add: uring_count_def)
  moreover have "aligned8 0x100" by (simp add: aligned8_def)
  ultimately obtain w' q sqe g where o:
    "op_start (uring_count 4) 0x10 False (op_prep [(''io_uring_prep_nop'', [])] {}) {IOSQE_ASYNC} 0x100 sample_world = Some (Inr (), w')"
    "ring_get_sqe (uring_count 4 :: u64 rt_uring) (rt_ring (w_rts sample_world 0x10)) = Some (sqe, g)"
    "sq_prep q = [(''io_uring_prep_nop'', [])]" "sq_flags q = {} \<union> {IOSQE_ASYNC}"
    "w' = w_upd 0x10 (\<lambda>x. x\<lparr>rt_pending_works := rt_pending_works x + 1,
      rt_ring := ring_maybe_submit (uring_count 4 :: u64 rt_uring)
        (g\<lparr>rg_uring := u_fill (uring_count 4 :: u64 rt_uring) sqe q (rg_uring g)\<rparr>)\<rparr>) sample_world"
    and d: "\<forall>c v fin v1. cq_user_data c = sq_user_data q \<and> done_handle 0x100 c v = Some (fin, v1) \<longrightarrow>
       process_cqe (uring_count 4) log_invoke done_handle 0x10 c v =
       Some (Inr (if fin then w_upd 0x10 (\<lambda>x. x\<lparr>rt_pending_works := rt_pending_works x - 1\<rparr>) v1 else v1))"
    using op_start_dispatch [of "uring_count 4 :: u64 rt_uring" "unat (4 :: u64)" "0x100" "0x10" "[(''io_uring_prep_nop'', [])]" "{}"
        "{IOSQE_ASYNC}" sample_world done_handle log_invoke] sample_slots by auto
  have "process_cqe (uring_count 4) log_invoke done_handle 0x10
      \<lparr>cq_user_data = sq_user_data q, cq_res = 0, cq_flags = 0, cq_big = (0, 0)\<rparr> w' =
      Some (Inr (if True then w_upd 0x10 (\<lambda>x. x\<lparr>rt_pending_works := rt_pending_works x - 1\<rparr>) w' else w'))"
    by (rule d [rule_format]) (simp add: done_handle_def)
  with o show ?thesis by (intro exI conjI) (assumption | simp)+
qed

text \<open>
  C27. A start that fails is reported once, without an entry: outside a runtime and for an
  unsupported operation with \<open>-EINVAL\<close>, after a stop request with \<open>-ECANCELED\<close>; no pending work is
  counted. The handle of each kind of operation passes the error to its receiver once, and the
  handle of a zero-copy operation also calls the free function and deletes itself.
\<close>

theorem op_start_failures:
  assumes "handler \<lparr>cq_user_data = 0, cq_res = res, cq_flags = 0, cq_big = (0, 0)\<rparr> b = Some (r, b')" and "res < 0"
  shows "op_start u nullptr stop prep flags self w = Some (Inl (- EINVAL), w) \<and>
    (ctx \<noteq> nullptr \<longrightarrow> op_start u ctx True prep flags self w = Some (Inl (- ECANCELED), w)) \<and>
    (ctx \<noteq> nullptr \<and> prep u (rt_ring (w_rts w ctx)) = Some (nullptr, q, g) \<longrightarrow>
       op_start u ctx False prep flags self w = Some (Inl (- EINVAL), w_upd ctx (\<lambda>x. x\<lparr>rt_ring := g\<rparr>) w)) \<and>
    (\<exists>h. op_fail (op_handle_impl handler) res (fh_new b) = Some (h, [Receive r]) \<and> fh_buffers h = b') \<and>
    (\<exists>h. op_fail (ms_handle_impl handler) res (fh_new b) = Some (h, [Receive r]) \<and> fh_buffers h = b') \<and>
    (\<exists>h. op_fail (zc_handle_impl handler) res (fh_new b) = Some (h, [Receive r, Free 0, Delete_self]) \<and> \<not> fh_alive h)"
  using assms
  by (auto simp: op_start_def op_fail_def op_handle_impl_def ms_handle_impl_def zc_handle_impl_def zc_notify_def
      fh_finish_def fh_new_def cq_more_def cq_notif_def)

theorem op_start_failures_witness:
  "op_start (uring_count 4) nullptr False (op_prep [] {}) {} 0x100 sample_world = Some (Inl (- EINVAL), sample_world) \<and>
   (\<exists>h. op_fail (zc_handle_impl simple_cqe_handler) (- ECANCELED) (fh_new ()) =
      Some (h, [Receive (- ECANCELED), Free 0, Delete_self]) \<and> \<not> fh_alive h)"
  using op_start_failures [of simple_cqe_handler "- ECANCELED" "()" "- ECANCELED" "()" "uring_count 4 :: u64 rt_uring" False
      "op_prep [] {}" "{}" "0x100" sample_world]
  by (simp add: simple_cqe_handler_def)

section \<open>Properties of parallel operations\<close>

text \<open>
  \<open>completes_once\<close>: after the start has delivered the results \<open>ds\<close> inline, any order \<open>es\<close> of the
  remaining completions delivers to the receiver exactly once, after the last one; what it gets is
  the order of completion and every result at the index of its child, and \<open>when_any\<close> makes of it the
  first completion.
\<close>

definition completes_once ::
  "(nat \<times> 'r \<Rightarrow> 'r par \<Rightarrow> 'r par option) \<Rightarrow> bool \<Rightarrow> nat \<Rightarrow> ((nat \<times> 'r) list \<times> 'r par) option \<Rightarrow> bool" where
  "completes_once receive stopped n start \<longleftrightarrow>
     (\<exists>ds s1. start = Some (ds, s1) \<and>
       (\<forall>es. distinct (map fst (ds @ es)) \<and> fst ` set (ds @ es) = {..<n} \<longrightarrow>
         (\<exists>s2. fold_opt receive es s1 = Some s2 \<and>
           pa_received s2 = [(map (Some \<circ> fst) (ds @ es), map (map_of (ds @ es)) [0..<n])] \<and>
           receiver_any (hd (pa_received s2)) = Some (hd (ds @ es)) \<and> pa_stop_requested s2 = stopped) \<and>
         (\<forall>k < length es. \<exists>s2. fold_opt receive (take k es) s1 = Some s2 \<and> pa_received s2 = [])))"

text \<open>
  C7. Parallel composition is right, for tuples and for vectors of operations, for \<open>when_all\<close> and for
  \<open>when_any\<close>: whatever mixture of operations completes inline or later and in whatever order, the
  receiver is invoked exactly once, when all are done, with all results in place; \<open>when_any\<close>
  requests the stop of the others and yields the result of the first.
\<close>

theorem parallel_completes_once:
  assumes "children \<noteq> []"
  shows "completes_once par_receive (pos \<and> req \<or> c = When_any) (length children)
      (par_start children flags (par_new c pos req (length children))) \<and>
    completes_once ranged_receive (pos \<and> req \<or> c = When_any) (length children)
      (ranged_start children flags (par_new c pos req (length children)))"
  using tuple.completes [OF assms, of flags c pos req] ranged.completes [OF assms, of flags c pos req] assms
  unfolding completes_once_def par_start_def ranged_start_def by simp

theorem parallel_completes_once_witness:
  "completes_once par_receive True 2
      (par_start [\<lambda>_ _. None, \<lambda>_ stop. if stop then Some (- ECANCELED) else None] {} (par_new When_any False False 2)) \<and>
    completes_once ranged_receive True 2
      (ranged_start [\<lambda>_ _. None, \<lambda>_ stop. if stop then Some (- ECANCELED) else None] {} (par_new When_any False False 2))"
  using parallel_completes_once [of "[\<lambda>_ _. None, \<lambda>_ stop. if stop then Some (- ECANCELED) else None]" False False When_any "{}"]
  by (simp add: numeral_2_eq_2)

text \<open>
  The empty compositions. An empty \<open>when_all\<close> completes at once. An empty link is started without
  any effect: nothing will ever invoke its receiver, so whoever awaits it waits forever. The state of
  an empty \<open>when_any\<close> would read the first element of an empty array, so there must be none.
\<close>

theorem empty_compositions:
  "(\<exists>s :: 'r par. par_start [] flags (par_new When_all pos req 0) = Some ([], s) \<and> receiver_all (hd (pa_received s)) = []) \<and>
   (ctx \<noteq> nullptr \<longrightarrow> link_start u ctx Flags [] flags w = Some w) \<and>
   (\<forall>ir. par_receive ir (par_new When_all pos req 0 :: 'r par) = None) \<and>
   (\<exists>s :: 'r par. ranged_start [] flags (par_new When_any pos req 0) = Some ([], s) \<and> pa_received s \<noteq> [] \<and>
      receiver_any (hd (pa_received s)) = None)"
proof -
  have "ring_reserve_space u 0 (rt_ring (w_rts w ctx)) = Some (rt_ring (w_rts w ctx))"
    by (subst ring_reserve_space.simps) simp
  then have "link_start u ctx Flags [] flags w = Some w" if "ctx \<noteq> nullptr"
    using that by (simp add: link_start_def link_reserve_def w_upd_id)
  then show ?thesis
    by (auto simp: par_start_def ranged_start_def par_deliver_def par_new_def chain_token_def receiver_all_def
        receiver_any_def par_receive_def par_store_def canceller_done_def)
qed

theorem empty_compositions_witness:
  "(\<exists>s. par_start [] {} (par_new When_all False False 0) = Some ([], s :: i32 par) \<and> receiver_all (hd (pa_received s)) = []) \<and>
   link_start (uring_count 4) 0x10 {IOSQE_IO_LINK} [] {} sample_world = Some sample_world"
  using empty_compositions [where 'r = i32, of "{}" False False "0x10" "uring_count 4 :: u64 rt_uring" "{IOSQE_IO_LINK}" sample_world] by simp

section \<open>Properties of linked operations\<close>

text \<open>
  Linking a vector of operations does what linking a tuple of them does: the loop with its
  index comparison and the recursion over the tuple start the same operations with the same flags.
\<close>

theorem ranged_link_equiv: "ranged_link_start u ctx Flags cs flags w = link_start u ctx Flags cs flags w"
  by (simp add: ranged_link_start_def link_start_def ranged_linked_drop)

text \<open>The start of an operation in a link, when it does not fail.\<close>

definition op_child :: "'s rt_uring \<Rightarrow> ptr \<Rightarrow> (string \<times> arg list) list \<times> ptr \<Rightarrow> sqe_flag set \<Rightarrow> ('s, 'a) world \<Rightarrow> ('s, 'a) world option" where
  "op_child u ctx op flags w = do {
     (r, w1) \<leftarrow> op_start u ctx False (op_prep (fst op) {}) flags (snd op) w;
     massert (r = Inr ());
     Some w1
   }"

definition link_entry :: "(string \<times> arg list) list \<times> ptr \<Rightarrow> sqe_flag set \<Rightarrow> sqe" where
  "link_entry op flags = \<lparr>sq_prep = fst op, sq_user_data = snd op OR work_type_code Common, sq_flags = flags\<rparr>"

fun link_entries :: "sqe_flag set \<Rightarrow> sqe_flag set \<Rightarrow> ((string \<times> arg list) list \<times> ptr) list \<Rightarrow> sqe list" where
  "link_entries Flags flags [] = []"
| "link_entries Flags flags [op] = [link_entry op flags]"
| "link_entries Flags flags (op # ops) = link_entry op (flags \<union> Flags) # link_entries Flags flags ops"

abbreviation ring_of :: "ptr \<Rightarrow> ('s, 'a) world \<Rightarrow> 's ring" where
  "ring_of ctx w \<equiv> rt_ring (w_rts w ctx)"

text \<open>
  \<open>queue_view u queue\<close>: \<open>queue\<close> gives the entries that are filled and not yet submitted. Taking a
  slot does not change them, filling one appends the entry.
\<close>

definition queue_view :: "'s rt_uring \<Rightarrow> ('s \<Rightarrow> sqe list) \<Rightarrow> bool" where
  "queue_view u queue \<longleftrightarrow>
     (\<forall>s. queue (snd (u_get_sqe u s)) = queue s) \<and> (\<forall>p q s. queue (u_fill u p q s) = queue s @ [q])"

lemma op_child_filled:
  assumes ok: "sq_contract u entries" and slots: "\<forall>s. fst (u_get_sqe u s) \<noteq> Some nullptr"
    and "ctx \<noteq> nullptr" and "aligned8 (snd op)" and space: "u_sq_space_left u (rg_uring (ring_of ctx w)) \<noteq> 0"
  obtains sqe s where "u_get_sqe u (rg_uring (ring_of ctx w)) = (Some sqe, s)"
    and "u_sq_space_left u s = u_sq_space_left u (rg_uring (ring_of ctx w)) - 1"
    and "op_child u ctx op flags w = Some (w_upd ctx (\<lambda>x. x\<lparr>rt_pending_works := rt_pending_works x + 1,
      rt_ring := ring_maybe_submit u ((ring_of ctx w)\<lparr>rg_uring := u_fill u sqe (link_entry op flags) s\<rparr>)\<rparr>) w)"
proof -
  let ?g = "ring_of ctx w"
  obtain sqe s where get: "u_get_sqe u (rg_uring ?g) = (Some sqe, s)"
    using ok space by (cases "u_get_sqe u (rg_uring ?g)") (auto simp: sq_contract_def)
  then have rget: "ring_get_sqe u ?g = Some (sqe, ?g\<lparr>rg_uring := s\<rparr>)"
    unfolding ring_get_sqe_def by (subst ring_get_sqe_with.simps) simp
  have sqe: "sqe \<noteq> nullptr" using slots get by (metis fst_conv)
  have left: "u_sq_space_left u s = u_sq_space_left u (rg_uring ?g) - 1"
    using ok space get unfolding sq_contract_def by (metis snd_conv)
  have "op_child u ctx op flags w = Some (w_upd ctx (\<lambda>x. x\<lparr>rt_pending_works := rt_pending_works x + 1,
      rt_ring := ring_maybe_submit u (?g\<lparr>rg_uring := u_fill u sqe (link_entry op flags) s\<rparr>)\<rparr>) w)"
    using assms(3,4) rget sqe
    by (simp add: op_child_def op_start_def op_prep_def pend_work_internal_def comp_def link_entry_def
        del: work_type_code.simps)
  with get left show ?thesis by (rule that)
qed

lemma op_child_queues:
  assumes ok: "sq_contract u entries" and view: "queue_view u queue" and slots: "\<forall>s. fst (u_get_sqe u s) \<noteq> Some nullptr"
    and "ctx \<noteq> nullptr" and "aligned8 (snd op)"
    and space: "unat (u_sq_space_left u (rg_uring (ring_of ctx w))) = Suc n"
    and batch: "unat (rg_maybe_submit_count (ring_of ctx w)) + Suc 0 < unat (rg_submit_batch (ring_of ctx w))"
  shows "\<exists>w'. op_child u ctx op flags w = Some w' \<and>
    queue (rg_uring (ring_of ctx w')) = queue (rg_uring (ring_of ctx w)) @ [link_entry op flags] \<and>
    unat (u_sq_space_left u (rg_uring (ring_of ctx w'))) = n \<and>
    unat (rg_maybe_submit_count (ring_of ctx w')) = unat (rg_maybe_submit_count (ring_of ctx w)) + 1 \<and>
    rg_submit_batch (ring_of ctx w') = rg_submit_batch (ring_of ctx w)"
proof -
  let ?g = "ring_of ctx w" and ?q = "link_entry op flags"
  have ne: "u_sq_space_left u (rg_uring ?g) \<noteq> 0" using space by auto
  obtain sqe s where get: "u_get_sqe u (rg_uring ?g) = (Some sqe, s)"
    and left: "u_sq_space_left u s = u_sq_space_left u (rg_uring ?g) - 1"
    and child: "op_child u ctx op flags w = Some (w_upd ctx (\<lambda>x. x\<lparr>rt_pending_works := rt_pending_works x + 1,
      rt_ring := ring_maybe_submit u (?g\<lparr>rg_uring := u_fill u sqe ?q s\<rparr>)\<rparr>) w)"
    by (rule op_child_filled [OF ok slots assms(4,5) ne])
  have "unat (rg_submit_batch ?g) < 2 ^ LENGTH(64)" by (rule unsigned_less)
  then have inc: "unat (rg_maybe_submit_count ?g + 1) = unat (rg_maybe_submit_count ?g) + 1"
    using batch by (simp add: unat_word_ariths)
  have "ring_maybe_submit u (?g\<lparr>rg_uring := u_fill u sqe ?q s\<rparr>) =
      ?g\<lparr>rg_uring := u_fill u sqe ?q s, rg_maybe_submit_count := rg_maybe_submit_count ?g + 1\<rparr>"
    using batch inc by (simp add: ring_maybe_submit_def word_le_nat_alt)
  moreover have "queue (u_fill u sqe ?q s) = queue (rg_uring ?g) @ [?q]"
    using view get unfolding queue_view_def by (metis snd_conv)
  moreover have "unat (u_sq_space_left u (u_fill u sqe ?q s)) = n"
    using ok left ne space by (simp add: sq_contract_def unat_minus_one)
  ultimately show ?thesis using inc child by simp
qed

lemma start_linked_queues:
  assumes ok: "sq_contract u entries" and view: "queue_view u queue" and slots: "\<forall>s. fst (u_get_sqe u s) \<noteq> Some nullptr"
    and "ctx \<noteq> nullptr"
  shows "\<forall>op \<in> set ops. aligned8 (snd op) \<Longrightarrow> length ops \<le> unat (u_sq_space_left u (rg_uring (ring_of ctx w))) \<Longrightarrow>
    unat (rg_maybe_submit_count (ring_of ctx w)) + length ops < unat (rg_submit_batch (ring_of ctx w)) \<Longrightarrow>
    \<exists>w'. start_linked Flags (map (op_child u ctx) ops) flags w = Some w' \<and>
      queue (rg_uring (ring_of ctx w')) = queue (rg_uring (ring_of ctx w)) @ link_entries Flags flags ops"
proof (induction ops arbitrary: w)
  case (Cons op ops)
  then obtain n where space: "unat (u_sq_space_left u (rg_uring (ring_of ctx w))) = Suc n"
    by (cases "unat (u_sq_space_left u (rg_uring (ring_of ctx w)))") auto
  let ?f = "if ops = [] then flags else flags \<union> Flags"
  obtain w1 where w1: "op_child u ctx op ?f w = Some w1"
    "queue (rg_uring (ring_of ctx w1)) = queue (rg_uring (ring_of ctx w)) @ [link_entry op ?f]"
    "unat (u_sq_space_left u (rg_uring (ring_of ctx w1))) = n"
    "unat (rg_maybe_submit_count (ring_of ctx w1)) = unat (rg_maybe_submit_count (ring_of ctx w)) + 1"
    "rg_submit_batch (ring_of ctx w1) = rg_submit_batch (ring_of ctx w)"
    using op_child_queues [OF ok view slots assms(4) _ space, of op ?f] Cons.prems by auto
  from Cons.IH [of w1] Cons.prems space w1 obtain w2 where
    "start_linked Flags (map (op_child u ctx) ops) flags w1 = Some w2"
    "queue (rg_uring (ring_of ctx w2)) = queue (rg_uring (ring_of ctx w1)) @ link_entries Flags flags ops" by auto
  with w1 show ?case by (cases ops) auto
qed auto

text \<open>
  C28. A link reaches the kernel in one piece, as long as no submission batch ends inside it: after
  the space is reserved, all entries of the link are queued one behind the other and nothing is
  submitted in between; all of them but the last carry the link flag. The hypotheses ask that the
  link fits the submission queue and that the batch count does not run out within it.
\<close>

theorem link_chain_unsplit:
  assumes "sq_contract u entries" and "queue_view u queue" and "\<forall>s. fst (u_get_sqe u s) \<noteq> Some nullptr"
    and "ctx \<noteq> nullptr" and "\<forall>op \<in> set ops. aligned8 (snd op)" and "length ops \<le> entries"
    and "unat (rg_maybe_submit_count (ring_of ctx w)) + length ops < unat (rg_submit_batch (ring_of ctx w))"
  shows "\<exists>w1 w2. link_reserve u ctx (length ops) w = Some w1 \<and>
    link_start u ctx Flags (map (op_child u ctx) ops) flags w = Some w2 \<and>
    queue (rg_uring (ring_of ctx w2)) = queue (rg_uring (ring_of ctx w1)) @ link_entries Flags flags ops"
proof -
  have fits: "unat (of_nat (length ops) :: u64) = length ops"
    using assms(1,6) by (intro unat_of_nat_lt) (auto simp: sq_contract_def)
  from ring_reserve_space_kept [OF assms(1), of "of_nat (length ops)" "ring_of ctx w"] assms(6) fits
  obtain g where g: "ring_reserve_space u (of_nat (length ops)) (ring_of ctx w) = Some g"
    "of_nat (length ops) \<le> u_sq_space_left u (rg_uring g)" "rg_submit_batch g = rg_submit_batch (ring_of ctx w)"
    "rg_maybe_submit_count g \<le> rg_maybe_submit_count (ring_of ctx w)" by auto
  let ?w1 = "w_upd ctx (\<lambda>x. x\<lparr>rt_ring := g\<rparr>) w"
  have r: "link_reserve u ctx (length ops) w = Some ?w1" using g(1) assms(4) by (simp add: link_reserve_def)
  have "length ops \<le> unat (u_sq_space_left u (rg_uring (ring_of ctx ?w1)))"
    using g(2) fits by (simp add: word_le_nat_alt)
  moreover have "unat (rg_maybe_submit_count (ring_of ctx ?w1)) + length ops < unat (rg_submit_batch (ring_of ctx ?w1))"
    using g(3,4) assms(7) by (simp add: word_le_nat_alt)
  ultimately obtain w2 where "start_linked Flags (map (op_child u ctx) ops) flags ?w1 = Some w2"
    "queue (rg_uring (ring_of ctx w2)) = queue (rg_uring (ring_of ctx ?w1)) @ link_entries Flags flags ops"
    using start_linked_queues [OF assms(1-4,5)] by blast
  with r show ?thesis by (simp add: link_start_def)
qed

text \<open>
  A submission queue that records what is queued and, one list per submission, what was submitted.
\<close>

definition uring_log :: "u64 \<Rightarrow> (u64 \<times> sqe list \<times> sqe list list, sqe, cqe) uring" where
  "uring_log n =
     \<lparr>u_submit = (\<lambda>(k, q, bs). (0, (n, [], bs @ [q]))), u_submit_and_wait = (\<lambda>(k, q, bs). (0, (n, [], bs @ [q]))),
      u_peek_cqe = (\<lambda>s. (- EAGAIN, s)), u_cqe_at = (\<lambda>s i. None), u_cqe_nr = (\<lambda>c. 1), u_cq_advance = (\<lambda>k s. s),
      u_sq_space_left = (\<lambda>(k, q, bs). min k n),
      u_get_sqe = (\<lambda>(k, q, bs). if min k n = 0 then (None, (k, q, bs)) else (Some 8, (min k n - 1, q, bs))),
      u_get_sqe128 = (\<lambda>s. (None, s)), u_fill = (\<lambda>p e (k, q, bs). (k, q @ [e], bs)), u_sqring_wait = (\<lambda>s. (0, s)),
      u_sqpoll = False, u_sqe128 = False\<rparr>"

lemma uring_log_sel [simp]:
  "u_submit (uring_log n) (k, q, bs) = (0, (n, [], bs @ [q]))" "u_fill (uring_log n) p e (k, q, bs) = (k, q @ [e], bs)"
  by (simp_all add: uring_log_def)

lemma uring_log_contract:
  assumes "0 < unat n" and "unat n < 2 ^ 32"
  shows "sq_contract (uring_log n) (unat n)" and "queue_view (uring_log n) (\<lambda>(k, q, bs). q)"
    and "\<forall>s. fst (u_get_sqe (uring_log n) s) \<noteq> Some nullptr"
proof -
  have dec: "min (s - 1) n = s - 1" if "s \<le> n" "s \<noteq> 0" for s :: u64
    using that by (auto simp: min_def word_le_nat_alt unat_minus_one intro: diff_le_self [THEN order_trans])
  have "min (min s n - 1) n = min s n - 1" if "min s n \<noteq> 0" for s :: u64
    using that by (intro dec) auto
  then show "sq_contract (uring_log n) (unat n)"
    using assms by (auto simp: sq_contract_def uring_log_def word_le_nat_alt [symmetric])
  show "queue_view (uring_log n) (\<lambda>(k, q, bs). q)" "\<forall>s. fst (u_get_sqe (uring_log n) s) \<noteq> Some nullptr"
    by (auto simp: queue_view_def uring_log_def)
qed

definition log_world :: "u64 \<Rightarrow> (u64 \<times> sqe list \<times> sqe list list, unit) world" where
  "log_world batch =
     \<lparr>w_rts = (\<lambda>r. rt_new 5 \<lparr>rg_uring = (8, [], []), rg_submit_batch = batch, rg_maybe_submit_count = 0\<rparr> 61 False),
      w_synced = [], w_app = ()\<rparr>"

abbreviation two_ops :: "((string \<times> arg list) list \<times> ptr) list" where
  "two_ops \<equiv> [([(''io_uring_prep_read'', [])], 0x100), ([(''io_uring_prep_write'', [])], 0x200)]"

theorem link_chain_unsplit_witness:
  "\<exists>w1 w2. link_reserve (uring_log 8) 0x10 (length two_ops) (log_world 32) = Some w1 \<and>
    link_start (uring_log 8) 0x10 {IOSQE_IO_LINK} (map (op_child (uring_log 8) 0x10) two_ops) {} (log_world 32) = Some w2 \<and>
    (\<lambda>(k, q, bs). q) (rg_uring (ring_of 0x10 w2)) =
      (\<lambda>(k, q, bs). q) (rg_uring (ring_of 0x10 w1)) @ link_entries {IOSQE_IO_LINK} {} two_ops"
proof (rule link_chain_unsplit)
  show "sq_contract (uring_log 8) (unat (8 :: u64))" by (rule uring_log_contract) simp_all
  show "queue_view (uring_log 8) (\<lambda>(k, q, bs). q)" "\<forall>s. fst (u_get_sqe (uring_log 8) s) \<noteq> Some nullptr"
    by (rule uring_log_contract; simp)+
qed (simp_all add: aligned8_def log_world_def rt_new_def)

text \<open>
  \<open>batch_view u queue batches\<close>: \<open>batches\<close> gives the submissions, each the list of its entries. Submitting
  ends a batch with the entries of the queue.
\<close>

definition batch_view :: "'s rt_uring \<Rightarrow> ('s \<Rightarrow> sqe list) \<Rightarrow> ('s \<Rightarrow> sqe list list) \<Rightarrow> bool" where
  "batch_view u queue batches \<longleftrightarrow>
     (\<forall>s. queue (snd (u_submit u s)) = [] \<and> batches (snd (u_submit u s)) = batches s @ [queue s]) \<and>
     (\<forall>s. batches (snd (u_get_sqe u s)) = batches s) \<and> (\<forall>p q s. batches (u_fill u p q s) = batches s)"

lemma op_child_batches:
  assumes ok: "sq_contract u entries" and view: "queue_view u queue" and bview: "batch_view u queue batches"
    and slots: "\<forall>s. fst (u_get_sqe u s) \<noteq> Some nullptr" and "ctx \<noteq> nullptr" and "aligned8 (snd op)"
    and space: "unat (u_sq_space_left u (rg_uring (ring_of ctx w))) = Suc n"
  shows "\<exists>w'. op_child u ctx op flags w = Some w' \<and> rg_submit_batch (ring_of ctx w') = rg_submit_batch (ring_of ctx w) \<and>
    (if rg_maybe_submit_count (ring_of ctx w) + 1 < rg_submit_batch (ring_of ctx w) then
       queue (rg_uring (ring_of ctx w')) = queue (rg_uring (ring_of ctx w)) @ [link_entry op flags] \<and>
       batches (rg_uring (ring_of ctx w')) = batches (rg_uring (ring_of ctx w)) \<and>
       unat (u_sq_space_left u (rg_uring (ring_of ctx w'))) = n \<and>
       rg_maybe_submit_count (ring_of ctx w') = rg_maybe_submit_count (ring_of ctx w) + 1
     else
       batches (rg_uring (ring_of ctx w')) =
         batches (rg_uring (ring_of ctx w)) @ [queue (rg_uring (ring_of ctx w)) @ [link_entry op flags]] \<and>
       unat (u_sq_space_left u (rg_uring (ring_of ctx w'))) = entries)"
proof -
  let ?g = "ring_of ctx w" and ?q = "link_entry op flags"
  have ne: "u_sq_space_left u (rg_uring ?g) \<noteq> 0" using space by auto
  obtain sqe s where get: "u_get_sqe u (rg_uring ?g) = (Some sqe, s)"
    and left: "u_sq_space_left u s = u_sq_space_left u (rg_uring ?g) - 1"
    and child: "op_child u ctx op flags w = Some (w_upd ctx (\<lambda>x. x\<lparr>rt_pending_works := rt_pending_works x + 1,
      rt_ring := ring_maybe_submit u (?g\<lparr>rg_uring := u_fill u sqe ?q s\<rparr>)\<rparr>) w)"
    by (rule op_child_filled [OF ok slots assms(5,6) ne])
  have q: "queue (u_fill u sqe ?q s) = queue (rg_uring ?g) @ [?q]"
    using view get unfolding queue_view_def by (metis snd_conv)
  have b: "batches (u_fill u sqe ?q s) = batches (rg_uring ?g)"
    using bview get unfolding batch_view_def by (metis snd_conv)
  have n: "unat (u_sq_space_left u (u_fill u sqe ?q s)) = n"
    using ok left ne space by (simp add: sq_contract_def unat_minus_one)
  have e: "unat (u_sq_space_left u (snd (u_submit u s'))) = entries" for s' using ok by (simp add: sq_contract_def)
  have bs: "batches (snd (u_submit u s')) = batches s' @ [queue s']" for s' using bview by (simp add: batch_view_def)
  show ?thesis
  proof (cases "rg_maybe_submit_count ?g + 1 < rg_submit_batch ?g")
    case True
    then show ?thesis using child q b n by (simp add: ring_maybe_submit_def Let_def not_le [symmetric])
  next
    case False
    then show ?thesis using child q b e bs by (simp add: ring_maybe_submit_def ring_submit_def Let_def)
  qed
qed

text \<open>What follows a submission only adds to the batches.\<close>

lemma start_linked_batches:
  assumes ok: "sq_contract u entries" and view: "queue_view u queue" and bview: "batch_view u queue batches"
    and slots: "\<forall>s. fst (u_get_sqe u s) \<noteq> Some nullptr" and "ctx \<noteq> nullptr"
  shows "\<forall>op \<in> set ops. aligned8 (snd op) \<Longrightarrow> length ops \<le> entries \<Longrightarrow>
    length ops \<le> unat (u_sq_space_left u (rg_uring (ring_of ctx w))) \<Longrightarrow>
    \<exists>w' bs. start_linked Flags (map (op_child u ctx) ops) flags w = Some w' \<and>
      batches (rg_uring (ring_of ctx w')) = batches (rg_uring (ring_of ctx w)) @ bs"
proof (induction ops arbitrary: w)
  case (Cons op ops)
  then obtain n where space: "unat (u_sq_space_left u (rg_uring (ring_of ctx w))) = Suc n"
    by (cases "unat (u_sq_space_left u (rg_uring (ring_of ctx w)))") auto
  let ?f = "if ops = [] then flags else flags \<union> Flags"
  obtain w1 bs where w1: "op_child u ctx op ?f w = Some w1"
    "batches (rg_uring (ring_of ctx w1)) = batches (rg_uring (ring_of ctx w)) @ bs"
    "length ops \<le> unat (u_sq_space_left u (rg_uring (ring_of ctx w1)))"
    using op_child_batches [OF ok view bview slots assms(5) _ space, of op ?f] Cons.prems space by (auto split: if_splits)
  obtain w2 bs' where "start_linked Flags (map (op_child u ctx) ops) flags w1 = Some w2"
    "batches (rg_uring (ring_of ctx w2)) = batches (rg_uring (ring_of ctx w1)) @ bs'"
    using Cons.IH [of w1] Cons.prems w1(3) by auto
  with w1 show ?case by (cases ops) auto
qed simp

lemma start_linked_splits:
  assumes ok: "sq_contract u entries" and view: "queue_view u queue" and bview: "batch_view u queue batches"
    and slots: "\<forall>s. fst (u_get_sqe u s) \<noteq> Some nullptr" and "ctx \<noteq> nullptr"
  shows "\<forall>op \<in> set ops. aligned8 (snd op) \<Longrightarrow> length ops \<le> entries \<Longrightarrow>
    length ops \<le> unat (u_sq_space_left u (rg_uring (ring_of ctx w))) \<Longrightarrow>
    unat (rg_submit_batch (ring_of ctx w)) = unat (rg_maybe_submit_count (ring_of ctx w)) + Suc k \<Longrightarrow> Suc k < length ops \<Longrightarrow>
    \<exists>w' bs. start_linked Flags (map (op_child u ctx) ops) flags w = Some w' \<and>
      batches (rg_uring (ring_of ctx w')) = batches (rg_uring (ring_of ctx w)) @
        [queue (rg_uring (ring_of ctx w)) @ take (Suc k) (link_entries Flags flags ops)] @ bs"
proof (induction ops arbitrary: w k)
  case (Cons op ops)
  then obtain op' rest where ops: "ops = op' # rest" by (cases ops) auto
  obtain n where space: "unat (u_sq_space_left u (rg_uring (ring_of ctx w))) = Suc n"
    using Cons.prems(3) by (cases "unat (u_sq_space_left u (rg_uring (ring_of ctx w)))") auto
  have "unat (rg_submit_batch (ring_of ctx w)) < 2 ^ LENGTH(64)" by (rule unsigned_less)
  then have inc: "unat (rg_maybe_submit_count (ring_of ctx w) + 1) = unat (rg_maybe_submit_count (ring_of ctx w)) + 1"
    if "0 < k" using Cons.prems(4) that by (simp add: unat_word_ariths)
  have al: "aligned8 (snd op)" using Cons.prems(1) by simp
  note child = op_child_batches [OF ok view bview slots assms(5) al space, of "flags \<union> Flags"]
  show ?case
  proof (cases k)
    case 0
    have "of_nat (unat (rg_submit_batch (ring_of ctx w))) = (of_nat (unat (rg_maybe_submit_count (ring_of ctx w)) + 1) :: u64)"
      using Cons.prems(4) 0 by simp
    then have "rg_submit_batch (ring_of ctx w) = rg_maybe_submit_count (ring_of ctx w) + 1" by simp
    with child obtain w1 where w1: "op_child u ctx op (flags \<union> Flags) w = Some w1"
      "batches (rg_uring (ring_of ctx w1)) =
         batches (rg_uring (ring_of ctx w)) @ [queue (rg_uring (ring_of ctx w)) @ [link_entry op (flags \<union> Flags)]]"
      "unat (u_sq_space_left u (rg_uring (ring_of ctx w1))) = entries" by auto
    obtain w2 bs where "start_linked Flags (map (op_child u ctx) ops) flags w1 = Some w2"
      "batches (rg_uring (ring_of ctx w2)) = batches (rg_uring (ring_of ctx w1)) @ bs"
      using start_linked_batches [OF ok view bview slots assms(5), of ops w1 Flags flags] Cons.prems w1(3) by auto
    with w1 0 ops show ?thesis by auto
  next
    case (Suc j)
    then have "rg_maybe_submit_count (ring_of ctx w) + 1 < rg_submit_batch (ring_of ctx w)"
      using Cons.prems(4) inc by (simp add: word_less_nat_alt)
    with child obtain w1 where w1: "op_child u ctx op (flags \<union> Flags) w = Some w1"
      "rg_submit_batch (ring_of ctx w1) = rg_submit_batch (ring_of ctx w)"
      "queue (rg_uring (ring_of ctx w1)) = queue (rg_uring (ring_of ctx w)) @ [link_entry op (flags \<union> Flags)]"
      "batches (rg_uring (ring_of ctx w1)) = batches (rg_uring (ring_of ctx w))"
      "unat (u_sq_space_left u (rg_uring (ring_of ctx w1))) = n"
      "rg_maybe_submit_count (ring_of ctx w1) = rg_maybe_submit_count (ring_of ctx w) + 1" by auto
    obtain w2 bs where "start_linked Flags (map (op_child u ctx) ops) flags w1 = Some w2"
      "batches (rg_uring (ring_of ctx w2)) = batches (rg_uring (ring_of ctx w1)) @
        [queue (rg_uring (ring_of ctx w1)) @ take (Suc j) (link_entries Flags flags ops)] @ bs"
      using Cons.IH [of w1 j] Cons.prems w1 inc Suc space by auto
    with w1 Suc ops show ?thesis by auto
  qed
qed simp

lemma link_entries_nth:
  "Suc i < length ops \<Longrightarrow> link_entries Flags flags ops ! i = link_entry (ops ! i) (flags \<union> Flags)"
proof (induction Flags flags ops arbitrary: i rule: link_entries.induct)
  case (3 Flags flags op op' ops)
  then show ?case by (cases i) auto
qed auto

text \<open>
  C34. A submission batch can end inside a link, and splits it. Each operation of a link counts as one
  towards the batch. For every link whose operations fit the queue but which is longer than the rest of the
  batch, the entries up to the end of the batch are submitted before the others are queued; the last of
  them carries the link flag, and the kernel ends a link at the end of a submission.
\<close>

theorem link_chain_split:
  assumes "sq_contract u entries" and "queue_view u queue" and "batch_view u queue batches"
    and "\<forall>s. fst (u_get_sqe u s) \<noteq> Some nullptr" and "ctx \<noteq> nullptr" and "\<forall>op \<in> set ops. aligned8 (snd op)"
    and "length ops \<le> entries" and "link_reserve u ctx (length ops) w = Some w1"
    and "unat (rg_submit_batch (ring_of ctx w1)) = unat (rg_maybe_submit_count (ring_of ctx w1)) + Suc k"
    and "Suc k < length ops"
  shows "\<exists>w2 bs. link_start u ctx Flags (map (op_child u ctx) ops) flags w = Some w2 \<and>
    batches (rg_uring (ring_of ctx w2)) = batches (rg_uring (ring_of ctx w1)) @
      [queue (rg_uring (ring_of ctx w1)) @ take (Suc k) (link_entries Flags flags ops)] @ bs \<and>
    link_entries Flags flags ops ! k = link_entry (ops ! k) (flags \<union> Flags)"
proof -
  have fits: "unat (of_nat (length ops) :: u64) = length ops"
    using assms(1,7) by (intro unat_of_nat_lt) (auto simp: sq_contract_def)
  from ring_reserve_space_kept [OF assms(1), of "of_nat (length ops)" "ring_of ctx w"] assms(7) fits
  obtain g where g: "ring_reserve_space u (of_nat (length ops)) (ring_of ctx w) = Some g"
    "of_nat (length ops) \<le> u_sq_space_left u (rg_uring g)" by auto
  have w1: "w1 = w_upd ctx (\<lambda>x. x\<lparr>rt_ring := g\<rparr>) w" using g(1) assms(5,8) by (simp add: link_reserve_def)
  then have space: "length ops \<le> unat (u_sq_space_left u (rg_uring (ring_of ctx w1)))"
    using g(2) fits by (simp add: word_le_nat_alt)
  from start_linked_splits [OF assms(1-5,6,7) space assms(9,10), of Flags flags] assms(8) link_entries_nth [OF assms(10)]
  show ?thesis by (auto simp: link_start_def)
qed

theorem link_chain_split_witness:
  "\<exists>w2 bs. link_start (uring_log 8) 0x10 {IOSQE_IO_LINK} (map (op_child (uring_log 8) 0x10) two_ops) {} (log_world 1) = Some w2 \<and>
    snd (snd (rg_uring (ring_of 0x10 w2))) = [link_entry (two_ops ! 0) {IOSQE_IO_LINK}] # bs"
proof -
  let ?queue = "\<lambda>(k, q, bs). q" and ?batches = "\<lambda>(k, q, bs). bs"
  have c: "sq_contract (uring_log 8) (unat (8 :: u64))" by (rule uring_log_contract) simp_all
  have v: "queue_view (uring_log 8) ?queue" "\<forall>s. fst (u_get_sqe (uring_log 8) s) \<noteq> Some nullptr"
    by (rule uring_log_contract; simp)+
  have b: "batch_view (uring_log 8) ?queue ?batches" by (auto simp: batch_view_def uring_log_def)
  have "ring_reserve_space (uring_log 8) 2 (ring_of 0x10 (log_world 1)) = Some (ring_of 0x10 (log_world 1))"
    by (subst ring_reserve_space.simps) (simp add: uring_log_def log_world_def rt_new_def)
  then have r: "link_reserve (uring_log 8) 0x10 (length two_ops) (log_world 1) = Some (log_world 1)"
    by (simp add: link_reserve_def w_upd_id)
  show ?thesis
    using link_chain_split [OF c v(1) b v(2) _ _ _ r, of 0 "{IOSQE_IO_LINK}" "{}"]
    by (auto simp: aligned8_def log_world_def rt_new_def case_prod_beta)
qed

end
