(* ===== verification/Async_Operations.thy ===== *)
theory Async_Operations
  imports Op_States
begin

text \<open>
  \<open>include/condy/async_operations.hpp\<close> with \<open>detail/async_operations.hpp\<close>, \<open>helpers.hpp\<close> and
  \<open>detail/helpers.hpp\<close>: the functions that build operations. What such a function returns is
  described by what its preparation function does to an entry, in the order of the code, the kind of its finish handle, its
  completion handler and the flags that are set when it starts. The functions of liburing that
  prepare an entry appear by name, with their arguments as the code passes them; callbacks given by
  the user are the user's, and only the kind of the handle that calls them is recorded.
\<close>

named_theorems async_defs \<open>definitions of the operation builders\<close>

section \<open>Operations\<close>

datatype op_kind = One_shot | Multi_shot | Zero_copy

datatype op_handler = Simple_handler | Select_handler ptr | User_handler

record async_op =
  ao_kind :: op_kind
  ao_handler :: op_handler
  ao_sqe128 :: bool
  ao_calls :: "(string \<times> arg list) list"
  ao_flags :: "sqe_flag set"    \<comment> \<open>set when the operation starts\<close>

text \<open>Descriptors and buffers. A fixed one is an index into a table registered with the ring.\<close>

datatype fd = Fd i32 | Fixed_fd i32

record buffer =
  bf_data :: ptr
  bf_size :: u64

record 'a fixed_buffer =
  fb_value :: 'a
  fb_index :: i32

record buf_ring_ref =
  br_ptr :: ptr
  br_bgid :: u16

definition fixed_descriptor :: "i32 \<Rightarrow> fd" where
  "fixed_descriptor n = Fixed_fd n"

definition fixed_buf :: "i32 \<Rightarrow> 'a \<Rightarrow> 'a fixed_buffer" where
  "fixed_buf buf_index buf = \<lparr>fb_value = buf, fb_index = buf_index\<rparr>"

primrec unwrap_fixed :: "fd \<Rightarrow> arg" where
  "unwrap_fixed (Fd n) = I n"
| "unwrap_fixed (Fixed_fd n) = I n"

definition is_fixed_fd :: "fd \<Rightarrow> bool" where
  "is_fixed_fd fd = (case fd of Fd n \<Rightarrow> False | Fixed_fd n \<Rightarrow> True)"

abbreviation W :: "u32 \<Rightarrow> arg" where "W x \<equiv> U (ucast x)"

abbreviation AT_FDCWD :: i32 where "AT_FDCWD \<equiv> - 100"
abbreviation SPLICE_F_FD_IN_FIXED :: u32 where "SPLICE_F_FD_IN_FIXED \<equiv> 0x80000000"
abbreviation IORING_ASYNC_CANCEL_FD_FIXED :: u32 where "IORING_ASYNC_CANCEL_FD_FIXED \<equiv> 8"
abbreviation IORING_TIMEOUT_MULTISHOT :: u32 where "IORING_TIMEOUT_MULTISHOT \<equiv> 64"

section \<open>Builders\<close>

text \<open>A preparation function of liburing.\<close>

definition liburing :: "string \<Rightarrow> arg list \<Rightarrow> (string \<times> arg list) list" where
  "liburing f args = [(f, args)]"

definition make_op_awaiter :: "(arg list \<Rightarrow> (string \<times> arg list) list) \<Rightarrow> arg list \<Rightarrow> async_op" where
  "make_op_awaiter func args =
     \<lparr>ao_kind = One_shot, ao_handler = Simple_handler, ao_sqe128 = False, ao_calls = func args,
      ao_flags = {}\<rparr>"

definition make_op_awaiter128 :: "(arg list \<Rightarrow> (string \<times> arg list) list) \<Rightarrow> arg list \<Rightarrow> async_op" where
  "make_op_awaiter128 func args =
     \<lparr>ao_kind = One_shot, ao_handler = Simple_handler, ao_sqe128 = True, ao_calls = func args,
      ao_flags = {}\<rparr>"

definition make_multishot_op_awaiter :: "(arg list \<Rightarrow> (string \<times> arg list) list) \<Rightarrow> arg list \<Rightarrow> async_op" where
  "make_multishot_op_awaiter func args =
     \<lparr>ao_kind = Multi_shot, ao_handler = Simple_handler, ao_sqe128 = False, ao_calls = func args,
      ao_flags = {}\<rparr>"

definition make_select_buffer_op_awaiter ::
  "buf_ring_ref \<Rightarrow> (arg list \<Rightarrow> (string \<times> arg list) list) \<Rightarrow> arg list \<Rightarrow> async_op" where
  "make_select_buffer_op_awaiter buffers func args =
     \<lparr>ao_kind = One_shot, ao_handler = Select_handler (br_ptr buffers), ao_sqe128 = False,
      ao_calls = func args @
        [(''flags |='', [S ''IOSQE_BUFFER_SELECT'']), (''buf_group ='', [U (ucast (br_bgid buffers))])],
      ao_flags = {}\<rparr>"

definition make_multishot_select_buffer_op_awaiter ::
  "buf_ring_ref \<Rightarrow> (arg list \<Rightarrow> (string \<times> arg list) list) \<Rightarrow> arg list \<Rightarrow> async_op" where
  "make_multishot_select_buffer_op_awaiter buffers func args =
     \<lparr>ao_kind = Multi_shot, ao_handler = Select_handler (br_ptr buffers), ao_sqe128 = False,
      ao_calls = func args @
        [(''flags |='', [S ''IOSQE_BUFFER_SELECT'']), (''buf_group ='', [U (ucast (br_bgid buffers))])],
      ao_flags = {}\<rparr>"

definition make_bundle_select_buffer_op_awaiter ::
  "buf_ring_ref \<Rightarrow> (arg list \<Rightarrow> (string \<times> arg list) list) \<Rightarrow> arg list \<Rightarrow> async_op" where
  "make_bundle_select_buffer_op_awaiter buffers func args =
     \<lparr>ao_kind = One_shot, ao_handler = Select_handler (br_ptr buffers), ao_sqe128 = False,
      ao_calls = func args @
        [(''flags |='', [S ''IOSQE_BUFFER_SELECT'']), (''buf_group ='', [U (ucast (br_bgid buffers))]),
         (''ioprio |='', [S ''IORING_RECVSEND_BUNDLE''])],
      ao_flags = {}\<rparr>"

definition make_multishot_bundle_select_buffer_op_awaiter ::
  "buf_ring_ref \<Rightarrow> (arg list \<Rightarrow> (string \<times> arg list) list) \<Rightarrow> arg list \<Rightarrow> async_op" where
  "make_multishot_bundle_select_buffer_op_awaiter buffers func args =
     \<lparr>ao_kind = Multi_shot, ao_handler = Select_handler (br_ptr buffers), ao_sqe128 = False,
      ao_calls = func args @
        [(''flags |='', [S ''IOSQE_BUFFER_SELECT'']), (''buf_group ='', [U (ucast (br_bgid buffers))]),
         (''ioprio |='', [S ''IORING_RECVSEND_BUNDLE''])],
      ao_flags = {}\<rparr>"

definition make_zero_copy_op_awaiter :: "(arg list \<Rightarrow> (string \<times> arg list) list) \<Rightarrow> arg list \<Rightarrow> async_op" where
  "make_zero_copy_op_awaiter func args =
     \<lparr>ao_kind = Zero_copy, ao_handler = Simple_handler, ao_sqe128 = False, ao_calls = func args,
      ao_flags = {}\<rparr>"

definition maybe_flag_fixed_fd :: "async_op \<Rightarrow> fd \<Rightarrow> async_op" where
  "maybe_flag_fixed_fd op fd =
     (case fd of Fd n \<Rightarrow> op | Fixed_fd n \<Rightarrow> op\<lparr>ao_flags := ao_flags op \<union> {IOSQE_FIXED_FILE}\<rparr>)"

text \<open>
  The preparation functions of the library itself. Their arguments come in the order of their
  parameters; the length parameter of the read and write functions has 32 bits.
\<close>

fun prep_send_fixed :: "arg list \<Rightarrow> (string \<times> arg list) list" where
  "prep_send_fixed [sockfd, buf, len, flags, buf_index] =
     [(''io_uring_prep_send'', [sockfd, buf, len, flags]), (''ioprio |='', [S ''IORING_RECVSEND_FIXED_BUF'']),
      (''buf_index ='', [buf_index])]"
| "prep_send_fixed args = []"

fun prep_recv_fixed :: "arg list \<Rightarrow> (string \<times> arg list) list" where
  "prep_recv_fixed [sockfd, buf, len, flags, buf_index] =
     [(''io_uring_prep_recv'', [sockfd, buf, len, flags]), (''ioprio |='', [S ''IORING_RECVSEND_FIXED_BUF'']),
      (''buf_index ='', [buf_index])]"
| "prep_recv_fixed args = []"

fun prep_sendto :: "arg list \<Rightarrow> (string \<times> arg list) list" where
  "prep_sendto [sockfd, buf, len, flags, addr, addrlen] =
     [(''io_uring_prep_send'', [sockfd, buf, len, flags]), (''io_uring_prep_send_set_addr'', [addr, addrlen])]"
| "prep_sendto args = []"

fun prep_sendto_fixed :: "arg list \<Rightarrow> (string \<times> arg list) list" where
  "prep_sendto_fixed [sockfd, buf, len, flags, addr, addrlen, buf_index] =
     prep_sendto [sockfd, buf, len, flags, addr, addrlen] @
     [(''ioprio |='', [S ''IORING_RECVSEND_FIXED_BUF'']), (''buf_index ='', [buf_index])]"
| "prep_sendto_fixed args = []"

fun prep_sendto_zc :: "arg list \<Rightarrow> (string \<times> arg list) list" where
  "prep_sendto_zc [sockfd, buf, len, flags, addr, addrlen, zc_flags] =
     [(''io_uring_prep_send_zc'', [sockfd, buf, len, flags, zc_flags]), (''io_uring_prep_send_set_addr'', [addr, addrlen])]"
| "prep_sendto_zc args = []"

fun prep_sendto_zc_fixed :: "arg list \<Rightarrow> (string \<times> arg list) list" where
  "prep_sendto_zc_fixed [sockfd, buf, len, flags, addr, addrlen, zc_flags, buf_index] =
     prep_sendto_zc [sockfd, buf, len, flags, addr, addrlen, zc_flags] @
     [(''ioprio |='', [S ''IORING_RECVSEND_FIXED_BUF'']), (''buf_index ='', [buf_index])]"
| "prep_sendto_zc_fixed args = []"

fun prep_recv_zc_multishot :: "arg list \<Rightarrow> (string \<times> arg list) list" where
  "prep_recv_zc_multishot [fd, zcrx_id] =
     [(''io_uring_prep_rw'', [S ''IORING_OP_RECV_ZC'', fd, P nullptr, U 0, U 0]), (''ioprio |='', [S ''IORING_RECV_MULTISHOT'']),
      (''zcrx_ifq_idx ='', [zcrx_id])]"
| "prep_recv_zc_multishot args = []"

text \<open>Passing a \<open>size_t\<close> as \<open>unsigned\<close>.\<close>

primrec as_unsigned :: "arg \<Rightarrow> arg" where
  "as_unsigned (U x) = U (ucast (ucast x :: u32))"
| "as_unsigned (I x) = I x"
| "as_unsigned (P p) = P p"
| "as_unsigned (S s) = S s"

fun prep_read :: "arg list \<Rightarrow> (string \<times> arg list) list" where
  "prep_read [fd, buf, nbytes, offset, flags] =
     [(''io_uring_prep_read'', [fd, buf, as_unsigned nbytes, offset]), (''rw_flags ='', [flags])]"
| "prep_read args = []"

fun prep_read_fixed :: "arg list \<Rightarrow> (string \<times> arg list) list" where
  "prep_read_fixed [fd, buf, nbytes, offset, flags, buf_index] =
     [(''io_uring_prep_read_fixed'', [fd, buf, as_unsigned nbytes, offset, buf_index]), (''rw_flags ='', [flags])]"
| "prep_read_fixed args = []"

fun prep_write :: "arg list \<Rightarrow> (string \<times> arg list) list" where
  "prep_write [fd, buf, nbytes, offset, flags] =
     [(''io_uring_prep_write'', [fd, buf, as_unsigned nbytes, offset]), (''rw_flags ='', [flags])]"
| "prep_write args = []"

fun prep_write_fixed :: "arg list \<Rightarrow> (string \<times> arg list) list" where
  "prep_write_fixed [fd, buf, nbytes, offset, flags, buf_index] =
     [(''io_uring_prep_write_fixed'', [fd, buf, as_unsigned nbytes, offset, buf_index]), (''rw_flags ='', [flags])]"
| "prep_write_fixed args = []"

section \<open>The operations\<close>

definition async_splice :: "fd \<Rightarrow> int \<Rightarrow> fd \<Rightarrow> int \<Rightarrow> u32 \<Rightarrow> u32 \<Rightarrow> async_op" where [async_defs]:
  "async_splice fd_in off_in fd_out off_out nbytes splice_flags =
     maybe_flag_fixed_fd
       (make_op_awaiter (liburing ''io_uring_prep_splice'')
          [unwrap_fixed fd_in, I off_in, unwrap_fixed fd_out, I off_out, W nbytes,
           W (if is_fixed_fd fd_in then splice_flags OR SPLICE_F_FD_IN_FIXED else splice_flags)]) fd_out"

definition async_tee :: "fd \<Rightarrow> fd \<Rightarrow> u32 \<Rightarrow> u32 \<Rightarrow> async_op" where [async_defs]:
  "async_tee fd_in fd_out nbytes splice_flags =
     maybe_flag_fixed_fd
       (make_op_awaiter (liburing ''io_uring_prep_tee'')
          [unwrap_fixed fd_in, unwrap_fixed fd_out, W nbytes,
           W (if is_fixed_fd fd_in then splice_flags OR SPLICE_F_FD_IN_FIXED else splice_flags)]) fd_out"

definition async_readv :: "fd \<Rightarrow> ptr \<Rightarrow> u32 \<Rightarrow> u64 \<Rightarrow> i32 \<Rightarrow> async_op" where [async_defs]:
  "async_readv fd iovecs nr_vecs offset flags =
     maybe_flag_fixed_fd
       (make_op_awaiter (liburing ''io_uring_prep_readv2'')
          [unwrap_fixed fd, P iovecs, W nr_vecs, U offset, I flags]) fd"

definition async_readv_fixed :: "fd \<Rightarrow> ptr fixed_buffer \<Rightarrow> u32 \<Rightarrow> u64 \<Rightarrow> i32 \<Rightarrow> async_op" where [async_defs]:
  "async_readv_fixed fd iovecs nr_vecs offset flags =
     maybe_flag_fixed_fd
       (make_op_awaiter (liburing ''io_uring_prep_readv_fixed'')
          [unwrap_fixed fd, P (fb_value iovecs), W nr_vecs, U offset, I flags, I (fb_index iovecs)]) fd"

definition async_writev :: "fd \<Rightarrow> ptr \<Rightarrow> u32 \<Rightarrow> u64 \<Rightarrow> i32 \<Rightarrow> async_op" where [async_defs]:
  "async_writev fd iovecs nr_vecs offset flags =
     maybe_flag_fixed_fd
       (make_op_awaiter (liburing ''io_uring_prep_writev2'')
          [unwrap_fixed fd, P iovecs, W nr_vecs, U offset, I flags]) fd"

definition async_writev_fixed :: "fd \<Rightarrow> ptr fixed_buffer \<Rightarrow> u32 \<Rightarrow> u64 \<Rightarrow> i32 \<Rightarrow> async_op" where [async_defs]:
  "async_writev_fixed fd iovecs nr_vecs offset flags =
     maybe_flag_fixed_fd
       (make_op_awaiter (liburing ''io_uring_prep_writev_fixed'')
          [unwrap_fixed fd, P (fb_value iovecs), W nr_vecs, U offset, I flags, I (fb_index iovecs)]) fd"

definition async_recvmsg :: "fd \<Rightarrow> ptr \<Rightarrow> u32 \<Rightarrow> async_op" where [async_defs]:
  "async_recvmsg fd msg flags =
     maybe_flag_fixed_fd
       (make_op_awaiter (liburing ''io_uring_prep_recvmsg'') [unwrap_fixed fd, P msg, W flags]) fd"

definition async_recvmsg_multishot_provided :: "fd \<Rightarrow> ptr \<Rightarrow> u32 \<Rightarrow> buf_ring_ref \<Rightarrow> async_op" where [async_defs]:
  "async_recvmsg_multishot_provided fd msg flags buf =
     maybe_flag_fixed_fd
       (make_multishot_select_buffer_op_awaiter buf (liburing ''io_uring_prep_recvmsg_multishot'') [unwrap_fixed fd, P msg, W flags]) fd"

definition async_sendmsg :: "fd \<Rightarrow> ptr \<Rightarrow> u32 \<Rightarrow> async_op" where [async_defs]:
  "async_sendmsg fd msg flags =
     maybe_flag_fixed_fd
       (make_op_awaiter (liburing ''io_uring_prep_sendmsg'') [unwrap_fixed fd, P msg, W flags]) fd"

definition async_sendmsg_zc :: "fd \<Rightarrow> ptr \<Rightarrow> u32 \<Rightarrow> async_op" where [async_defs]:
  "async_sendmsg_zc fd msg flags =
     maybe_flag_fixed_fd
       (make_zero_copy_op_awaiter (liburing ''io_uring_prep_sendmsg_zc'') [unwrap_fixed fd, P msg, W flags]) fd"

definition async_sendmsg_zc_fixed :: "fd \<Rightarrow> ptr fixed_buffer \<Rightarrow> u32 \<Rightarrow> async_op" where [async_defs]:
  "async_sendmsg_zc_fixed fd msg flags =
     maybe_flag_fixed_fd
       (make_zero_copy_op_awaiter (liburing ''io_uring_prep_sendmsg_zc_fixed'')
          [unwrap_fixed fd, P (fb_value msg), W flags, I (fb_index msg)]) fd"

definition async_fsync :: "fd \<Rightarrow> u32 \<Rightarrow> async_op" where [async_defs]:
  "async_fsync fd fsync_flags =
     maybe_flag_fixed_fd
       (make_op_awaiter (liburing ''io_uring_prep_fsync'') [unwrap_fixed fd, W fsync_flags]) fd"

definition async_nop :: async_op where [async_defs]:
  "async_nop =
     make_op_awaiter (liburing ''io_uring_prep_nop'') []"

definition async_nop128 :: async_op where [async_defs]:
  "async_nop128 =
     make_op_awaiter128 (liburing ''io_uring_prep_nop128'') []"

definition async_timeout :: "ptr \<Rightarrow> u32 \<Rightarrow> u32 \<Rightarrow> async_op" where [async_defs]:
  "async_timeout ts cnt flags =
     make_op_awaiter (liburing ''io_uring_prep_timeout'') [P ts, W cnt, W flags]"

definition async_timeout_multishot :: "ptr \<Rightarrow> u32 \<Rightarrow> u32 \<Rightarrow> async_op" where [async_defs]:
  "async_timeout_multishot ts cnt flags =
     make_multishot_op_awaiter (liburing ''io_uring_prep_timeout'') [P ts, W cnt, W (flags OR IORING_TIMEOUT_MULTISHOT)]"

definition async_accept :: "fd \<Rightarrow> ptr \<Rightarrow> ptr \<Rightarrow> i32 \<Rightarrow> async_op" where [async_defs]:
  "async_accept fd addr addrlen flags =
     maybe_flag_fixed_fd
       (make_op_awaiter (liburing ''io_uring_prep_accept'') [unwrap_fixed fd, P addr, P addrlen, I flags]) fd"

definition async_accept_direct :: "fd \<Rightarrow> ptr \<Rightarrow> ptr \<Rightarrow> i32 \<Rightarrow> u32 \<Rightarrow> async_op" where [async_defs]:
  "async_accept_direct fd addr addrlen flags file_index =
     maybe_flag_fixed_fd
       (make_op_awaiter (liburing ''io_uring_prep_accept_direct'')
          [unwrap_fixed fd, P addr, P addrlen, I flags, W file_index]) fd"

definition async_multishot_accept :: "fd \<Rightarrow> ptr \<Rightarrow> ptr \<Rightarrow> i32 \<Rightarrow> async_op" where [async_defs]:
  "async_multishot_accept fd addr addrlen flags =
     maybe_flag_fixed_fd
       (make_multishot_op_awaiter (liburing ''io_uring_prep_multishot_accept'') [unwrap_fixed fd, P addr, P addrlen, I flags]) fd"

definition async_multishot_accept_direct :: "fd \<Rightarrow> ptr \<Rightarrow> ptr \<Rightarrow> i32 \<Rightarrow> async_op" where [async_defs]:
  "async_multishot_accept_direct fd addr addrlen flags =
     maybe_flag_fixed_fd
       (make_multishot_op_awaiter (liburing ''io_uring_prep_multishot_accept_direct'') [unwrap_fixed fd, P addr, P addrlen, I flags]) fd"

definition async_cancel_fd :: "fd \<Rightarrow> u32 \<Rightarrow> async_op" where [async_defs]:
  "async_cancel_fd fd flags =
     make_op_awaiter (liburing ''io_uring_prep_cancel_fd'')
       [unwrap_fixed fd, W (if is_fixed_fd fd then flags OR IORING_ASYNC_CANCEL_FD_FIXED else flags)]"

definition async_link_timeout :: "ptr \<Rightarrow> u32 \<Rightarrow> async_op" where [async_defs]:
  "async_link_timeout ts flags =
     make_op_awaiter (liburing ''io_uring_prep_link_timeout'') [P ts, W flags]"

definition async_connect :: "fd \<Rightarrow> ptr \<Rightarrow> u32 \<Rightarrow> async_op" where [async_defs]:
  "async_connect fd addr addrlen =
     maybe_flag_fixed_fd
       (make_op_awaiter (liburing ''io_uring_prep_connect'') [unwrap_fixed fd, P addr, W addrlen]) fd"

definition async_files_update :: "ptr \<Rightarrow> u32 \<Rightarrow> i32 \<Rightarrow> async_op" where [async_defs]:
  "async_files_update fds nr_fds offset =
     make_op_awaiter (liburing ''io_uring_prep_files_update'') [P fds, W nr_fds, I offset]"

definition async_fallocate :: "fd \<Rightarrow> i32 \<Rightarrow> u64 \<Rightarrow> u64 \<Rightarrow> async_op" where [async_defs]:
  "async_fallocate fd mode offset len =
     maybe_flag_fixed_fd
       (make_op_awaiter (liburing ''io_uring_prep_fallocate'') [unwrap_fixed fd, I mode, U offset, U len]) fd"

definition async_openat :: "i32 \<Rightarrow> ptr \<Rightarrow> i32 \<Rightarrow> u32 \<Rightarrow> async_op" where [async_defs]:
  "async_openat dfd path flags mode =
     make_op_awaiter (liburing ''io_uring_prep_openat'') [I dfd, P path, I flags, W mode]"

definition async_openat_direct :: "i32 \<Rightarrow> ptr \<Rightarrow> i32 \<Rightarrow> u32 \<Rightarrow> u32 \<Rightarrow> async_op" where [async_defs]:
  "async_openat_direct dfd path flags mode file_index =
     make_op_awaiter (liburing ''io_uring_prep_openat_direct'') [I dfd, P path, I flags, W mode, W file_index]"

definition async_open :: "ptr \<Rightarrow> i32 \<Rightarrow> u32 \<Rightarrow> async_op" where [async_defs]:
  "async_open path flags mode =
     async_openat AT_FDCWD path flags mode"

definition async_open_direct :: "ptr \<Rightarrow> i32 \<Rightarrow> u32 \<Rightarrow> u32 \<Rightarrow> async_op" where [async_defs]:
  "async_open_direct path flags mode file_index =
     async_openat_direct AT_FDCWD path flags mode file_index"

definition async_close :: "i32 \<Rightarrow> async_op" where [async_defs]:
  "async_close fd =
     make_op_awaiter (liburing ''io_uring_prep_close'') [I fd]"

definition async_close_fixed :: "i32 \<Rightarrow> async_op" where [async_defs]:
  "async_close_fixed fd =
     make_op_awaiter (liburing ''io_uring_prep_close_direct'') [I fd]"

definition async_read :: "fd \<Rightarrow> buffer \<Rightarrow> u64 \<Rightarrow> i32 \<Rightarrow> async_op" where [async_defs]:
  "async_read fd buf offset flags =
     maybe_flag_fixed_fd
       (make_op_awaiter prep_read
          [unwrap_fixed fd, P (bf_data buf), U (bf_size buf), U offset, I flags]) fd"

definition async_read_fixed :: "fd \<Rightarrow> buffer fixed_buffer \<Rightarrow> u64 \<Rightarrow> i32 \<Rightarrow> async_op" where [async_defs]:
  "async_read_fixed fd buf offset flags =
     maybe_flag_fixed_fd
       (make_op_awaiter prep_read_fixed
          [unwrap_fixed fd, P (bf_data (fb_value buf)), U (bf_size (fb_value buf)), U offset, I flags, I (fb_index buf)]) fd"

definition async_read_provided :: "fd \<Rightarrow> buf_ring_ref \<Rightarrow> u64 \<Rightarrow> async_op" where [async_defs]:
  "async_read_provided fd buf offset =
     maybe_flag_fixed_fd
       (make_select_buffer_op_awaiter buf (liburing ''io_uring_prep_read'') [unwrap_fixed fd, P nullptr, U 0, U offset]) fd"

definition async_read_multishot_provided :: "fd \<Rightarrow> buf_ring_ref \<Rightarrow> u64 \<Rightarrow> async_op" where [async_defs]:
  "async_read_multishot_provided fd buf offset =
     maybe_flag_fixed_fd
       (make_multishot_select_buffer_op_awaiter buf (liburing ''io_uring_prep_read_multishot'')
          [unwrap_fixed fd, U 0, U offset, I (uint (br_bgid buf))]) fd"

definition async_write :: "fd \<Rightarrow> buffer \<Rightarrow> u64 \<Rightarrow> i32 \<Rightarrow> async_op" where [async_defs]:
  "async_write fd buf offset flags =
     maybe_flag_fixed_fd
       (make_op_awaiter prep_write
          [unwrap_fixed fd, P (bf_data buf), U (bf_size buf), U offset, I flags]) fd"

definition async_write_fixed :: "fd \<Rightarrow> buffer fixed_buffer \<Rightarrow> u64 \<Rightarrow> i32 \<Rightarrow> async_op" where [async_defs]:
  "async_write_fixed fd buf offset flags =
     maybe_flag_fixed_fd
       (make_op_awaiter prep_write_fixed
          [unwrap_fixed fd, P (bf_data (fb_value buf)), U (bf_size (fb_value buf)), U offset, I flags, I (fb_index buf)]) fd"

definition async_statx :: "i32 \<Rightarrow> ptr \<Rightarrow> i32 \<Rightarrow> u32 \<Rightarrow> ptr \<Rightarrow> async_op" where [async_defs]:
  "async_statx dfd path flags msk statxbuf =
     make_op_awaiter (liburing ''io_uring_prep_statx'') [I dfd, P path, I flags, W msk, P statxbuf]"

definition async_fadvise :: "fd \<Rightarrow> u64 \<Rightarrow> int \<Rightarrow> i32 \<Rightarrow> async_op" where [async_defs]:
  "async_fadvise fd offset len advice =
     maybe_flag_fixed_fd
       (make_op_awaiter (liburing ''io_uring_prep_fadvise'') [unwrap_fixed fd, U offset, I len, I advice]) fd"

definition async_fadvise64 :: "fd \<Rightarrow> u64 \<Rightarrow> int \<Rightarrow> i32 \<Rightarrow> async_op" where [async_defs]:
  "async_fadvise64 fd offset len advice =
     maybe_flag_fixed_fd
       (make_op_awaiter (liburing ''io_uring_prep_fadvise64'') [unwrap_fixed fd, U offset, I len, I advice]) fd"

definition async_madvise :: "ptr \<Rightarrow> u32 \<Rightarrow> i32 \<Rightarrow> async_op" where [async_defs]:
  "async_madvise addr len advice =
     make_op_awaiter (liburing ''io_uring_prep_madvise'') [P addr, W len, I advice]"

definition async_madvise64 :: "ptr \<Rightarrow> int \<Rightarrow> i32 \<Rightarrow> async_op" where [async_defs]:
  "async_madvise64 addr len advice =
     make_op_awaiter (liburing ''io_uring_prep_madvise64'') [P addr, I len, I advice]"

definition async_send :: "fd \<Rightarrow> buffer \<Rightarrow> i32 \<Rightarrow> async_op" where [async_defs]:
  "async_send sockfd buf flags =
     maybe_flag_fixed_fd
       (make_op_awaiter (liburing ''io_uring_prep_send'')
          [unwrap_fixed sockfd, P (bf_data buf), U (bf_size buf), I flags]) sockfd"

definition async_send_fixed :: "fd \<Rightarrow> buffer fixed_buffer \<Rightarrow> i32 \<Rightarrow> async_op" where [async_defs]:
  "async_send_fixed sockfd buf flags =
     maybe_flag_fixed_fd
       (make_op_awaiter prep_send_fixed
          [unwrap_fixed sockfd, P (bf_data (fb_value buf)), U (bf_size (fb_value buf)), I flags, I (fb_index buf)]) sockfd"

definition async_send_provided :: "fd \<Rightarrow> buf_ring_ref \<Rightarrow> i32 \<Rightarrow> async_op" where [async_defs]:
  "async_send_provided sockfd buf flags =
     maybe_flag_fixed_fd
       (make_select_buffer_op_awaiter buf (liburing ''io_uring_prep_send'') [unwrap_fixed sockfd, P nullptr, U 0, I flags]) sockfd"

definition async_send_bundled :: "fd \<Rightarrow> buf_ring_ref \<Rightarrow> i32 \<Rightarrow> async_op" where [async_defs]:
  "async_send_bundled sockfd buf flags =
     maybe_flag_fixed_fd
       (make_bundle_select_buffer_op_awaiter buf (liburing ''io_uring_prep_send'') [unwrap_fixed sockfd, P nullptr, U 0, I flags]) sockfd"

definition async_sendto :: "fd \<Rightarrow> buffer \<Rightarrow> i32 \<Rightarrow> ptr \<Rightarrow> u32 \<Rightarrow> async_op" where [async_defs]:
  "async_sendto sockfd buf flags addr addrlen =
     maybe_flag_fixed_fd
       (make_op_awaiter prep_sendto
          [unwrap_fixed sockfd, P (bf_data buf), U (bf_size buf), I flags, P addr, W addrlen]) sockfd"

definition async_sendto_fixed :: "fd \<Rightarrow> buffer fixed_buffer \<Rightarrow> i32 \<Rightarrow> ptr \<Rightarrow> u32 \<Rightarrow> async_op" where [async_defs]:
  "async_sendto_fixed sockfd buf flags addr addrlen =
     maybe_flag_fixed_fd
       (make_op_awaiter prep_sendto_fixed
          [unwrap_fixed sockfd, P (bf_data (fb_value buf)), U (bf_size (fb_value buf)), I flags, P addr, W addrlen, I (fb_index buf)]) sockfd"

definition async_sendto_provided :: "fd \<Rightarrow> buf_ring_ref \<Rightarrow> i32 \<Rightarrow> ptr \<Rightarrow> u32 \<Rightarrow> async_op" where [async_defs]:
  "async_sendto_provided sockfd buf flags addr addrlen =
     maybe_flag_fixed_fd
       (make_select_buffer_op_awaiter buf prep_sendto
          [unwrap_fixed sockfd, P nullptr, U 0, I flags, P addr, W addrlen]) sockfd"

definition async_sendto_bundled :: "fd \<Rightarrow> buf_ring_ref \<Rightarrow> i32 \<Rightarrow> ptr \<Rightarrow> u32 \<Rightarrow> async_op" where [async_defs]:
  "async_sendto_bundled sockfd buf flags addr addrlen =
     maybe_flag_fixed_fd
       (make_bundle_select_buffer_op_awaiter buf prep_sendto
          [unwrap_fixed sockfd, P nullptr, U 0, I flags, P addr, W addrlen]) sockfd"

definition async_send_zc :: "fd \<Rightarrow> buffer \<Rightarrow> i32 \<Rightarrow> u32 \<Rightarrow> async_op" where [async_defs]:
  "async_send_zc sockfd buf flags zc_flags =
     maybe_flag_fixed_fd
       (make_zero_copy_op_awaiter (liburing ''io_uring_prep_send_zc'')
          [unwrap_fixed sockfd, P (bf_data buf), U (bf_size buf), I flags, W zc_flags]) sockfd"

definition async_send_zc_fixed :: "fd \<Rightarrow> buffer fixed_buffer \<Rightarrow> i32 \<Rightarrow> u32 \<Rightarrow> async_op" where [async_defs]:
  "async_send_zc_fixed sockfd buf flags zc_flags =
     maybe_flag_fixed_fd
       (make_zero_copy_op_awaiter (liburing ''io_uring_prep_send_zc_fixed'')
          [unwrap_fixed sockfd, P (bf_data (fb_value buf)), U (bf_size (fb_value buf)), I flags, W zc_flags, I (fb_index buf)]) sockfd"

definition async_sendto_zc :: "fd \<Rightarrow> buffer \<Rightarrow> i32 \<Rightarrow> ptr \<Rightarrow> u32 \<Rightarrow> u32 \<Rightarrow> async_op" where [async_defs]:
  "async_sendto_zc sockfd buf flags addr addrlen zc_flags =
     maybe_flag_fixed_fd
       (make_zero_copy_op_awaiter prep_sendto_zc
          [unwrap_fixed sockfd, P (bf_data buf), U (bf_size buf), I flags, P addr, W addrlen, W zc_flags]) sockfd"

definition async_sendto_zc_fixed :: "fd \<Rightarrow> buffer fixed_buffer \<Rightarrow> i32 \<Rightarrow> ptr \<Rightarrow> u32 \<Rightarrow> u32 \<Rightarrow> async_op" where [async_defs]:
  "async_sendto_zc_fixed sockfd buf flags addr addrlen zc_flags =
     maybe_flag_fixed_fd
       (make_zero_copy_op_awaiter prep_sendto_zc_fixed
          [unwrap_fixed sockfd, P (bf_data (fb_value buf)), U (bf_size (fb_value buf)), I flags, P addr, W addrlen, W zc_flags, I (fb_index buf)]) sockfd"

definition async_recv :: "fd \<Rightarrow> buffer \<Rightarrow> i32 \<Rightarrow> async_op" where [async_defs]:
  "async_recv sockfd buf flags =
     maybe_flag_fixed_fd
       (make_op_awaiter (liburing ''io_uring_prep_recv'')
          [unwrap_fixed sockfd, P (bf_data buf), U (bf_size buf), I flags]) sockfd"

definition async_recv_fixed :: "fd \<Rightarrow> buffer fixed_buffer \<Rightarrow> i32 \<Rightarrow> async_op" where [async_defs]:
  "async_recv_fixed sockfd buf flags =
     maybe_flag_fixed_fd
       (make_op_awaiter prep_recv_fixed
          [unwrap_fixed sockfd, P (bf_data (fb_value buf)), U (bf_size (fb_value buf)), I flags, I (fb_index buf)]) sockfd"

definition async_recv_provided :: "fd \<Rightarrow> buf_ring_ref \<Rightarrow> i32 \<Rightarrow> async_op" where [async_defs]:
  "async_recv_provided sockfd buf flags =
     maybe_flag_fixed_fd
       (make_select_buffer_op_awaiter buf (liburing ''io_uring_prep_recv'') [unwrap_fixed sockfd, P nullptr, U 0, I flags]) sockfd"

definition async_recv_bundled :: "fd \<Rightarrow> buf_ring_ref \<Rightarrow> i32 \<Rightarrow> async_op" where [async_defs]:
  "async_recv_bundled sockfd buf flags =
     maybe_flag_fixed_fd
       (make_bundle_select_buffer_op_awaiter buf (liburing ''io_uring_prep_recv'') [unwrap_fixed sockfd, P nullptr, U 0, I flags]) sockfd"

definition async_recv_multishot_provided :: "fd \<Rightarrow> buf_ring_ref \<Rightarrow> i32 \<Rightarrow> async_op" where [async_defs]:
  "async_recv_multishot_provided sockfd buf flags =
     maybe_flag_fixed_fd
       (make_multishot_select_buffer_op_awaiter buf (liburing ''io_uring_prep_recv_multishot'') [unwrap_fixed sockfd, P nullptr, U 0, I flags]) sockfd"

definition async_recv_multishot_bundled :: "fd \<Rightarrow> buf_ring_ref \<Rightarrow> i32 \<Rightarrow> async_op" where [async_defs]:
  "async_recv_multishot_bundled sockfd buf flags =
     maybe_flag_fixed_fd
       (make_multishot_bundle_select_buffer_op_awaiter buf (liburing ''io_uring_prep_recv_multishot'') [unwrap_fixed sockfd, P nullptr, U 0, I flags]) sockfd"

definition async_recv_multishot_zcrx :: "i32 \<Rightarrow> ptr \<Rightarrow> u32 \<Rightarrow> i32 \<Rightarrow> async_op" where [async_defs]:
  "async_recv_multishot_zcrx sockfd pool zcrx_id flags =
     maybe_flag_fixed_fd
       \<lparr>ao_kind = Multi_shot, ao_handler = Select_handler pool, ao_sqe128 = False,
        ao_calls = prep_recv_zc_multishot
          [I sockfd, W zcrx_id], ao_flags = {}\<rparr> (Fd sockfd)"

definition async_openat2 :: "i32 \<Rightarrow> ptr \<Rightarrow> ptr \<Rightarrow> async_op" where [async_defs]:
  "async_openat2 dfd path how =
     make_op_awaiter (liburing ''io_uring_prep_openat2'') [I dfd, P path, P how]"

definition async_openat2_direct :: "i32 \<Rightarrow> ptr \<Rightarrow> ptr \<Rightarrow> u32 \<Rightarrow> async_op" where [async_defs]:
  "async_openat2_direct dfd path how file_index =
     make_op_awaiter (liburing ''io_uring_prep_openat2_direct'') [I dfd, P path, P how, W file_index]"

definition async_shutdown :: "fd \<Rightarrow> i32 \<Rightarrow> async_op" where [async_defs]:
  "async_shutdown fd how =
     maybe_flag_fixed_fd
       (make_op_awaiter (liburing ''io_uring_prep_shutdown'') [unwrap_fixed fd, I how]) fd"

definition async_unlinkat :: "i32 \<Rightarrow> ptr \<Rightarrow> i32 \<Rightarrow> async_op" where [async_defs]:
  "async_unlinkat dfd path flags =
     make_op_awaiter (liburing ''io_uring_prep_unlinkat'') [I dfd, P path, I flags]"

definition async_unlink :: "ptr \<Rightarrow> i32 \<Rightarrow> async_op" where [async_defs]:
  "async_unlink path flags =
     async_unlinkat AT_FDCWD path flags"

definition async_renameat :: "i32 \<Rightarrow> ptr \<Rightarrow> i32 \<Rightarrow> ptr \<Rightarrow> u32 \<Rightarrow> async_op" where [async_defs]:
  "async_renameat olddfd oldpath newdfd newpath flags =
     make_op_awaiter (liburing ''io_uring_prep_renameat'') [I olddfd, P oldpath, I newdfd, P newpath, W flags]"

definition async_rename :: "ptr \<Rightarrow> ptr \<Rightarrow> async_op" where [async_defs]:
  "async_rename oldpath newpath =
     async_renameat AT_FDCWD oldpath AT_FDCWD newpath 0"

definition async_sync_file_range :: "fd \<Rightarrow> u32 \<Rightarrow> u64 \<Rightarrow> i32 \<Rightarrow> async_op" where [async_defs]:
  "async_sync_file_range fd len offset flags =
     maybe_flag_fixed_fd
       (make_op_awaiter (liburing ''io_uring_prep_sync_file_range'') [unwrap_fixed fd, W len, U offset, I flags]) fd"

definition async_mkdirat :: "i32 \<Rightarrow> ptr \<Rightarrow> u32 \<Rightarrow> async_op" where [async_defs]:
  "async_mkdirat dfd path mode =
     make_op_awaiter (liburing ''io_uring_prep_mkdirat'') [I dfd, P path, W mode]"

definition async_mkdir :: "ptr \<Rightarrow> u32 \<Rightarrow> async_op" where [async_defs]:
  "async_mkdir path mode =
     async_mkdirat AT_FDCWD path mode"

definition async_symlinkat :: "ptr \<Rightarrow> i32 \<Rightarrow> ptr \<Rightarrow> async_op" where [async_defs]:
  "async_symlinkat target newdirfd linkpath =
     make_op_awaiter (liburing ''io_uring_prep_symlinkat'') [P target, I newdirfd, P linkpath]"

definition async_symlink :: "ptr \<Rightarrow> ptr \<Rightarrow> async_op" where [async_defs]:
  "async_symlink target linkpath =
     async_symlinkat target AT_FDCWD linkpath"

definition async_linkat :: "i32 \<Rightarrow> ptr \<Rightarrow> i32 \<Rightarrow> ptr \<Rightarrow> i32 \<Rightarrow> async_op" where [async_defs]:
  "async_linkat olddfd oldpath newdfd newpath flags =
     make_op_awaiter (liburing ''io_uring_prep_linkat'') [I olddfd, P oldpath, I newdfd, P newpath, I flags]"

definition async_link :: "ptr \<Rightarrow> ptr \<Rightarrow> i32 \<Rightarrow> async_op" where [async_defs]:
  "async_link oldpath newpath flags =
     async_linkat AT_FDCWD oldpath AT_FDCWD newpath flags"

definition async_getxattr :: "ptr \<Rightarrow> ptr \<Rightarrow> ptr \<Rightarrow> u32 \<Rightarrow> async_op" where [async_defs]:
  "async_getxattr name val path len =
     make_op_awaiter (liburing ''io_uring_prep_getxattr'') [P name, P val, P path, W len]"

definition async_setxattr :: "ptr \<Rightarrow> ptr \<Rightarrow> ptr \<Rightarrow> i32 \<Rightarrow> u32 \<Rightarrow> async_op" where [async_defs]:
  "async_setxattr name val path flags len =
     make_op_awaiter (liburing ''io_uring_prep_setxattr'') [P name, P val, P path, I flags, W len]"

definition async_fgetxattr :: "i32 \<Rightarrow> ptr \<Rightarrow> ptr \<Rightarrow> u32 \<Rightarrow> async_op" where [async_defs]:
  "async_fgetxattr fd name val len =
     make_op_awaiter (liburing ''io_uring_prep_fgetxattr'') [I fd, P name, P val, W len]"

definition async_fsetxattr :: "i32 \<Rightarrow> ptr \<Rightarrow> ptr \<Rightarrow> i32 \<Rightarrow> u32 \<Rightarrow> async_op" where [async_defs]:
  "async_fsetxattr fd name val flags len =
     make_op_awaiter (liburing ''io_uring_prep_fsetxattr'') [I fd, P name, P val, I flags, W len]"

definition async_socket :: "i32 \<Rightarrow> i32 \<Rightarrow> i32 \<Rightarrow> u32 \<Rightarrow> async_op" where [async_defs]:
  "async_socket domain type protocol flags =
     make_op_awaiter (liburing ''io_uring_prep_socket'') [I domain, I type, I protocol, W flags]"

definition async_socket_direct :: "i32 \<Rightarrow> i32 \<Rightarrow> i32 \<Rightarrow> u32 \<Rightarrow> u32 \<Rightarrow> async_op" where [async_defs]:
  "async_socket_direct domain type protocol file_index flags =
     make_op_awaiter (liburing ''io_uring_prep_socket_direct'') [I domain, I type, I protocol, W file_index, W flags]"

definition async_uring_cmd :: "i32 \<Rightarrow> fd \<Rightarrow> (string \<times> arg list) list \<Rightarrow> op_handler \<Rightarrow> async_op" where [async_defs]:
  "async_uring_cmd cmd_op fd cmd_func cqe_handler =
     maybe_flag_fixed_fd
       \<lparr>ao_kind = One_shot, ao_handler = cqe_handler, ao_sqe128 = False,
        ao_calls = (''io_uring_prep_uring_cmd'', [I cmd_op, unwrap_fixed fd]) # cmd_func, ao_flags = {}\<rparr> fd"

definition async_uring_cmd_deprecated :: "i32 \<Rightarrow> fd \<Rightarrow> (string \<times> arg list) list \<Rightarrow> op_handler \<Rightarrow> async_op" where [async_defs]:
  "async_uring_cmd_deprecated cmd_op fd cmd_func cqe_handler = async_uring_cmd cmd_op fd cmd_func cqe_handler"

definition async_uring_cmd_multishot :: "i32 \<Rightarrow> fd \<Rightarrow> (string \<times> arg list) list \<Rightarrow> op_handler \<Rightarrow> async_op" where [async_defs]:
  "async_uring_cmd_multishot cmd_op fd cmd_func cqe_handler =
     maybe_flag_fixed_fd
       \<lparr>ao_kind = Multi_shot, ao_handler = cqe_handler, ao_sqe128 = False,
        ao_calls = (''io_uring_prep_uring_cmd'', [I cmd_op, unwrap_fixed fd]) # cmd_func, ao_flags = {}\<rparr> fd"

definition async_uring_cmd_multishot_deprecated :: "i32 \<Rightarrow> fd \<Rightarrow> (string \<times> arg list) list \<Rightarrow> op_handler \<Rightarrow> async_op" where [async_defs]:
  "async_uring_cmd_multishot_deprecated cmd_op fd cmd_func cqe_handler = async_uring_cmd_multishot cmd_op fd cmd_func cqe_handler"

definition async_uring_cmd128 :: "i32 \<Rightarrow> fd \<Rightarrow> (string \<times> arg list) list \<Rightarrow> op_handler \<Rightarrow> async_op" where [async_defs]:
  "async_uring_cmd128 cmd_op fd cmd_func cqe_handler =
     maybe_flag_fixed_fd
       \<lparr>ao_kind = One_shot, ao_handler = cqe_handler, ao_sqe128 = True,
        ao_calls = (''io_uring_prep_uring_cmd128'', [I cmd_op, unwrap_fixed fd]) # cmd_func, ao_flags = {}\<rparr> fd"

definition async_uring_cmd128_deprecated :: "i32 \<Rightarrow> fd \<Rightarrow> (string \<times> arg list) list \<Rightarrow> op_handler \<Rightarrow> async_op" where [async_defs]:
  "async_uring_cmd128_deprecated cmd_op fd cmd_func cqe_handler = async_uring_cmd128 cmd_op fd cmd_func cqe_handler"

definition async_cmd_sock :: "i32 \<Rightarrow> fd \<Rightarrow> i32 \<Rightarrow> i32 \<Rightarrow> ptr \<Rightarrow> i32 \<Rightarrow> async_op" where [async_defs]:
  "async_cmd_sock cmd_op fd level optname optval optlen =
     maybe_flag_fixed_fd
       (make_op_awaiter (liburing ''io_uring_prep_cmd_sock'')
          [I cmd_op, unwrap_fixed fd, I level, I optname, P optval, I optlen]) fd"

definition async_cmd_getsockname :: "fd \<Rightarrow> ptr \<Rightarrow> ptr \<Rightarrow> i32 \<Rightarrow> async_op" where [async_defs]:
  "async_cmd_getsockname fd sockaddr sockaddr_len peer =
     maybe_flag_fixed_fd
       (make_op_awaiter (liburing ''io_uring_prep_cmd_getsockname'') [unwrap_fixed fd, P sockaddr, P sockaddr_len, I peer]) fd"

definition async_waitid :: "u32 \<Rightarrow> u32 \<Rightarrow> ptr \<Rightarrow> i32 \<Rightarrow> u32 \<Rightarrow> async_op" where [async_defs]:
  "async_waitid idtype idn infop options flags =
     make_op_awaiter (liburing ''io_uring_prep_waitid'') [W idtype, W idn, P infop, I options, W flags]"

definition async_futex_wake :: "ptr \<Rightarrow> u64 \<Rightarrow> u64 \<Rightarrow> u32 \<Rightarrow> u32 \<Rightarrow> async_op" where [async_defs]:
  "async_futex_wake futex val msk futex_flags flags =
     make_op_awaiter (liburing ''io_uring_prep_futex_wake'') [P futex, U val, U msk, W futex_flags, W flags]"

definition async_futex_wait :: "ptr \<Rightarrow> u64 \<Rightarrow> u64 \<Rightarrow> u32 \<Rightarrow> u32 \<Rightarrow> async_op" where [async_defs]:
  "async_futex_wait futex val msk futex_flags flags =
     make_op_awaiter (liburing ''io_uring_prep_futex_wait'') [P futex, U val, U msk, W futex_flags, W flags]"

definition async_futex_waitv :: "ptr \<Rightarrow> u32 \<Rightarrow> u32 \<Rightarrow> async_op" where [async_defs]:
  "async_futex_waitv futex nr_futex flags =
     make_op_awaiter (liburing ''io_uring_prep_futex_waitv'') [P futex, W nr_futex, W flags]"

definition async_fixed_fd_install :: "i32 \<Rightarrow> u32 \<Rightarrow> async_op" where [async_defs]:
  "async_fixed_fd_install fixed_fd flags =
     make_op_awaiter (liburing ''io_uring_prep_fixed_fd_install'') [I fixed_fd, W flags]"

definition async_ftruncate :: "fd \<Rightarrow> int \<Rightarrow> async_op" where [async_defs]:
  "async_ftruncate fd len =
     maybe_flag_fixed_fd
       (make_op_awaiter (liburing ''io_uring_prep_ftruncate'') [unwrap_fixed fd, I len]) fd"

definition async_cmd_discard :: "fd \<Rightarrow> u64 \<Rightarrow> u64 \<Rightarrow> async_op" where [async_defs]:
  "async_cmd_discard fd offset nbytes =
     maybe_flag_fixed_fd
       (make_op_awaiter (liburing ''io_uring_prep_cmd_discard'') [unwrap_fixed fd, U offset, U nbytes]) fd"

definition async_bind :: "fd \<Rightarrow> ptr \<Rightarrow> u32 \<Rightarrow> async_op" where [async_defs]:
  "async_bind fd addr addrlen =
     maybe_flag_fixed_fd
       (make_op_awaiter (liburing ''io_uring_prep_bind'') [unwrap_fixed fd, P addr, W addrlen]) fd"

definition async_listen :: "fd \<Rightarrow> i32 \<Rightarrow> async_op" where [async_defs]:
  "async_listen fd backlog =
     maybe_flag_fixed_fd
       (make_op_awaiter (liburing ''io_uring_prep_listen'') [unwrap_fixed fd, I backlog]) fd"

definition async_epoll_ctl :: "i32 \<Rightarrow> i32 \<Rightarrow> i32 \<Rightarrow> ptr \<Rightarrow> async_op" where [async_defs]:
  "async_epoll_ctl epfd fd op ev =
     make_op_awaiter (liburing ''io_uring_prep_epoll_ctl'') [I epfd, I fd, I op, P ev]"

definition async_epoll_wait :: "i32 \<Rightarrow> ptr \<Rightarrow> i32 \<Rightarrow> u32 \<Rightarrow> async_op" where [async_defs]:
  "async_epoll_wait fd events maxevents flags =
     make_op_awaiter (liburing ''io_uring_prep_epoll_wait'') [I fd, P events, I maxevents, W flags]"

definition async_pipe :: "ptr \<Rightarrow> i32 \<Rightarrow> async_op" where [async_defs]:
  "async_pipe fds pipe_flags =
     make_op_awaiter (liburing ''io_uring_prep_pipe'') [P fds, I pipe_flags]"

definition async_pipe_direct :: "ptr \<Rightarrow> i32 \<Rightarrow> u32 \<Rightarrow> async_op" where [async_defs]:
  "async_pipe_direct fds pipe_flags file_index =
     make_op_awaiter (liburing ''io_uring_prep_pipe_direct'') [P fds, I pipe_flags, W file_index]"

section \<open>Starting an operation\<close>

definition ao_prep :: "async_op \<Rightarrow> 's prep" where
  "ao_prep op = (if ao_sqe128 op then op_prep128 (ao_calls op) {} else op_prep (ao_calls op) {})"

definition ao_start ::
  "'s rt_uring \<Rightarrow> ptr \<Rightarrow> bool \<Rightarrow> async_op \<Rightarrow> sqe_flag set \<Rightarrow> ptr \<Rightarrow> ('s, 'a) world \<Rightarrow> ((i32 + unit) \<times> ('s, 'a) world) option" where
  "ao_start u ctx stop_requested op flags self =
     flagged_start (ao_flags op) (\<lambda>f. op_start u ctx stop_requested (ao_prep op) f self) flags"

section \<open>Properties\<close>

lemmas builder_defs = make_op_awaiter_def make_op_awaiter128_def make_multishot_op_awaiter_def
  make_select_buffer_op_awaiter_def make_multishot_select_buffer_op_awaiter_def make_bundle_select_buffer_op_awaiter_def
  make_multishot_bundle_select_buffer_op_awaiter_def make_zero_copy_op_awaiter_def maybe_flag_fixed_fd_def liburing_def

subsection \<open>What the kernel finds in the entry\<close>

text \<open>
  An entry of the submission queue keeps what the last user of its slot wrote until something else is
  written. The parts that the library writes itself are spelled out: the flags, the field that
  \<open>buf_group\<close> and \<open>buf_index\<close> share, and the bits of \<open>ioprio\<close>. \<open>lib\<close> stands for the functions of
  liburing, and for the assignments to the other fields, which are in \<open>en_rest\<close>.
\<close>

record 'r entry =
  en_flags :: "sqe_flag set"
  en_buf :: arg
  en_ioprio :: "string set"
  en_rest :: 'r

fun run_write :: "(string \<Rightarrow> arg list \<Rightarrow> 'r entry \<Rightarrow> 'r entry) \<Rightarrow> string \<times> arg list \<Rightarrow> 'r entry \<Rightarrow> 'r entry" where
  "run_write lib (f, args) e =
     (if f = ''flags |='' then
        (if args = [S ''IOSQE_BUFFER_SELECT''] then e\<lparr>en_flags := insert IOSQE_BUFFER_SELECT (en_flags e)\<rparr> else e)
      else if f = ''buf_group ='' \<or> f = ''buf_index ='' then e\<lparr>en_buf := hd args\<rparr>
      else if f = ''ioprio |='' then e\<lparr>en_ioprio := en_ioprio e \<union> {bit. S bit \<in> set args}\<rparr>
      else lib f args e)"

text \<open>
  The writes of the preparation function in their order, and then the flags with which the operation
  starts: \<open>op_start\<close> adds them to those that are in the entry by then.
\<close>

definition as_seen :: "(string \<Rightarrow> arg list \<Rightarrow> 'r entry \<Rightarrow> 'r entry) \<Rightarrow> sqe \<Rightarrow> 'r entry \<Rightarrow> 'r entry" where
  "as_seen lib q e0 = (let e = fold (run_write lib) (sq_prep q) e0 in e\<lparr>en_flags := en_flags e \<union> sq_flags q\<rparr>)"

text \<open>What an operation that is started with some flags leaves in the slot that it gets.\<close>

definition started_entry ::
  "(string \<Rightarrow> arg list \<Rightarrow> 'r entry \<Rightarrow> 'r entry) \<Rightarrow> async_op \<Rightarrow> sqe_flag set \<Rightarrow> 'r entry \<Rightarrow> 'r entry" where
  "started_entry lib op flags e0 =
     as_seen lib \<lparr>sq_prep = ao_calls op, sq_user_data = 0, sq_flags = flags \<union> ao_flags op\<rparr> e0"

lemma as_seen_user_data [simp]: "as_seen lib (q\<lparr>sq_user_data := d\<rparr>) e0 = as_seen lib q e0"
  by (simp add: as_seen_def)

text \<open>\<open>ao_start\<close> fills the slot that it took with just that entry.\<close>

lemma ao_start_fills:
  assumes "ao_start u ctx sr op flags self w = Some (Inr (), w')"
  shows "\<exists>slot q g. slot \<noteq> nullptr \<and> rt_ring (w_rts w' ctx) = ring_maybe_submit u (g\<lparr>rg_uring := u_fill u slot q (rg_uring g)\<rparr>) \<and>
    (\<forall>lib e0. as_seen lib q e0 = started_entry lib op flags (e0 :: 'r entry))"
proof -
  obtain slot q g w1 work where q: "ao_prep op u (rt_ring (w_rts w ctx)) = Some (slot, q, g)" "slot \<noteq> nullptr"
    and w': "w' = w_upd ctx (\<lambda>x. x\<lparr>rt_ring := ring_maybe_submit u
      (g\<lparr>rg_uring := u_fill u slot (q\<lparr>sq_flags := sq_flags q \<union> (flags \<union> ao_flags op), sq_user_data := work\<rparr>) (rg_uring g)\<rparr>)\<rparr>) w1"
    using assms unfolding ao_start_def flagged_start_def op_start_def Let_def
    by (auto split: if_splits option.splits Option.bind_splits)
  have p: "sq_prep q = ao_calls op" "sq_flags q = {}"
    using q by (auto simp: ao_prep_def op_prep_def op_prep128_def split: if_splits Option.bind_splits)
  show ?thesis
    by (rule exI [of _ slot], rule exI [of _ "q\<lparr>sq_flags := sq_flags q \<union> (flags \<union> ao_flags op), sq_user_data := work\<rparr>"],
        rule exI [of _ g])
      (simp add: q w' p w_upd_def started_entry_def as_seen_def)
qed

text \<open>
  What the library relies on in liburing: a function that prepares an entry for an operation starts
  it afresh, with no flags; \<open>io_uring_prep_send_set_addr\<close> and the assignments to other fields leave
  the flags alone.
\<close>

definition starts_afresh :: "string \<Rightarrow> bool" where
  "starts_afresh f \<longleftrightarrow> take 14 f = ''io_uring_prep_'' \<and> f \<noteq> ''io_uring_prep_send_set_addr''"

definition prep_contract :: "(string \<Rightarrow> arg list \<Rightarrow> 'r entry \<Rightarrow> 'r entry) \<Rightarrow> bool" where
  "prep_contract lib \<longleftrightarrow> (\<forall>f args e. en_flags (lib f args e) = (if starts_afresh f then {} else en_flags e))"

text \<open>The function that a user gives to \<open>async_uring_cmd\<close> fills in the command and leaves the flags alone.\<close>

definition plain_writes :: "(string \<times> arg list) list \<Rightarrow> bool" where
  "plain_writes cs \<longleftrightarrow> list_all (\<lambda>(f, args). f \<noteq> ''flags |='' \<and> \<not> starts_afresh f) cs"

text \<open>
  Every operation whose descriptor is marked with \<open>IOSQE_FIXED_FILE\<close>, as a function of that
  descriptor. The output descriptors of \<open>async_splice\<close> and \<open>async_tee\<close> are among them; their input
  descriptors and the descriptor of \<open>async_cancel_fd\<close> are marked by a bit in an argument.
\<close>

inductive on_fd :: "(fd \<Rightarrow> async_op) \<Rightarrow> bool" where
  fd_readv: "on_fd (\<lambda>fd. async_readv fd iov nr off fl)"
| fd_readv_fixed: "on_fd (\<lambda>fd. async_readv_fixed fd fiov nr off fl)"
| fd_writev: "on_fd (\<lambda>fd. async_writev fd iov nr off fl)"
| fd_writev_fixed: "on_fd (\<lambda>fd. async_writev_fixed fd fiov nr off fl)"
| fd_recvmsg: "on_fd (\<lambda>fd. async_recvmsg fd msg ufl)"
| fd_recvmsg_multishot: "on_fd (\<lambda>fd. async_recvmsg_multishot_provided fd msg ufl br)"
| fd_sendmsg: "on_fd (\<lambda>fd. async_sendmsg fd msg ufl)"
| fd_sendmsg_zc: "on_fd (\<lambda>fd. async_sendmsg_zc fd msg ufl)"
| fd_sendmsg_zc_fixed: "on_fd (\<lambda>fd. async_sendmsg_zc_fixed fd fmsg ufl)"
| fd_fsync: "on_fd (\<lambda>fd. async_fsync fd ufl)"
| fd_accept: "on_fd (\<lambda>fd. async_accept fd addr addrlen fl)"
| fd_accept_direct: "on_fd (\<lambda>fd. async_accept_direct fd addr addrlen fl ix)"
| fd_multishot_accept: "on_fd (\<lambda>fd. async_multishot_accept fd addr addrlen fl)"
| fd_multishot_accept_direct: "on_fd (\<lambda>fd. async_multishot_accept_direct fd addr addrlen fl)"
| fd_connect: "on_fd (\<lambda>fd. async_connect fd addr len)"
| fd_fallocate: "on_fd (\<lambda>fd. async_fallocate fd mode off n)"
| fd_read: "on_fd (\<lambda>fd. async_read fd b off fl)"
| fd_read_fixed: "on_fd (\<lambda>fd. async_read_fixed fd fb off fl)"
| fd_read_provided: "on_fd (\<lambda>fd. async_read_provided fd br off)"
| fd_read_multishot: "on_fd (\<lambda>fd. async_read_multishot_provided fd br off)"
| fd_write: "on_fd (\<lambda>fd. async_write fd b off fl)"
| fd_write_fixed: "on_fd (\<lambda>fd. async_write_fixed fd fb off fl)"
| fd_fadvise: "on_fd (\<lambda>fd. async_fadvise fd off z advice)"
| fd_fadvise64: "on_fd (\<lambda>fd. async_fadvise64 fd off z advice)"
| fd_send: "on_fd (\<lambda>fd. async_send fd b fl)"
| fd_send_fixed: "on_fd (\<lambda>fd. async_send_fixed fd fb fl)"
| fd_send_provided: "on_fd (\<lambda>fd. async_send_provided fd br fl)"
| fd_send_bundled: "on_fd (\<lambda>fd. async_send_bundled fd br fl)"
| fd_sendto: "on_fd (\<lambda>fd. async_sendto fd b fl addr len)"
| fd_sendto_fixed: "on_fd (\<lambda>fd. async_sendto_fixed fd fb fl addr len)"
| fd_sendto_provided: "on_fd (\<lambda>fd. async_sendto_provided fd br fl addr len)"
| fd_sendto_bundled: "on_fd (\<lambda>fd. async_sendto_bundled fd br fl addr len)"
| fd_send_zc: "on_fd (\<lambda>fd. async_send_zc fd b fl zfl)"
| fd_send_zc_fixed: "on_fd (\<lambda>fd. async_send_zc_fixed fd fb fl zfl)"
| fd_sendto_zc: "on_fd (\<lambda>fd. async_sendto_zc fd b fl addr len zfl)"
| fd_sendto_zc_fixed: "on_fd (\<lambda>fd. async_sendto_zc_fixed fd fb fl addr len zfl)"
| fd_recv: "on_fd (\<lambda>fd. async_recv fd b fl)"
| fd_recv_fixed: "on_fd (\<lambda>fd. async_recv_fixed fd fb fl)"
| fd_recv_provided: "on_fd (\<lambda>fd. async_recv_provided fd br fl)"
| fd_recv_bundled: "on_fd (\<lambda>fd. async_recv_bundled fd br fl)"
| fd_recv_multishot: "on_fd (\<lambda>fd. async_recv_multishot_provided fd br fl)"
| fd_recv_multishot_bundled: "on_fd (\<lambda>fd. async_recv_multishot_bundled fd br fl)"
| fd_shutdown: "on_fd (\<lambda>fd. async_shutdown fd how)"
| fd_sync_file_range: "on_fd (\<lambda>fd. async_sync_file_range fd len off fl)"
| fd_cmd_sock: "on_fd (\<lambda>fd. async_cmd_sock cmd fd level optname optval optlen)"
| fd_cmd_getsockname: "on_fd (\<lambda>fd. async_cmd_getsockname fd sockaddr socklen peer)"
| fd_ftruncate: "on_fd (\<lambda>fd. async_ftruncate fd z)"
| fd_cmd_discard: "on_fd (\<lambda>fd. async_cmd_discard fd off n)"
| fd_bind: "on_fd (\<lambda>fd. async_bind fd addr len)"
| fd_listen: "on_fd (\<lambda>fd. async_listen fd backlog)"
| fd_splice_out: "on_fd (\<lambda>fd. async_splice fd_in off_in fd off_out nbytes ufl)"
| fd_tee_out: "on_fd (\<lambda>fd. async_tee fd_in fd nbytes ufl)"
| fd_uring_cmd: "plain_writes cs \<Longrightarrow> on_fd (\<lambda>fd. async_uring_cmd cmd fd cs h)"
| fd_uring_cmd_deprecated: "plain_writes cs \<Longrightarrow> on_fd (\<lambda>fd. async_uring_cmd_deprecated cmd fd cs h)"
| fd_uring_cmd_multishot: "plain_writes cs \<Longrightarrow> on_fd (\<lambda>fd. async_uring_cmd_multishot cmd fd cs h)"
| fd_uring_cmd_multishot_deprecated: "plain_writes cs \<Longrightarrow> on_fd (\<lambda>fd. async_uring_cmd_multishot_deprecated cmd fd cs h)"
| fd_uring_cmd128: "plain_writes cs \<Longrightarrow> on_fd (\<lambda>fd. async_uring_cmd128 cmd fd cs h)"
| fd_uring_cmd128_deprecated: "plain_writes cs \<Longrightarrow> on_fd (\<lambda>fd. async_uring_cmd128_deprecated cmd fd cs h)"

text \<open>The operations that take their buffer from a ring of provided buffers, and whether they ask for a bundle.\<close>

inductive from_ring :: "buf_ring_ref \<Rightarrow> bool \<Rightarrow> async_op \<Rightarrow> bool" where
  from_recvmsg_multishot: "from_ring br False (async_recvmsg_multishot_provided fd msg ufl br)"
| from_read_provided: "from_ring br False (async_read_provided fd br off)"
| from_read_multishot: "from_ring br False (async_read_multishot_provided fd br off)"
| from_send_provided: "from_ring br False (async_send_provided fd br fl)"
| from_sendto_provided: "from_ring br False (async_sendto_provided fd br fl addr len)"
| from_recv_provided: "from_ring br False (async_recv_provided fd br fl)"
| from_recv_multishot: "from_ring br False (async_recv_multishot_provided fd br fl)"
| from_send_bundled: "from_ring br True (async_send_bundled fd br fl)"
| from_sendto_bundled: "from_ring br True (async_sendto_bundled fd br fl addr len)"
| from_recv_bundled: "from_ring br True (async_recv_bundled fd br fl)"
| from_recv_multishot_bundled: "from_ring br True (async_recv_multishot_bundled fd br fl)"

lemma plain_writes_flags:
  assumes "prep_contract lib" and "plain_writes cs"
  shows "en_flags (fold (run_write lib) cs e) = en_flags e"
  using assms(2)
proof (induction cs arbitrary: e)
  case (Cons c cs)
  then show ?case
    using assms(1) by (cases c) (simp add: plain_writes_def prep_contract_def)
qed simp

lemma started_entry_fixed:
  assumes "ao_calls op' = ao_calls op" and "ao_flags op' = insert IOSQE_FIXED_FILE (ao_flags op)"
  shows "started_entry lib op' flags e0 =
    (started_entry lib op flags e0)\<lparr>en_flags := insert IOSQE_FIXED_FILE (en_flags (started_entry lib op flags e0))\<rparr>"
  using assms by (simp add: started_entry_def as_seen_def Let_def)

lemma on_fd_fixed:
  assumes "on_fd op"
  shows "op (Fixed_fd n) = (op (Fd n))\<lparr>ao_flags := insert IOSQE_FIXED_FILE (ao_flags (op (Fd n)))\<rparr>"
  using assms by cases (simp_all add: async_defs builder_defs)

lemmas entry_simps = started_entry_def as_seen_def prep_contract_def starts_afresh_def

lemma on_fd_plain:
  assumes "prep_contract lib" and "on_fd op"
  shows "IOSQE_FIXED_FILE \<in> en_flags (started_entry lib (op (Fd n)) flags e0) \<longleftrightarrow> IOSQE_FIXED_FILE \<in> flags"
  using assms(2) assms(1)
  by cases (simp_all add: async_defs builder_defs entry_simps plain_writes_flags Let_def)


text \<open>liburing as far as the contract goes, for an entry whose other fields are the calls made on it.\<close>

definition lib_calls :: "string \<Rightarrow> arg list \<Rightarrow> (string \<times> arg list) list entry \<Rightarrow> (string \<times> arg list) list entry" where
  "lib_calls f args e =
     (if starts_afresh f then \<lparr>en_flags = {}, en_buf = U 0, en_ioprio = {}, en_rest = [(f, args)]\<rparr>
      else e\<lparr>en_rest := en_rest e @ [(f, args)]\<rparr>)"

abbreviation left_over :: "(string \<times> arg list) list entry" where
  "left_over \<equiv> \<lparr>en_flags = {IOSQE_FIXED_FILE, IOSQE_IO_LINK}, en_buf = U 9, en_ioprio = {''IORING_RECV_MULTISHOT''}, en_rest = []\<rparr>"

lemma prep_contract_lib_calls: "prep_contract lib_calls"
  by (simp add: prep_contract_def lib_calls_def)


text \<open>
  C30. An operation on provided buffers gets its buffer from the ring that will interpret its completion.
  Whatever the functions of liburing write and whatever the slot holds, the entry that the kernel
  finds asks for a buffer, names the group of the ring, and asks for a bundle if the operation does;
  the handler of the completion is the one of that ring. So the selection is written after the
  functions of liburing, which would clear it, and nothing that follows overwrites the group.
\<close>

theorem select_ops_consistent:
  assumes "from_ring br bundle op"
  shows "IOSQE_BUFFER_SELECT \<in> en_flags (started_entry lib op flags e0) \<and>
    en_buf (started_entry lib op flags e0) = U (ucast (br_bgid br)) \<and>
    (bundle \<longrightarrow> ''IORING_RECVSEND_BUNDLE'' \<in> en_ioprio (started_entry lib op flags e0)) \<and>
    ao_handler op = Select_handler (br_ptr br)"
  using assms
  by cases (simp_all add: started_entry_def as_seen_def async_defs builder_defs Let_def split: fd.split)

theorem select_ops_consistent_witness:
  "IOSQE_BUFFER_SELECT \<in> en_flags (started_entry lib_calls (async_send_bundled (Fd 5) \<lparr>br_ptr = 0x40, br_bgid = 3\<rparr> 0) {} left_over) \<and>
   en_buf (started_entry lib_calls (async_send_bundled (Fd 5) \<lparr>br_ptr = 0x40, br_bgid = 3\<rparr> 0) {} left_over) = U 3 \<and>
   ''IORING_RECVSEND_BUNDLE'' \<in> en_ioprio (started_entry lib_calls (async_send_bundled (Fd 5) \<lparr>br_ptr = 0x40, br_bgid = 3\<rparr> 0) {} left_over) \<and>
   ao_handler (async_send_bundled (Fd 5) \<lparr>br_ptr = 0x40, br_bgid = 3\<rparr> 0) = Select_handler 0x40"
  using select_ops_consistent [OF from_ring.from_send_bundled [of "\<lparr>br_ptr = 0x40, br_bgid = 3\<rparr>" "Fd 5" 0], of lib_calls "{}" left_over]
  by simp

text \<open>
  The length of a read or write. What is submitted is the size of the buffer modulo $2^{32}$: the
  whole buffer below 4 GiB, and for a buffer of a multiple of 4 GiB a transfer of 0 bytes.
\<close>

theorem read_write_length:
  "\<exists>n. ao_calls (async_read fd b off fl) =
      [(''io_uring_prep_read'', [unwrap_fixed fd, P (bf_data b), U n, U off]), (''rw_flags ='', [I fl])] \<and>
    ao_calls (async_write fd b off fl) =
      [(''io_uring_prep_write'', [unwrap_fixed fd, P (bf_data b), U n, U off]), (''rw_flags ='', [I fl])] \<and>
    unat n = unat (bf_size b) mod 2 ^ 32"
proof -
  let ?n = "ucast (ucast (bf_size b) :: u32) :: u64"
  have "unat ?n = unat (bf_size b) mod 2 ^ 32"
    by (simp add: unsigned_ucast_eq take_bit_eq_mod unat_mod)
  then show ?thesis
    by (cases fd) (auto simp: async_defs builder_defs intro!: exI [of _ ?n])
qed

end
