(* ===== verification/Sender_Operations.thy ===== *)
theory Sender_Operations
  imports Async_Operations
begin

text \<open>
  \<open>include/condy/sender_operations.hpp\<close> and \<open>detail/senders.hpp\<close>: composing operations. A sender is a
  tree whose leaves are operations; a composition of a tuple of senders and one of a range of
  senders are kept apart, as the types of the code are. \<open>sender_starts\<close> gives the operations that
  starting a sender starts, in order, with the flags that reach each of them.
\<close>

section \<open>Senders\<close>

datatype composition = Parallel_all | Parallel_any | When_all_of | When_any_of | Link_of | Hard_link_of

datatype sender =
    Op_sender async_op
  | Flagged_sender "sqe_flag set" sender
  | Tuple_sender composition "sender list"
  | Ranged_sender composition "sender list"

definition flag_sender :: "sqe_flag \<Rightarrow> sender \<Rightarrow> sender" where
  "flag_sender F s = Flagged_sender {F} s"

definition drain :: "sender \<Rightarrow> sender" where
  "drain s = flag_sender IOSQE_IO_DRAIN s"

definition always_async :: "sender \<Rightarrow> sender" where
  "always_async s = flag_sender IOSQE_ASYNC s"

definition parallel :: "composition \<Rightarrow> sender list \<Rightarrow> sender" where
  "parallel c senders = Tuple_sender c senders"

definition parallel_range :: "composition \<Rightarrow> sender list \<Rightarrow> sender" where
  "parallel_range c senders = Ranged_sender c senders"

definition when_all :: "sender list \<Rightarrow> sender" where
  "when_all senders = parallel When_all_of senders"

definition when_all_range :: "sender list \<Rightarrow> sender" where
  "when_all_range senders = parallel_range When_all_of senders"

text \<open>The static assertion of the tuple variant is the precondition that the list is not empty.\<close>

definition when_any :: "sender list \<Rightarrow> sender option" where
  "when_any senders = do {
     massert (senders \<noteq> []);
     Some (parallel When_any_of senders)
   }"

definition when_any_range :: "sender list \<Rightarrow> sender result" where
  "when_any_range senders =
     (if senders = [] then Inl (Invalid_argument ''when_any requires at least one sender'')
      else Inr (parallel_range When_any_of senders))"

definition link :: "sender list \<Rightarrow> sender" where
  "link senders = parallel Link_of senders"

definition link_range :: "sender list \<Rightarrow> sender" where
  "link_range senders = parallel_range Link_of senders"

definition hard_link :: "sender list \<Rightarrow> sender" where
  "hard_link senders = parallel Hard_link_of senders"

definition hard_link_range :: "sender list \<Rightarrow> sender" where
  "hard_link_range senders = parallel_range Hard_link_of senders"

text \<open>
  The operators. Each has an overload for a left operand that is already a composition of its
  kind, which the overload resolution prefers: the right operand is added to the tuple.
\<close>

fun operator_with :: "composition \<Rightarrow> sender \<Rightarrow> sender \<Rightarrow> sender" where
  "operator_with c (Tuple_sender d ss) s = (if d = c then Tuple_sender c (ss @ [s]) else parallel c [Tuple_sender d ss, s])"
| "operator_with c r s = parallel c [r, s]"

definition operator_and :: "sender \<Rightarrow> sender \<Rightarrow> sender" where
  "operator_and s1 s2 = operator_with When_all_of s1 s2"

definition operator_or :: "sender \<Rightarrow> sender \<Rightarrow> sender" where
  "operator_or s1 s2 = operator_with When_any_of s1 s2"

definition operator_seq :: "sender \<Rightarrow> sender \<Rightarrow> sender" where
  "operator_seq s1 s2 = operator_with Link_of s1 s2"

section \<open>What is started\<close>

definition link_flags :: "composition \<Rightarrow> sqe_flag set" where
  "link_flags c = (case c of Link_of \<Rightarrow> {IOSQE_IO_LINK} | Hard_link_of \<Rightarrow> {IOSQE_IO_HARDLINK} | _ \<Rightarrow> {})"

fun sender_starts :: "sender \<Rightarrow> sqe_flag set \<Rightarrow> (async_op \<times> sqe_flag set) list"
  and linked_starts :: "sqe_flag set \<Rightarrow> sender list \<Rightarrow> sqe_flag set \<Rightarrow> (async_op \<times> sqe_flag set) list" where
  "sender_starts (Op_sender op) flags = [(op, ao_flags op \<union> flags)]"
| "sender_starts (Flagged_sender Flags s) flags = sender_starts s (flags \<union> Flags)"
| "sender_starts (Tuple_sender c ss) flags = linked_starts (link_flags c) ss flags"
| "sender_starts (Ranged_sender c ss) flags = linked_starts (link_flags c) ss flags"
| "linked_starts Flags [] flags = []"
| "linked_starts Flags [s] flags = sender_starts s flags"
| "linked_starts Flags (s # t # ss) flags = sender_starts s (flags \<union> Flags) @ linked_starts Flags (t # ss) flags"

text \<open>The number of entries that a link reserves before it starts its children.\<close>

fun reserved :: "sender \<Rightarrow> nat" where
  "reserved (Tuple_sender Link_of ss) = length ss"
| "reserved (Tuple_sender Hard_link_of ss) = length ss"
| "reserved (Ranged_sender Link_of ss) = length ss"
| "reserved (Ranged_sender Hard_link_of ss) = length ss"
| "reserved s = 0"

section \<open>Properties\<close>

lemma foldl_operator_with: "foldl (operator_with c) (Tuple_sender c ss) ts = Tuple_sender c (ss @ ts)"
  by (induction ts arbitrary: ss) auto

text \<open>
  The operators and the functions build the same compositions: chaining three or more senders
  with \<open>&&\<close>, \<open>||\<close> or \<open>>>\<close> gives exactly what \<open>when_all\<close>, \<open>when_any\<close> or \<open>link\<close> give for all of them
  at once, provided the first sender is not itself such a composition.
\<close>

theorem operators_flatten:
  assumes "\<forall>c ss. s1 \<noteq> Tuple_sender c ss"
  shows "foldl operator_and s1 (s2 # ss) = when_all (s1 # s2 # ss) \<and>
    when_any (s1 # s2 # ss) = Some (foldl operator_or s1 (s2 # ss)) \<and>
    foldl operator_seq s1 (s2 # ss) = link (s1 # s2 # ss)"
proof -
  have first: "operator_with c s1 s2 = Tuple_sender c [s1, s2]" for c
    using assms by (cases s1) (auto simp: parallel_def)
  have ops: "operator_and = operator_with When_all_of" "operator_or = operator_with When_any_of"
    "operator_seq = operator_with Link_of"
    by (auto simp: operator_and_def operator_or_def operator_seq_def intro!: ext)
  show ?thesis
    unfolding ops using foldl_operator_with [of _ "[s1, s2]" ss]
    by (simp add: first when_all_def when_any_def link_def parallel_def)
qed

theorem operators_flatten_witness:
  "foldl operator_and (Op_sender async_nop) [Op_sender (async_close 3), Op_sender (async_close 4)] =
     when_all [Op_sender async_nop, Op_sender (async_close 3), Op_sender (async_close 4)] \<and>
   when_any [Op_sender async_nop, Op_sender (async_close 3), Op_sender (async_close 4)] =
     Some (foldl operator_or (Op_sender async_nop) [Op_sender (async_close 3), Op_sender (async_close 4)]) \<and>
   foldl operator_seq (Op_sender async_nop) [Op_sender (async_close 3), Op_sender (async_close 4)] =
     link [Op_sender async_nop, Op_sender (async_close 3), Op_sender (async_close 4)]"
  by (rule operators_flatten) simp

lemma linked_starts_ops:
  "linked_starts Flags (map Op_sender ops @ [Op_sender op]) flags =
     map (\<lambda>a. (a, ao_flags a \<union> (flags \<union> Flags))) ops @ [(op, ao_flags op \<union> flags)]"
proof (induction ops)
  case (Cons a ops)
  then show ?case by (cases ops) simp_all
qed simp

text \<open>
  A link of operations starts them in order, with the link flag on all but the last, and reserves
  as many entries as it starts operations. A link that contains another composition starts more
  operations than it reserves entries for: \<open>a >> (b >> c)\<close> starts three and reserves two.
\<close>

theorem link_starts:
  "sender_starts (link (map Op_sender ops @ [Op_sender op])) flags =
     map (\<lambda>a. (a, ao_flags a \<union> (flags \<union> {IOSQE_IO_LINK}))) ops @
     [(op, ao_flags op \<union> flags)] \<and>
   reserved (link (map Op_sender ops @ [Op_sender op])) = length (sender_starts (link (map Op_sender ops @ [Op_sender op])) flags) \<and>
   sender_starts (operator_seq (Op_sender a) (operator_seq (Op_sender b) (Op_sender c))) {} =
     [(a, ao_flags a \<union> {IOSQE_IO_LINK}), (b, ao_flags b \<union> {IOSQE_IO_LINK}),
      (c, ao_flags c)] \<and>
   reserved (operator_seq (Op_sender a) (operator_seq (Op_sender b) (Op_sender c))) = 2"
  by (simp add: link_def parallel_def linked_starts_ops link_flags_def operator_seq_def)

end
