(* ===== verification/Provided_Buffers.thy ===== *)
theory Provided_Buffers
  imports Uring_Ring Utils "HOL-Library.Multiset"
begin

text \<open>
  \<open>include/condy/provided_buffers.hpp\<close> and \<open>detail/buffers.hpp\<close>: the queue and the pool of
  buffers that the kernel picks from, and the managed buffer that gives its memory back when it
  is dropped.

  The buffer ring is memory shared with the kernel and is reached through liburing, the memory of
  a pool comes from \<open>mmap\<close>; both are outside the library. Their functions are the fields of the
  record \<open>buf_ring_ops\<close>, and \<open>buf_ring_contract\<close> is what their documentation says: where an added
  entry is stored, what \<open>advance\<close> does to the tail, and the limit of 32768 entries. The code is
  modelled as it is compiled for liburing 2.8 or later, where rings may be consumed incrementally.
  \<open>None\<close> is a failed \<open>assert\<close>, an access outside a vector, a division by zero, or a loop that does
  not return.
\<close>

section \<open>Buffer rings of liburing\<close>

record io_uring_buf =
  buf_addr :: ptr
  buf_len :: u32
  buf_bid :: u16

record 'br buf_ring_ops =
  bo_setup :: "u32 \<Rightarrow> u16 \<Rightarrow> u32 \<Rightarrow> i32 + 'br"
  bo_free :: "'br \<Rightarrow> u32 \<Rightarrow> u16 \<Rightarrow> i32"
  bo_add :: "ptr \<Rightarrow> u32 \<Rightarrow> u16 \<Rightarrow> u32 \<Rightarrow> nat \<Rightarrow> 'br \<Rightarrow> 'br"
  bo_advance :: "nat \<Rightarrow> 'br \<Rightarrow> 'br"
  bo_tail :: "'br \<Rightarrow> u16"
  bo_bufs :: "'br \<Rightarrow> nat \<Rightarrow> io_uring_buf"
  bo_mmap :: "u64 \<Rightarrow> i32 + ptr"
  bo_munmap :: "ptr \<Rightarrow> u64 \<Rightarrow> i32"

definition buf_ring_contract :: "'br buf_ring_ops \<Rightarrow> bool" where
  "buf_ring_contract B \<longleftrightarrow>
     (\<forall>a l b m i r. bo_tail B (bo_add B a l b m i r) = bo_tail B r \<and>
        bo_bufs B (bo_add B a l b m i r) =
          (bo_bufs B r)(unat ((ucast (bo_tail B r) + of_nat i) AND m :: u32) :=
             \<lparr>buf_addr = a, buf_len = l, buf_bid = b\<rparr>)) \<and>
     (\<forall>n r. bo_tail B (bo_advance B n r) = bo_tail B r + of_nat n \<and>
        bo_bufs B (bo_advance B n r) = bo_bufs B r) \<and>
     (\<forall>c g f r. bo_setup B c g f = Inr r \<longrightarrow> bo_tail B r = 0 \<and> unat c \<le> 32768)"

abbreviation IOU_PBUF_RING_INC :: u32 where "IOU_PBUF_RING_INC \<equiv> 2"
abbreviation no_bgid :: u16 where "no_bgid \<equiv> - 1"

type_synonym bgid_pool = "u16 id_pool"

section \<open>ManagedBuffer\<close>

record mbuf =
  mb_data :: ptr
  mb_size :: u64
  mb_pool :: ptr

definition mb_empty :: mbuf where
  "mb_empty = \<lparr>mb_data = nullptr, mb_size = 0, mb_pool = nullptr\<rparr>"

definition mb_owns_buffer :: "mbuf \<Rightarrow> bool" where
  "mb_owns_buffer m \<longleftrightarrow> mb_pool m \<noteq> nullptr"

text \<open>
  \<open>reset\<close>, which is also the destructor. The argument is \<open>add_buffer_back\<close> of the pool, and
  \<open>p\<close> is the pool that the buffer points to.
\<close>

definition mb_reset :: "(ptr \<Rightarrow> u64 \<Rightarrow> 'p \<Rightarrow> 'p option) \<Rightarrow> mbuf \<Rightarrow> 'p \<Rightarrow> (mbuf \<times> 'p) option" where
  "mb_reset add_buffer_back m p = do {
     p1 \<leftarrow> (if mb_pool m \<noteq> nullptr then add_buffer_back (mb_data m) (mb_size m) p else Some p);
     Some (mb_empty, p1)
   }"

text \<open>The move constructor yields the new buffer and what is left of the other one.\<close>

definition mb_move :: "mbuf \<Rightarrow> mbuf \<times> mbuf" where
  "mb_move other = (other, mb_empty)"

definition mb_move_assign :: "(ptr \<Rightarrow> u64 \<Rightarrow> 'p \<Rightarrow> 'p option) \<Rightarrow> bool \<Rightarrow> mbuf \<Rightarrow> mbuf \<Rightarrow> 'p \<Rightarrow>
    (mbuf \<times> mbuf \<times> 'p) option" where
  "mb_move_assign add_buffer_back same m other p =
     (if \<not> same then do {
        (m1, p1) \<leftarrow> mb_reset add_buffer_back m p;
        let (m2, other1) = mb_move other;
        Some (m2, other1, p1)
      } else Some (m, other, p))"

section \<open>BundledProvidedBufferQueue\<close>

record buffer_info =
  bi_bid :: u16
  bi_num_buffers :: u16

record 'br bpq =
  q_br :: "'br option"
  q_size :: u32
  q_capacity :: u32
  q_mask :: u32
  q_bgid :: u16
  q_buf_lens :: "u32 list"
  q_br_flags :: u32

definition bpq_cleanup :: "'br buf_ring_ops \<Rightarrow> 'br bpq \<Rightarrow> bgid_pool \<Rightarrow> ('br bpq \<times> bgid_pool) option" where
  "bpq_cleanup B q g = do {
     q1 \<leftarrow> (case q_br q of
        Some r \<Rightarrow> do {
          massert (bo_free B r (q_capacity q) (q_bgid q) = 0);
          Some (q\<lparr>q_br := None\<rparr>)
        }
      | None \<Rightarrow> Some q);
     if q_bgid q1 \<noteq> no_bgid then do {
       massert (idp_recycle_asserts 0 no_bgid g (q_bgid q1));
       Some (q1, idp_recycle g (q_bgid q1))
     } else Some (q1, g)
   }"

text \<open>
  The constructor. The exception of the identifier pool and of a failed registration leave
  through \<open>cleanup_\<close>. \<open>std::bit_ceil\<close> is undefined where the result does not fit.
\<close>

definition bpq_new :: "'br buf_ring_ops \<Rightarrow> u32 \<Rightarrow> u32 \<Rightarrow> bgid_pool \<Rightarrow> ('br bpq result \<times> bgid_pool) option" where
  "bpq_new B capacity flags g = do {
     massert (unat capacity \<le> 2 ^ 31);
     let cap = of_nat (bit_ceil (unat capacity));
     let q = \<lparr>q_br = None, q_size = 0, q_capacity = cap, q_mask = cap - 1, q_bgid = no_bgid,
              q_buf_lens = replicate (unat cap) 0, q_br_flags = flags\<rparr>;
     case idp_allocate no_bgid g of
       Inl e \<Rightarrow> do {
         (q1, g1) \<leftarrow> bpq_cleanup B q g;
         Some (Inl e, g1)
       }
     | Inr (i, g1) \<Rightarrow> do {
         let q1 = q\<lparr>q_bgid := i\<rparr>;
         case bo_setup B cap i flags of
           Inl err \<Rightarrow> do {
             (q2, g2) \<leftarrow> bpq_cleanup B q1 g1;
             Some (Inl (System_error ''io_uring_setup_buf_ring'' (- err)), g2)
           }
         | Inr r \<Rightarrow> Some (Inr (q1\<lparr>q_br := Some r\<rparr>), g1)
       }
   }"

definition bpq_push :: "'br buf_ring_ops \<Rightarrow> ptr \<Rightarrow> u64 \<Rightarrow> 'br bpq \<Rightarrow> (u16 result \<times> 'br bpq) option" where
  "bpq_push B data sz q =
     (if q_capacity q \<le> q_size q then Some (Inl (Logic_error ''Capacity exceeded''), q)
      else do {
        r \<leftarrow> q_br q;
        let bid = ucast (ucast (bo_tail B r) AND q_mask q);
        let r1 = bo_add B data (ucast sz) bid (q_mask q) 0 r;
        massert (unat bid < length (q_buf_lens q));
        Some (Inr bid, q\<lparr>q_buf_lens := (q_buf_lens q)[unat bid := ucast sz],
                         q_br := Some (bo_advance B 1 r1), q_size := q_size q + 1\<rparr>)
      })"

text \<open>The loop of \<open>handle_finish\<close>: \<open>std::min<uint32_t>\<close> converts the count of bytes.\<close>

partial_function (option) bpq_loop ::
    "bool \<Rightarrow> u32 \<Rightarrow> int \<Rightarrow> u16 \<Rightarrow> u32 list \<Rightarrow> u16 \<Rightarrow> (u32 list \<times> u16) option" where
  "bpq_loop is_incr msk bytes idx lens n =
     (if 0 < bytes then
        let b = unat (ucast (ucast idx AND msk) :: u16) in
        if b < length lens then
          let len = (if is_incr then min (word_of_int bytes) (lens ! b) else lens ! b);
              lens1 = lens[b := (if is_incr then lens ! b - len else 0)]
          in bpq_loop is_incr msk (bytes - uint len) (idx + 1) lens1
               (if lens1 ! b = 0 then n + 1 else n)
        else None
      else Some (lens, n))"

definition bpq_handle_finish :: "cqe \<Rightarrow> 'br bpq \<Rightarrow> (buffer_info \<times> 'br bpq) option" where
  "bpq_handle_finish c q =
     (if cq_flags c AND IORING_CQE_F_BUFFER = 0 then Some (\<lparr>bi_bid = 0, bi_num_buffers = 0\<rparr>, q)
      else do {
        massert (0 < cq_res c);
        let bid = ucast (drop_bit 16 (cq_flags c));
        (lens, n) \<leftarrow> bpq_loop (q_br_flags q AND IOU_PBUF_RING_INC \<noteq> 0) (q_mask q) (cq_res c) bid
                      (q_buf_lens q) 0;
        massert (ucast n \<le> q_size q);
        Some (\<lparr>bi_bid = bid, bi_num_buffers = n\<rparr>,
              q\<lparr>q_buf_lens := lens, q_size := q_size q - ucast n\<rparr>)
      })"

text \<open>\<open>ProvidedBufferQueue::handle_finish\<close>\<close>

definition pbq_handle_finish :: "cqe \<Rightarrow> 'br bpq \<Rightarrow> (buffer_info \<times> 'br bpq) option" where
  "pbq_handle_finish c q = do {
     (i, q1) \<leftarrow> bpq_handle_finish c q;
     massert (bi_num_buffers i \<le> 1);
     Some (i, q1)
   }"

section \<open>BundledProvidedBufferPool\<close>

record 'br bpp =
  p_br :: "'br option"
  p_base :: ptr
  p_num_buffers :: u32
  p_mask :: u32
  p_buffer_size :: u32
  p_curr_buf_len :: u32
  p_bgid :: u16
  p_br_head :: u16
  p_br_flags :: u32
  p_owns_buffers :: bool

definition bpp_cleanup :: "'br buf_ring_ops \<Rightarrow> 'br bpp \<Rightarrow> bgid_pool \<Rightarrow> ('br bpp \<times> bgid_pool) option" where
  "bpp_cleanup B p g = do {
     p1 \<leftarrow> (case p_br p of
        Some r \<Rightarrow> do {
          massert (bo_free B r (p_num_buffers p) (p_bgid p) = 0);
          Some (p\<lparr>p_br := None\<rparr>)
        }
      | None \<Rightarrow> Some p);
     g1 \<leftarrow> (if p_bgid p1 \<noteq> no_bgid then do {
        massert (idp_recycle_asserts 0 no_bgid g (p_bgid p1));
        Some (idp_recycle g (p_bgid p1))
      } else Some g);
     if p_owns_buffers p1 then do {
       massert (bo_munmap B (p_base p1) (ucast (p_num_buffers p1) * ucast (p_buffer_size p1)) = 0);
       Some (p1\<lparr>p_owns_buffers := False, p_base := nullptr\<rparr>, g1)
     } else Some (p1, g1)
   }"

definition bpp_get_buffer :: "'br bpp \<Rightarrow> u16 \<Rightarrow> ptr" where
  "bpp_get_buffer p bid = p_base p + ucast bid * ucast (p_buffer_size p)"

text \<open>The loop of the constructor that fills the ring.\<close>

fun bpp_fill :: "'br buf_ring_ops \<Rightarrow> 'br bpp \<Rightarrow> nat \<Rightarrow> 'br \<Rightarrow> 'br" where
  "bpp_fill B p 0 r = r"
| "bpp_fill B p (Suc bid) r =
     bo_add B (p_base p + of_nat bid * ucast (p_buffer_size p)) (p_buffer_size p) (of_nat bid)
       (p_mask p) bid (bpp_fill B p bid r)"

definition bpp_new :: "'br buf_ring_ops \<Rightarrow> ptr \<Rightarrow> u32 \<Rightarrow> u64 \<Rightarrow> u32 \<Rightarrow> bool \<Rightarrow> bgid_pool \<Rightarrow>
    ('br bpp result \<times> bgid_pool) option" where
  "bpp_new B buffer_data num_buffers buffer_size flags owns g = do {
     massert (unat num_buffers \<le> 2 ^ 31);
     let num = of_nat (bit_ceil (unat num_buffers));
     let p = \<lparr>p_br = None, p_base = buffer_data, p_num_buffers = num, p_mask = num - 1,
              p_buffer_size = ucast buffer_size, p_curr_buf_len = ucast buffer_size,
              p_bgid = no_bgid, p_br_head = 0, p_br_flags = flags, p_owns_buffers = owns\<rparr>;
     case idp_allocate no_bgid g of
       Inl e \<Rightarrow> do {
         (p1, g1) \<leftarrow> bpp_cleanup B p g;
         Some (Inl e, g1)
       }
     | Inr (i, g1) \<Rightarrow> do {
         let p1 = p\<lparr>p_bgid := i\<rparr>;
         case bo_setup B num i flags of
           Inl err \<Rightarrow> do {
             (p2, g2) \<leftarrow> bpp_cleanup B p1 g1;
             Some (Inl (System_error ''io_uring_setup_buf_ring'' (- err)), g2)
           }
         | Inr r \<Rightarrow> Some (Inr (p1\<lparr>p_br := Some (bo_advance B (unat num) (bpp_fill B p1 (unat num) r))\<rparr>), g1)
       }
   }"

text \<open>
  One round of the loop of \<open>handle_finish\<close>: the buffer it appends, the bytes it accounts for, and
  the pool. \<open>me\<close> is the address of the pool.
\<close>

definition bpp_chunk :: "'br buf_ring_ops \<Rightarrow> ptr \<Rightarrow> bool \<Rightarrow> int \<Rightarrow> 'br bpp \<Rightarrow> (mbuf \<times> u32 \<times> 'br bpp) option" where
  "bpp_chunk B me is_incr bytes p = do {
     r \<leftarrow> p_br p;
     let bid = buf_bid (bo_bufs B r (unat (ucast (p_br_head p) AND p_mask p)));
     let data = bpp_get_buffer p bid + ucast (p_buffer_size p - p_curr_buf_len p);
     let len = (if is_incr then min (word_of_int bytes) (p_curr_buf_len p) else p_curr_buf_len p);
     let p1 = p\<lparr>p_curr_buf_len := (if is_incr then p_curr_buf_len p - len else 0)\<rparr>;
     if p_curr_buf_len p1 = 0 then
       Some (\<lparr>mb_data = data, mb_size = ucast len, mb_pool = me\<rparr>, len,
             p1\<lparr>p_br_head := p_br_head p1 + 1, p_curr_buf_len := p_buffer_size p1\<rparr>)
     else Some (\<lparr>mb_data = data, mb_size = ucast len, mb_pool = nullptr\<rparr>, len, p1)
   }"

partial_function (option) bpp_loop ::
    "'br buf_ring_ops \<Rightarrow> ptr \<Rightarrow> bool \<Rightarrow> int \<Rightarrow> 'br bpp \<Rightarrow> mbuf list \<Rightarrow> (mbuf list \<times> 'br bpp) option" where
  "bpp_loop B me is_incr bytes p bufs =
     (if 0 < bytes then
        bpp_chunk B me is_incr bytes p \<bind>
          (\<lambda>(m, len, p1). bpp_loop B me is_incr (bytes - uint len) p1 (bufs @ [m]))
      else Some (bufs, p))"

definition bpp_handle_finish :: "'br buf_ring_ops \<Rightarrow> ptr \<Rightarrow> cqe \<Rightarrow> 'br bpp \<Rightarrow> (mbuf list \<times> 'br bpp) option" where
  "bpp_handle_finish B me c p =
     (if cq_flags c AND IORING_CQE_F_BUFFER = 0 then Some ([], p)
      else do {
        massert (0 < cq_res c);
        bpp_loop B me (p_br_flags p AND IOU_PBUF_RING_INC \<noteq> 0) (cq_res c) p []
      })"

definition bpp_add_buffer_back :: "'br buf_ring_ops \<Rightarrow> ptr \<Rightarrow> u64 \<Rightarrow> 'br bpp \<Rightarrow> 'br bpp option" where
  "bpp_add_buffer_back B ptr sz p = do {
     massert (sz \<le> ucast (p_buffer_size p));
     massert (p_base p \<le> ptr);
     let offset = ptr - p_base p;
     massert (p_buffer_size p \<noteq> 0);
     let bid = offset div ucast (p_buffer_size p);
     massert (bid < ucast (p_num_buffers p));
     let buffer_ptr = p_base p + bid * ucast (p_buffer_size p);
     r \<leftarrow> p_br p;
     let r1 = bo_add B buffer_ptr (p_buffer_size p) (ucast bid) (p_mask p) 0 r;
     Some (p\<lparr>p_br := Some (bo_advance B 1 r1)\<rparr>)
   }"

text \<open>
  \<open>ProvidedBufferPool\<close>: the constructor that allocates the memory, and \<open>handle_finish\<close> for
  operations that use one buffer.
\<close>

definition pbp_alloc :: "'br buf_ring_ops \<Rightarrow> u64 \<Rightarrow> ptr result" where
  "pbp_alloc B buf_size =
     (case bo_mmap B buf_size of Inl e \<Rightarrow> Inl (System_error ''mmap'' e) | Inr buf_data \<Rightarrow> Inr buf_data)"

definition pbp_new :: "'br buf_ring_ops \<Rightarrow> u32 \<Rightarrow> u64 \<Rightarrow> u32 \<Rightarrow> bgid_pool \<Rightarrow>
    ('br bpp result \<times> bgid_pool) option" where
  "pbp_new B num_buffers buffer_size flags g = do {
     massert (unat num_buffers \<le> 2 ^ 31);
     case pbp_alloc B (of_nat (bit_ceil (unat num_buffers)) * buffer_size) of
       Inl e \<Rightarrow> Some (Inl e, g)
     | Inr buffer_data \<Rightarrow> bpp_new B buffer_data num_buffers buffer_size flags True g
   }"

definition pbp_handle_finish :: "'br buf_ring_ops \<Rightarrow> ptr \<Rightarrow> cqe \<Rightarrow> 'br bpp \<Rightarrow> (mbuf \<times> 'br bpp) option" where
  "pbp_handle_finish B me c p = do {
     (bufs, p1) \<leftarrow> bpp_handle_finish B me c p;
     if bufs = [] then Some (mb_empty, p1)
     else do {
       massert (length bufs = 1);
       Some (hd bufs, p1)
     }
   }"

section \<open>The queue as a first-in first-out list\<close>

text \<open>
  The abstract queue: the number of buffers pushed so far, and the pending buffers with their
  identifiers and the bytes left in each. \<open>pb_take\<close> says which buffers \<open>n\<close> bytes use up, and what
  is left.
\<close>

fun pb_take :: "bool \<Rightarrow> nat \<Rightarrow> nat list \<Rightarrow> nat \<times> nat list" where
  "pb_take incr n [] = (0, [])"
| "pb_take incr n (l # ls) =
     (if n = 0 then (0, l # ls)
      else if incr \<and> n < l then (0, (l - n) # ls)
      else let (j, rest) = pb_take incr (n - l) ls in (Suc j, rest))"

lemma pb_take_length: "pb_take incr n ls = (j, rest) \<Longrightarrow> j + length rest = length ls"
  by (induction incr n ls arbitrary: j rest rule: pb_take.induct)
     (auto split: if_splits prod.splits)

text \<open>Slots of the ring.\<close>

lemma unat_ucast_widen:
  "LENGTH('a) \<le> LENGTH('b) \<Longrightarrow> unat (ucast x :: 'b::len word) = unat x" for x :: "'a::len word"
  by (simp add: unsigned_ucast_eq take_bit_nat_eq_self unsigned_less
      less_le_trans [OF unsigned_less] power_increasing)

lemma slot16:
  fixes x :: u16
  assumes "k \<le> 15"
  shows "unat (ucast (ucast x AND mask k :: u32) :: u16) = unat x mod 2 ^ k"
proof -
  have "(ucast (ucast x AND mask k :: u32) :: u16) = x AND mask k"
    using assms by (auto simp: bit_eq_iff bit_simps)
  then show ?thesis by (simp add: unat_and_mask)
qed

lemma slot32: "unat ((ucast x + of_nat i) AND mask k :: u32) = (unat x + i) mod 2 ^ k"
  if "k \<le> 15" for x :: u16
proof -
  have "unat (ucast x :: u32) = unat x"
    by (rule unat_ucast_widen) simp
  with that show ?thesis by (simp add: word_idx)
qed

lemma slot_succ: "unat (x + 1) mod 2 ^ k = (unat x + 1) mod 2 ^ k" if "k \<le> 15" for x :: u16
  using unat_plus_mod [of k x 1] that by simp

definition bpq_wf :: "'br buf_ring_ops \<Rightarrow> nat \<Rightarrow> 'br bpq \<Rightarrow> bool" where
  "bpq_wf B k q \<longleftrightarrow> k \<le> 15 \<and> q_capacity q = 2 ^ k \<and> q_mask q = mask k \<and>
     length (q_buf_lens q) = 2 ^ k \<and> unat (q_size q) \<le> 2 ^ k \<and> q_br q \<noteq> None"

definition bpq_head :: "'br buf_ring_ops \<Rightarrow> 'br bpq \<Rightarrow> nat" where
  "bpq_head B q = unat (bo_tail B (the (q_br q)) - ucast (q_size q))"

definition bpq_lens :: "nat \<Rightarrow> nat \<Rightarrow> u32 list \<Rightarrow> nat \<Rightarrow> nat list" where
  "bpq_lens k a lens n = map (\<lambda>i. unat (lens ! ((a + i) mod 2 ^ k))) [0..<n]"

lemma bpq_lens_length [simp]: "length (bpq_lens k a lens n) = n"
  by (simp add: bpq_lens_def)

lemma bpq_lens_Suc:
  "bpq_lens k a lens (Suc n) = unat (lens ! (a mod 2 ^ k)) # bpq_lens k (a + 1) lens n"
  by (simp add: bpq_lens_def upt_conv_Cons map_Suc_upt [symmetric] comp_def del: upt_Suc)

lemma bpq_lens_upd:
  assumes "length lens = 2 ^ k" and "n < 2 ^ k"
  shows "bpq_lens k (a + 1) (lens[a mod 2 ^ k := v]) n = bpq_lens k (a + 1) lens n"
  unfolding bpq_lens_def
proof (rule map_cong [OF refl])
  fix i assume "i \<in> set [0..<n]"
  then have i: "i + 1 < 2 ^ k" using assms by simp
  have "(a + 0) mod 2 ^ k \<noteq> (a + (i + 1)) mod 2 ^ k"
    by (subst mod_offset_eq_iff) (use i in simp_all)
  then show "unat (lens[a mod 2 ^ k := v] ! ((a + 1 + i) mod 2 ^ k)) = unat (lens ! ((a + 1 + i) mod 2 ^ k))"
    by (simp add: ac_simps)
qed

lemma bpq_lens_cong_mod: "a mod 2 ^ k = b mod 2 ^ k \<Longrightarrow> bpq_lens k a lens n = bpq_lens k b lens n"
  unfolding bpq_lens_def by (metis mod_add_left_eq)

lemma min_word_of_int:
  assumes "0 < n" and "n < 2 ^ 32"
  shows "unat (min (word_of_int n) l :: u32) = min (nat n) (unat l)"
proof -
  have "unat (word_of_int n :: u32) = nat n"
    using assms by (simp add: unsigned_of_int take_bit_eq_mod nat_mod_distrib)
  then show ?thesis by (simp add: min_def word_le_nat_alt)
qed

text \<open>The loop of \<open>handle_finish\<close> ends, and takes from the ring what \<open>pb_take\<close> says.\<close>

lemma bpq_loop_take:
  assumes "k \<le> 15" and "length lens = 2 ^ k" and "m \<le> 2 ^ k" and "unat idx mod 2 ^ k = a mod 2 ^ k"
    and "bytes \<le> int (sum_list (bpq_lens k a lens m))" and "bytes < 2 ^ 32"
    and "pb_take incr (nat bytes) (bpq_lens k a lens m) = (j, rest)"
  shows "\<exists>lens'. bpq_loop incr (mask k) bytes idx lens n = Some (lens', n + of_nat j) \<and>
     length lens' = 2 ^ k \<and> bpq_lens k (a + j) lens' (m - j) = rest \<and> j \<le> m"
  using assms
proof (induction m arbitrary: a idx bytes lens n j)
  case 0
  then have "bytes \<le> 0" by (simp add: bpq_lens_def)
  with 0 show ?case by (subst bpq_loop.simps) (auto simp: bpq_lens_def)
next
  case (Suc m)
  let ?l = "lens ! (a mod 2 ^ k)"
  show ?case
  proof (cases "0 < bytes")
    case False
    with Suc.prems have "j = 0" "rest = bpq_lens k a lens (Suc m)"
      by (auto simp: bpq_lens_Suc)
    with False Suc.prems show ?thesis by (subst bpq_loop.simps) simp
  next
    case pos: True
    define len where "len = (if incr then min (word_of_int bytes) ?l else ?l)"
    define lens1 where "lens1 = lens[a mod 2 ^ k := (if incr then ?l - len else 0)]"
    let ?n = "if lens1 ! (a mod 2 ^ k) = 0 then n + 1 else n"
    have unfold: "bpq_loop incr (mask k) bytes idx lens n =
        bpq_loop incr (mask k) (bytes - uint len) (idx + 1) lens1 ?n"
      using pos Suc.prems(1,2,4)
      by (subst bpq_loop.simps) (simp add: Let_def slot16 len_def lens1_def)
    have len1: "length lens1 = 2 ^ k" using Suc.prems(2) by (simp add: lens1_def)
    have at: "lens1 ! (a mod 2 ^ k) = (if incr then ?l - len else 0)"
      using Suc.prems(2) by (simp add: lens1_def)
    have ulen: "unat len = (if incr then min (nat bytes) (unat ?l) else unat ?l)"
      using pos Suc.prems(6) by (simp add: len_def min_word_of_int)
    have keep: "bpq_lens k (a + 1) lens1 m = bpq_lens k (a + 1) lens m"
      unfolding lens1_def using Suc.prems(2,3) by (intro bpq_lens_upd) simp_all
    show ?thesis
    proof (cases "incr \<and> nat bytes < unat ?l")
      case True
      then have ul: "unat len = nat bytes" using ulen by simp
      then have stop: "bytes - uint len = 0" using pos arg_cong [OF ul, of int] by simp
      have left: "unat (?l - len) = unat ?l - nat bytes"
        using True ul by (simp add: unat_sub word_le_nat_alt)
      then have "lens1 ! (a mod 2 ^ k) \<noteq> 0" using True at
        by (metis unat_0 zero_less_diff less_numeral_extra(3))
      moreover have "j = 0" "rest = (unat ?l - nat bytes) # bpq_lens k (a + 1) lens m"
        using Suc.prems(7) True pos by (auto simp: bpq_lens_Suc)
      ultimately show ?thesis unfolding unfold stop
        using True by (subst bpq_loop.simps) (simp add: len1 bpq_lens_Suc keep [simplified] at left)
    next
      case False
      then have ul: "unat len = unat ?l" using ulen by auto
      then have len: "len = ?l" by (simp add: word_unat_eq_iff)
      obtain j1 where j: "j = Suc j1"
        and take: "pb_take incr (nat bytes - unat ?l) (bpq_lens k (a + 1) lens m) = (j1, rest)"
        using Suc.prems(7) False pos by (auto simp: bpq_lens_Suc split: prod.splits if_splits)
      have nb: "nat (bytes - uint len) = nat bytes - unat ?l"
      proof -
        have "uint len = int (unat ?l)" unfolding len by simp
        then show ?thesis by linarith
      qed
      have z: "lens1 ! (a mod 2 ^ k) = 0" using at len by simp
      have "\<exists>lens'. bpq_loop incr (mask k) (bytes - uint len) (idx + 1) lens1 (n + 1) =
          Some (lens', n + 1 + of_nat j1) \<and> length lens' = 2 ^ k \<and>
          bpq_lens k (a + 1 + j1) lens' (m - j1) = rest \<and> j1 \<le> m"
      proof (rule Suc.IH [OF Suc.prems(1) len1])
        show "m \<le> 2 ^ k" using Suc.prems(3) by simp
        show "unat (idx + 1) mod 2 ^ k = (a + 1) mod 2 ^ k"
          using Suc.prems(1,4) by (metis slot_succ mod_add_left_eq)
        show "bytes - uint len \<le> int (sum_list (bpq_lens k (a + 1) lens1 m))"
          unfolding keep using Suc.prems(5) by (simp add: bpq_lens_Suc len)
        show "bytes - uint len < 2 ^ 32" using Suc.prems(6) by (smt (verit) uint_ge_0)
        show "pb_take incr (nat (bytes - uint len)) (bpq_lens k (a + 1) lens1 m) = (j1, rest)"
          unfolding nb keep by (rule take)
      qed
      then show ?thesis unfolding unfold using z j by (simp add: ac_simps)
    qed
  qed
qed

text \<open>
  The abstraction: the pending buffers, from the head of the ring to its tail. An operation of the
  queue is a push of the program or a completion of the kernel.
\<close>

datatype bq_op = Bq_push ptr u64 | Bq_finish cqe

datatype bq_out = Bq_bid "u16 result" | Bq_info buffer_info

definition bpq_step :: "'br buf_ring_ops \<Rightarrow> bq_op \<Rightarrow> 'br bpq \<Rightarrow> (bq_out \<times> 'br bpq) option" where
  "bpq_step B x q = (case x of
       Bq_push data sz \<Rightarrow> map_option (map_prod Bq_bid id) (bpq_push B data sz q)
     | Bq_finish c \<Rightarrow> map_option (map_prod Bq_info id) (bpq_handle_finish c q))"

fun bpq_run :: "'br buf_ring_ops \<Rightarrow> bq_op list \<Rightarrow> 'br bpq \<Rightarrow> (bq_out list \<times> 'br bpq) option" where
  "bpq_run B [] q = Some ([], q)"
| "bpq_run B (x # xs) q = do {
     (y, q1) \<leftarrow> bpq_step B x q;
     (ys, q2) \<leftarrow> bpq_run B xs q1;
     Some (y # ys, q2)
   }"

text \<open>The abstract queue counts the pushes and holds the bytes left in each pending buffer.\<close>

type_synonym abq = "nat \<times> nat list"

definition abq_bid :: "nat \<Rightarrow> abq \<Rightarrow> u16" where
  "abq_bid cap s = of_nat ((fst s - length (snd s)) mod cap)"

fun abq_step :: "nat \<Rightarrow> bool \<Rightarrow> bq_op \<Rightarrow> abq \<Rightarrow> bq_out \<times> abq" where
  "abq_step cap incr (Bq_push data sz) (t, ls) =
     (if length ls < cap
      then (Bq_bid (Inr (of_nat (t mod cap))), (Suc t, ls @ [unat (ucast sz :: u32)]))
      else (Bq_bid (Inl (Logic_error ''Capacity exceeded'')), (t, ls)))"
| "abq_step cap incr (Bq_finish c) (t, ls) =
     (if cq_flags c AND IORING_CQE_F_BUFFER = 0
      then (Bq_info \<lparr>bi_bid = 0, bi_num_buffers = 0\<rparr>, (t, ls))
      else let (j, rest) = pb_take incr (nat (cq_res c)) ls in
        (Bq_info \<lparr>bi_bid = abq_bid cap (t, ls), bi_num_buffers = of_nat j\<rparr>, (t, rest)))"

text \<open>
  What the kernel promises: a completion that used buffers names the first pending one, and its
  bytes are in the pending buffers.
\<close>

fun abq_ok :: "nat \<Rightarrow> bq_op \<Rightarrow> abq \<Rightarrow> bool" where
  "abq_ok cap (Bq_push data sz) s \<longleftrightarrow> True"
| "abq_ok cap (Bq_finish c) s \<longleftrightarrow> cq_flags c AND IORING_CQE_F_BUFFER = 0 \<or>
     0 < cq_res c \<and> cq_res c < 2 ^ 31 \<and> cq_res c \<le> int (sum_list (snd s)) \<and>
     ucast (drop_bit 16 (cq_flags c)) = abq_bid cap s"

fun abq_run :: "nat \<Rightarrow> bool \<Rightarrow> bq_op list \<Rightarrow> abq \<Rightarrow> bq_out list \<times> abq" where
  "abq_run cap incr [] s = ([], s)"
| "abq_run cap incr (x # xs) s =
     (let (y, s1) = abq_step cap incr x s; (ys, s2) = abq_run cap incr xs s1 in (y # ys, s2))"

fun abq_run_ok :: "nat \<Rightarrow> bool \<Rightarrow> bq_op list \<Rightarrow> abq \<Rightarrow> bool" where
  "abq_run_ok cap incr [] s \<longleftrightarrow> True"
| "abq_run_ok cap incr (x # xs) s \<longleftrightarrow> abq_ok cap x s \<and> abq_run_ok cap incr xs (snd (abq_step cap incr x s))"

definition bpq_rel :: "'br buf_ring_ops \<Rightarrow> nat \<Rightarrow> bool \<Rightarrow> 'br bpq \<Rightarrow> abq \<Rightarrow> bool" where
  "bpq_rel B k incr q s \<longleftrightarrow> bpq_wf B k q \<and> incr = (q_br_flags q AND IOU_PBUF_RING_INC \<noteq> 0) \<and>
     length (snd s) = unat (q_size q) \<and> length (snd s) \<le> fst s \<and>
     unat (bo_tail B (the (q_br q))) mod 2 ^ k = fst s mod 2 ^ k \<and>
     snd s = bpq_lens k (fst s - length (snd s)) (q_buf_lens q) (length (snd s))"

lemma contract_add:
  assumes "buf_ring_contract B" and "k \<le> 15"
  shows "bo_tail B (bo_add B a l b (mask k) i r) = bo_tail B r"
    and "bo_bufs B (bo_add B a l b (mask k) i r) =
      (bo_bufs B r)((unat (bo_tail B r) + i) mod 2 ^ k := \<lparr>buf_addr = a, buf_len = l, buf_bid = b\<rparr>)"
  using assms by (auto simp: buf_ring_contract_def slot32)

lemma contract_advance:
  assumes "buf_ring_contract B"
  shows "bo_tail B (bo_advance B n r) = bo_tail B r + of_nat n"
    and "bo_bufs B (bo_advance B n r) = bo_bufs B r"
  using assms by (auto simp: buf_ring_contract_def)

lemma bpq_lens_snoc:
  assumes "length lens = 2 ^ k" and "n < 2 ^ k"
  shows "bpq_lens k a (lens[(a + n) mod 2 ^ k := v]) (Suc n) = bpq_lens k a lens n @ [unat v]"
proof -
  have "(a + n) mod 2 ^ k \<noteq> (a + i) mod 2 ^ k" if "i < n" for i
    using mod_offset_eq_iff [of n "2 ^ k" i a] that assms by simp
  then show ?thesis using assms by (simp add: bpq_lens_def)
qed

lemma bpq_push_sim:
  assumes B: "buf_ring_contract B" and rel: "bpq_rel B k incr q s"
    and step: "abq_step (2 ^ k) incr (Bq_push data sz) s = (y, s')"
  shows "\<exists>q'. bpq_step B (Bq_push data sz) q = Some (y, q') \<and> bpq_rel B k incr q' s'"
proof -
  obtain t ls where s: "s = (t, ls)" by (cases s)
  from rel obtain r where r: "q_br q = Some r" and k: "k \<le> 15" by (auto simp: bpq_rel_def bpq_wf_def)
  have len: "length ls = unat (q_size q)" "length ls \<le> t" using rel by (auto simp: bpq_rel_def s)
  have cap: "unat (q_capacity q) = 2 ^ k"
    using rel k by (simp add: bpq_rel_def bpq_wf_def unat_pow2)
  show ?thesis
  proof (cases "length ls < 2 ^ k")
    case False
    then have "q_capacity q \<le> q_size q" using cap len by (simp add: word_le_nat_alt)
    with False step rel show ?thesis by (auto simp: s bpq_step_def bpq_push_def)
  next
    case True
    let ?bid = "ucast (ucast (bo_tail B r) AND q_mask q) :: u16"
    define q' where "q' = q\<lparr>q_buf_lens := (q_buf_lens q)[unat ?bid := ucast sz],
        q_br := Some (bo_advance B 1 (bo_add B data (ucast sz) ?bid (q_mask q) 0 r)),
        q_size := q_size q + 1\<rparr>"
    have msk: "q_mask q = mask k" and blen: "length (q_buf_lens q) = 2 ^ k"
      and tail: "unat (bo_tail B r) mod 2 ^ k = t mod 2 ^ k"
      using rel r by (auto simp: bpq_rel_def bpq_wf_def s)
    have bid: "unat ?bid = t mod 2 ^ k" using k msk tail by (simp add: slot16)
    have room: "\<not> q_capacity q \<le> q_size q" using True cap len by (simp add: word_le_nat_alt)
    have push: "bpq_step B (Bq_push data sz) q = Some (Bq_bid (Inr ?bid), q')"
      using room r bid blen by (simp add: bpq_step_def bpq_push_def q'_def Let_def)
    have bideq: "?bid = of_nat (t mod 2 ^ k)" unfolding bid [symmetric] by simp
    have "(2::nat) ^ k \<le> 2 ^ 15" using k by (rule power_increasing) simp
    then have "unat (q_size q) + 1 < 2 ^ 32" using True len by simp
    then have sz': "unat (q_size q + 1) = unat (q_size q) + 1"
      by (simp add: unat_word_ariths)
    have tail': "unat (bo_tail B r + 1) mod 2 ^ k = Suc t mod 2 ^ k"
      using slot_succ [OF k, of "bo_tail B r"] tail by (metis Suc_eq_plus1 mod_add_left_eq)
    have wf: "bpq_wf B k q'" using rel True len sz' by (auto simp: bpq_rel_def bpq_wf_def q'_def)
    have "bpq_rel B k incr q' (Suc t, ls @ [unat (ucast sz :: u32)])"
      using rel r wf True len blen bid tail' sz'
        bpq_lens_snoc [OF blen True, of "t - length ls" "ucast sz"]
      by (simp add: bpq_rel_def s q'_def contract_add [OF B k] contract_advance [OF B] msk
          Suc_diff_le)
    with push step True bideq show ?thesis by (simp add: s)
  qed
qed

lemma bpq_finish_sim:
  assumes rel: "bpq_rel B k incr q s" and ok: "abq_ok (2 ^ k) (Bq_finish c) s"
    and step: "abq_step (2 ^ k) incr (Bq_finish c) s = (y, s')"
  shows "\<exists>q'. bpq_step B (Bq_finish c) q = Some (y, q') \<and> bpq_rel B k incr q' s'"
proof (cases "cq_flags c AND IORING_CQE_F_BUFFER = 0")
  case True
  with assms show ?thesis by (cases s) (auto simp: bpq_step_def bpq_handle_finish_def)
next
  case False
  obtain t ls where s: "s = (t, ls)" by (cases s)
  obtain j rest where take: "pb_take incr (nat (cq_res c)) ls = (j, rest)" by fastforce
  let ?a = "t - length ls" and ?bid = "ucast (drop_bit 16 (cq_flags c)) :: u16"
  have k: "k \<le> 15" and len: "length ls = unat (q_size q)" "length ls \<le> t" "length ls \<le> 2 ^ k"
    and blen: "length (q_buf_lens q) = 2 ^ k" and ls: "ls = bpq_lens k ?a (q_buf_lens q) (length ls)"
    and msk: "q_mask q = mask k" and incr: "incr = (q_br_flags q AND IOU_PBUF_RING_INC \<noteq> 0)"
    using rel by (auto simp: bpq_rel_def bpq_wf_def s)
  have res: "0 < cq_res c" "cq_res c < 2 ^ 32" "cq_res c \<le> int (sum_list ls)"
    and bid: "?bid = of_nat (?a mod 2 ^ k)" using ok False by (auto simp: s abq_bid_def)
  have p15: "(2::nat) ^ k \<le> 2 ^ 15" using k by (rule power_increasing) simp
  have "?a mod 2 ^ k < 2 ^ LENGTH(16)" using p15 less_le_trans [of "?a mod 2 ^ k" "2 ^ k" "2 ^ 15"] by simp
  then have "unat ?bid = ?a mod 2 ^ k" unfolding bid by (rule unat_of_nat_lt)
  then have idx: "unat ?bid mod 2 ^ k = ?a mod 2 ^ k" by simp
  obtain lens' where loop: "bpq_loop incr (mask k) (cq_res c) ?bid (q_buf_lens q) 0 = Some (lens', of_nat j)"
    and lens': "length lens' = 2 ^ k" "bpq_lens k (?a + j) lens' (length ls - j) = rest" and j: "j \<le> length ls"
    using bpq_loop_take [OF k blen len(3) idx, of "cq_res c" incr j rest 0] res take ls by auto
  have n: "unat (ucast (of_nat j :: u16) :: u32) = j"
    using j len(3) p15 by (simp add: unat_ucast_widen unat_of_nat_lt)
  then have le: "(ucast (of_nat j :: u16) :: u32) \<le> q_size q" using j len(1) by (simp add: word_le_nat_alt)
  then have sz': "unat (q_size q - ucast (of_nat j :: u16)) = length ls - j"
    using n len(1) by (simp add: unat_sub)
  have rlen: "length rest = length ls - j" using pb_take_length [OF take] by simp
  define q' where "q' = q\<lparr>q_buf_lens := lens', q_size := q_size q - ucast (of_nat j :: u16)\<rparr>"
  have "bpq_step B (Bq_finish c) q = Some (Bq_info \<lparr>bi_bid = ?bid, bi_num_buffers = of_nat j\<rparr>, q')"
    using False res loop le msk incr by (simp add: bpq_step_def bpq_handle_finish_def q'_def Let_def)
  moreover have "bpq_rel B k incr q' (t, rest)"
    using rel lens' len j rlen sz' le_trans [OF diff_le_self len(3), of j] le_trans [OF diff_le_self len(2), of j]
    by (simp add: bpq_rel_def bpq_wf_def s q'_def Nat.diff_diff_right)
  ultimately show ?thesis using step take False bid by (auto simp: s abq_bid_def)
qed

lemma bpq_run_sim:
  assumes B: "buf_ring_contract B"
  shows "bpq_rel B k incr q s \<Longrightarrow> abq_run_ok (2 ^ k) incr xs s \<Longrightarrow>
    \<exists>q'. bpq_run B xs q = Some (fst (abq_run (2 ^ k) incr xs s), q') \<and>
         bpq_rel B k incr q' (snd (abq_run (2 ^ k) incr xs s))"
proof (induction xs arbitrary: q s)
  case (Cons x xs)
  obtain y s1 where st: "abq_step (2 ^ k) incr x s = (y, s1)"
    by (cases "abq_step (2 ^ k) incr x s")
  obtain q1 where q1: "bpq_step B x q = Some (y, q1)" "bpq_rel B k incr q1 s1"
  proof (cases x)
    case (Bq_push data sz)
    with bpq_push_sim [OF B Cons.prems(1) st [unfolded Bq_push]] that show ?thesis by auto
  next
    case (Bq_finish c)
    from Cons.prems(2) have "abq_ok (2 ^ k) (Bq_finish c) s" unfolding Bq_finish by simp
    from bpq_finish_sim [OF Cons.prems(1) this st [unfolded Bq_finish]] that Bq_finish
    show ?thesis by auto
  qed
  obtain q2 where "bpq_run B xs q1 = Some (fst (abq_run (2 ^ k) incr xs s1), q2)"
    "bpq_rel B k incr q2 (snd (abq_run (2 ^ k) incr xs s1))"
    using Cons.IH [OF q1(2)] Cons.prems(2) st by auto
  then show ?case using q1(1) by (simp add: st case_prod_beta)
qed simp

lemma bpq_new_rel:
  assumes B: "buf_ring_contract B" and new: "bpq_new B capacity flags g = Some (Inr q, g')"
  shows "\<exists>k. unat (q_capacity q) = 2 ^ k \<and> bpq_rel B k (flags AND IOU_PBUF_RING_INC \<noteq> 0) q (0, [])"
proof -
  obtain k where k: "bit_ceil (unat capacity) = 2 ^ k" using bit_ceil_pow2 by blast
  obtain i g1 where al: "idp_allocate no_bgid g = Inr (i, g1)"
    using new by (cases "idp_allocate no_bgid g")
      (auto simp: bpq_new_def massert_def Let_def k split: if_splits bind_splits)
  obtain r where r: "bo_setup B (of_nat (2 ^ k)) i flags = Inr r"
    using new al by (cases "bo_setup B (of_nat (2 ^ k)) i flags")
      (auto simp: bpq_new_def massert_def Let_def k split: if_splits bind_splits)
  have "2 ^ k \<le> (2::nat) ^ 31"
    using new bit_ceil_bound [of "unat capacity" 31] k
    by (auto simp: bpq_new_def massert_def split: if_splits)
  then have u: "unat (of_nat (2 ^ k) :: u32) = 2 ^ k" by (intro unat_of_nat_lt) simp
  have fresh: "bo_tail B r = 0" "unat (of_nat (2 ^ k) :: u32) \<le> 32768"
    using B r unfolding buf_ring_contract_def by blast+
  have "(2::nat) ^ k \<le> 2 ^ 15" using fresh(2) u by simp
  then have k15: "k \<le> 15" by (rule power_le_imp_le_exp [rotated]) simp
  have q: "q_br q = Some r" "q_size q = 0" "q_capacity q = of_nat (2 ^ k)" "q_mask q = of_nat (2 ^ k) - 1"
    "q_buf_lens q = replicate (2 ^ k) 0" "q_br_flags q = flags"
    using new al r u by (auto simp: bpq_new_def massert_def Let_def k split: if_splits)
  show ?thesis
    by (rule exI [of _ k])
       (use q u fresh k15 in \<open>simp add: bpq_rel_def bpq_wf_def bpq_lens_def mask_word [symmetric] unat_pow2\<close>)
qed


text \<open>An instance of the buffer ring, for the concrete runs.\<close>

record mem_ring =
  mr_tail :: u16
  mr_bufs :: "nat \<Rightarrow> io_uring_buf"

definition mem_ring_ops :: "mem_ring buf_ring_ops" where
  "mem_ring_ops = \<lparr>
     bo_setup = (\<lambda>c g f. if unat c \<le> 32768
        then Inr \<lparr>mr_tail = 0, mr_bufs = (\<lambda>i. \<lparr>buf_addr = 0, buf_len = 0, buf_bid = 0\<rparr>)\<rparr>
        else Inl (- EINVAL)),
     bo_free = (\<lambda>r c g. 0),
     bo_add = (\<lambda>a l b m i r. r\<lparr>mr_bufs := (mr_bufs r)(unat ((ucast (mr_tail r) + of_nat i) AND m :: u32) :=
        \<lparr>buf_addr = a, buf_len = l, buf_bid = b\<rparr>)\<rparr>),
     bo_advance = (\<lambda>n r. r\<lparr>mr_tail := mr_tail r + of_nat n\<rparr>),
     bo_tail = mr_tail, bo_bufs = mr_bufs,
     bo_mmap = (\<lambda>n. Inr 0x10000), bo_munmap = (\<lambda>p n. 0)\<rparr>"

lemma mem_ring_contract: "buf_ring_contract mem_ring_ops"
  by (auto simp: buf_ring_contract_def mem_ring_ops_def split: if_splits)

text \<open>
  C18. A queue of provided buffers is a first-in first-out list: for every sequence of pushes and of
  completions in which the kernel uses the pending buffers in order and reports no more bytes than
  they hold, each push returns the next identifier round the ring or fails when the queue is full,
  each completion returns the identifier of the first pending buffer and the number of buffers it
  used up (with partly used buffers staying in front in incremental mode), no assertion fails and
  the loop over the buffers returns.\<close>

theorem provided_queue_refines:
  assumes "buf_ring_contract B" and "bpq_new B capacity flags g = Some (Inr q, g')"
    and "abq_run_ok (unat (q_capacity q)) (flags AND IOU_PBUF_RING_INC \<noteq> 0) xs (0, [])"
  shows "\<exists>q'. bpq_run B xs q =
      Some (fst (abq_run (unat (q_capacity q)) (flags AND IOU_PBUF_RING_INC \<noteq> 0) xs (0, [])), q') \<and>
    unat (q_size q') =
      length (snd (snd (abq_run (unat (q_capacity q)) (flags AND IOU_PBUF_RING_INC \<noteq> 0) xs (0, []))))"
proof -
  obtain k where k: "unat (q_capacity q) = 2 ^ k"
    and rel: "bpq_rel B k (flags AND IOU_PBUF_RING_INC \<noteq> 0) q (0, [])"
    using bpq_new_rel [OF assms(1,2)] by blast
  from bpq_run_sim [OF assms(1) rel assms(3) [unfolded k]] show ?thesis
    unfolding k by (auto simp: bpq_rel_def)
qed

definition sample_bq_ops :: "bq_op list" where
  "sample_bq_ops = [Bq_push 0x1000 64, Bq_push 0x2000 64, Bq_push 0x3000 64,
     Bq_finish \<lparr>cq_user_data = 0, cq_res = 100, cq_flags = 1, cq_big = (0, 0)\<rparr>,
     Bq_push 0x1000 32,
     Bq_finish \<lparr>cq_user_data = 0, cq_res = 28, cq_flags = 0x10001, cq_big = (0, 0)\<rparr>]"

theorem provided_queue_refines_witness:
  "\<exists>q q'. bpq_new mem_ring_ops 2 2 (idp_new 0) = Some (Inr q, \<lparr>next_id = 1, recycled_ids = []\<rparr>) \<and>
     bpq_run mem_ring_ops sample_bq_ops q =
       Some ([Bq_bid (Inr 0), Bq_bid (Inr 1), Bq_bid (Inl (Logic_error ''Capacity exceeded'')),
         Bq_info \<lparr>bi_bid = 0, bi_num_buffers = 1\<rparr>, Bq_bid (Inr 0),
         Bq_info \<lparr>bi_bid = 1, bi_num_buffers = 1\<rparr>], q')"
proof -
  have ceil: "bit_ceil 2 = 2" and lt: "(0::u16) < no_bgid" by code_simp+
  have rep: "replicate 2 (0::u32) = [0, 0]" by (simp add: numeral_2_eq_2)
  have new: "bpq_new mem_ring_ops 2 2 (idp_new 0) =
    Some (Inr \<lparr>q_br = Some \<lparr>mr_tail = 0, mr_bufs = (\<lambda>i. \<lparr>buf_addr = 0, buf_len = 0, buf_bid = 0\<rparr>)\<rparr>,
      q_size = 0, q_capacity = 2, q_mask = 1, q_bgid = 0, q_buf_lens = [0, 0], q_br_flags = 2\<rparr>,
      \<lparr>next_id = 1, recycled_ids = []\<rparr>)" (is "_ = Some (Inr ?q, _)")
    by (simp add: bpq_new_def ceil mem_ring_ops_def idp_allocate_def idp_new_def Let_def lt rep)
  have ok: "abq_run_ok (unat (q_capacity ?q)) (2 AND IOU_PBUF_RING_INC \<noteq> 0) sample_bq_ops (0, [])"
    by (simp add: sample_bq_ops_def abq_bid_def)
  have run: "fst (abq_run (unat (q_capacity ?q)) (2 AND IOU_PBUF_RING_INC \<noteq> 0) sample_bq_ops (0, [])) =
      [Bq_bid (Inr 0), Bq_bid (Inr 1), Bq_bid (Inl (Logic_error ''Capacity exceeded'')),
         Bq_info \<lparr>bi_bid = 0, bi_num_buffers = 1\<rparr>, Bq_bid (Inr 0),
         Bq_info \<lparr>bi_bid = 1, bi_num_buffers = 1\<rparr>]"
    by (simp add: sample_bq_ops_def abq_bid_def)
  from provided_queue_refines [OF mem_ring_contract new ok] run new show ?thesis by auto
qed

section \<open>The pool never loses or doubles a buffer\<close>

text \<open>
  The entries between the position of the library in the ring and its tail, the bytes the kernel
  may still report, and the index of the buffer that a managed buffer lies in.
\<close>

definition bpp_entry :: "'br bpp \<Rightarrow> nat \<Rightarrow> io_uring_buf" where
  "bpp_entry p b = \<lparr>buf_addr = p_base p + of_nat b * ucast (p_buffer_size p), buf_len = p_buffer_size p,
                    buf_bid = of_nat b\<rparr>"

definition bpp_count :: "'br buf_ring_ops \<Rightarrow> 'br bpp \<Rightarrow> nat" where
  "bpp_count B p = unat (bo_tail B (the (p_br p)) - p_br_head p)"

definition bpp_ring :: "'br buf_ring_ops \<Rightarrow> 'br bpp \<Rightarrow> io_uring_buf list" where
  "bpp_ring B p = map (\<lambda>i. bo_bufs B (the (p_br p)) ((unat (p_br_head p) + i) mod unat (p_num_buffers p)))
                    [0..<bpp_count B p]"

definition bpp_avail :: "'br buf_ring_ops \<Rightarrow> 'br bpp \<Rightarrow> nat" where
  "bpp_avail B p = bpp_count B p * unat (p_buffer_size p) - (unat (p_buffer_size p) - unat (p_curr_buf_len p))"

definition mb_index :: "'br bpp \<Rightarrow> mbuf \<Rightarrow> nat" where
  "mb_index p m = unat (mb_data m - p_base p) div unat (p_buffer_size p)"

text \<open>What a managed buffer of the pool looks like: a piece of one buffer, up to its end.\<close>

definition mb_of_pool :: "ptr \<Rightarrow> 'br bpp \<Rightarrow> mbuf \<Rightarrow> bool" where
  "mb_of_pool me p m \<longleftrightarrow> mb_pool m = me \<and> unat (p_base p) \<le> unat (mb_data m) \<and>
     mb_index p m < unat (p_num_buffers p) \<and>
     unat (mb_data m - p_base p) mod unat (p_buffer_size p) + unat (mb_size m) = unat (p_buffer_size p)"

definition bpp_wf :: "nat \<Rightarrow> 'br bpp \<Rightarrow> bool" where
  "bpp_wf k p \<longleftrightarrow> k \<le> 15 \<and> p_num_buffers p = 2 ^ k \<and> p_mask p = mask k \<and> p_br p \<noteq> None \<and>
     0 < p_curr_buf_len p \<and> p_curr_buf_len p \<le> p_buffer_size p \<and>
     unat (p_base p) + 2 ^ k * unat (p_buffer_size p) < 2 ^ 64"

definition bpp_inv :: "'br buf_ring_ops \<Rightarrow> ptr \<Rightarrow> nat \<Rightarrow> 'br bpp \<Rightarrow> nat list \<Rightarrow> mbuf list \<Rightarrow> bool" where
  "bpp_inv B me k p ring held \<longleftrightarrow> bpp_wf k p \<and> bpp_ring B p = map (bpp_entry p) ring \<and>
     mset ring + mset (map (mb_index p) held) = mset [0..<2 ^ k] \<and>
     list_all (mb_of_pool me p) held \<and> (p_curr_buf_len p < p_buffer_size p \<longrightarrow> ring \<noteq> [])"

lemma bpp_wf_num: "bpp_wf k p \<Longrightarrow> unat (p_num_buffers p) = 2 ^ k"
  by (simp add: bpp_wf_def unat_pow2)

lemma bpp_ring_length [simp]: "length (bpp_ring B p) = bpp_count B p"
  by (simp add: bpp_ring_def)

lemma bpp_inv_count: "bpp_inv B me k p ring held \<Longrightarrow> bpp_count B p = length ring"
  by (metis bpp_inv_def bpp_ring_length length_map)

lemma bpp_inv_total:
  assumes "bpp_inv B me k p ring held"
  shows "length ring + length held = 2 ^ k"
  using arg_cong [of _ _ size, OF conjunct1 [OF conjunct2 [OF conjunct2 [OF assms [unfolded bpp_inv_def]]]]]
  by simp

lemma bpp_inv_ring_lt:
  assumes "bpp_inv B me k p ring held" and "b \<in> set ring"
  shows "b < 2 ^ k"
proof -
  have "mset ring + mset (map (mb_index p) held) = mset [0..<2 ^ k]"
    using assms(1) by (simp add: bpp_inv_def)
  then have "set_mset (mset ring + mset (map (mb_index p) held)) = set_mset (mset [0..<2 ^ k])"
    by (rule arg_cong)
  with assms(2) have "b \<in> {0..<2 ^ k}" by auto
  then show ?thesis by simp
qed

lemma ucast_of_unat: "(ucast w :: 'b::len word) = of_nat (unat w)" for w :: "'a::len word"
  by simp

text \<open>Addresses: the piece of buffer \<open>b\<close> that starts at byte \<open>i\<close>.\<close>

lemma mb_index_piece:
  assumes wf: "bpp_wf k p" and b: "b < 2 ^ k" and i: "i < unat (p_buffer_size p)"
    and data: "mb_data m = p_base p + of_nat b * ucast (p_buffer_size p) + of_nat i"
  shows "mb_index p m = b" and "unat (p_base p) \<le> unat (mb_data m)"
    and "unat (mb_data m - p_base p) mod unat (p_buffer_size p) = i"
proof -
  let ?s = "unat (p_buffer_size p)"
  have "b * ?s + ?s \<le> 2 ^ k * ?s" using b by (metis Suc_leI mult_le_mono1 add.commute mult_Suc)
  then have lt: "unat (p_base p) + (b * ?s + i) < 2 ^ LENGTH(64)"
    using wf i by (simp add: bpp_wf_def)
  have s64: "(ucast (p_buffer_size p) :: u64) = of_nat ?s"
    by (simp add: unat_ucast_widen word_unat_eq_iff unat_of_nat_lt)
  have off: "mb_data m - p_base p = of_nat (b * ?s + i)" unfolding data s64 by simp
  have uoff: "unat (mb_data m - p_base p) = b * ?s + i"
    unfolding off using lt by (intro unat_of_nat_lt) simp
  have "mb_data m = of_nat (unat (p_base p) + (b * ?s + i))" unfolding data s64 by simp
  then have "unat (mb_data m) = unat (p_base p) + (b * ?s + i)"
    using unat_of_nat_lt [OF lt] by simp
  then show "unat (p_base p) \<le> unat (mb_data m)" by simp
  show "mb_index p m = b" unfolding mb_index_def uoff using i by simp
  show "unat (mb_data m - p_base p) mod ?s = i" unfolding uoff using i by simp
qed

lemma mset_move_end: "mset (b # ring) + M = N \<Longrightarrow> mset ring + (M + {#b#}) = N"
  by (simp add: ac_simps)

lemma bpp_avail_pos:
  assumes "bpp_inv B me k p (b # ring) held"
  shows "bpp_avail B p = length ring * unat (p_buffer_size p) + unat (p_curr_buf_len p)"
  using assms bpp_inv_count [OF assms]
  by (auto simp: bpp_avail_def bpp_inv_def bpp_wf_def word_le_nat_alt)

lemma bpp_ring_Cons:
  assumes wf: "bpp_wf k p" and n: "bpp_count B p = Suc n"
  shows "bpp_ring B p = bo_bufs B (the (p_br p)) (unat (p_br_head p) mod 2 ^ k) #
           bpp_ring B (p\<lparr>p_br_head := p_br_head p + 1\<rparr>)"
    and "bpp_count B (p\<lparr>p_br_head := p_br_head p + 1\<rparr>) = n"
proof -
  have k: "k \<le> 15" using wf by (simp add: bpp_wf_def)
  let ?d = "bo_tail B (the (p_br p)) - p_br_head p"
  have d: "unat ?d = Suc n" using n by (simp add: bpp_count_def)
  then have "?d \<noteq> 0" by auto
  then have "unat (?d - 1) = n" using d by (simp add: unat_minus_one)
  then show n1: "bpp_count B (p\<lparr>p_br_head := p_br_head p + 1\<rparr>) = n"
    by (simp add: bpp_count_def diff_diff_eq)
  have "(unat (p_br_head p + 1) + i) mod 2 ^ k = (unat (p_br_head p) + Suc i) mod 2 ^ k" for i
    using slot_succ [OF k, of "p_br_head p"] by (metis mod_add_left_eq add_Suc_shift Suc_eq_plus1)
  then show "bpp_ring B p = bo_bufs B (the (p_br p)) (unat (p_br_head p) mod 2 ^ k) #
      bpp_ring B (p\<lparr>p_br_head := p_br_head p + 1\<rparr>)"
    unfolding bpp_ring_def n n1 using bpp_wf_num [OF wf]
    by (simp add: upt_conv_Cons map_Suc_upt [symmetric] comp_def del: upt_Suc)
qed

lemma bpp_frame [simp]:
  "mb_index (p\<lparr>p_br_head := h\<rparr>) = mb_index p" "mb_index (p\<lparr>p_curr_buf_len := l\<rparr>) = mb_index p"
  "mb_index (p\<lparr>p_br := r\<rparr>) = mb_index p"
  "mb_of_pool me (p\<lparr>p_br_head := h\<rparr>) = mb_of_pool me p" "mb_of_pool me (p\<lparr>p_curr_buf_len := l\<rparr>) = mb_of_pool me p"
  "mb_of_pool me (p\<lparr>p_br := r\<rparr>) = mb_of_pool me p"
  "bpp_entry (p\<lparr>p_br_head := h\<rparr>) = bpp_entry p" "bpp_entry (p\<lparr>p_curr_buf_len := l\<rparr>) = bpp_entry p"
  "bpp_entry (p\<lparr>p_br := r\<rparr>) = bpp_entry p"
  "bpp_count B (p\<lparr>p_curr_buf_len := l\<rparr>) = bpp_count B p" "bpp_ring B (p\<lparr>p_curr_buf_len := l\<rparr>) = bpp_ring B p"
  by (simp_all add: fun_eq_iff mb_index_def mb_of_pool_def bpp_entry_def bpp_count_def bpp_ring_def)

text \<open>The piece of the first buffer that the next bytes go to.\<close>

definition bpp_next_data :: "'br bpp \<Rightarrow> nat \<Rightarrow> ptr" where
  "bpp_next_data p b = p_base p + of_nat b * ucast (p_buffer_size p) +
     of_nat (unat (p_buffer_size p) - unat (p_curr_buf_len p))"

lemma bpp_full_inv:
  assumes inv: "bpp_inv B me k p (b # ring) held"
    and m: "m = \<lparr>mb_data = bpp_next_data p b, mb_size = ucast (p_curr_buf_len p), mb_pool = me\<rparr>"
    and p': "p' = p\<lparr>p_br_head := p_br_head p + 1, p_curr_buf_len := p_buffer_size p\<rparr>"
  shows "bpp_inv B me k p' ring (held @ [m])"
    and "bpp_avail B p' + unat (p_curr_buf_len p) = bpp_avail B p"
proof -
  let ?s = "p_buffer_size p" and ?c = "p_curr_buf_len p"
  have wf: "bpp_wf k p" and ring: "bpp_ring B p = bpp_entry p b # map (bpp_entry p) ring"
    and part: "mset (b # ring) + mset (map (mb_index p) held) = mset [0..<2 ^ k]"
    using inv by (simp_all add: bpp_inv_def)
  have cnt: "bpp_count B p = Suc (length ring)" using bpp_inv_count [OF inv] by simp
  have tl: "bpp_ring B (p\<lparr>p_br_head := p_br_head p + 1\<rparr>) = map (bpp_entry p) ring"
    using bpp_ring_Cons(1) [OF wf cnt] ring by simp
  have c: "0 < ?c" "?c \<le> ?s" using wf by (simp_all add: bpp_wf_def)
  have b: "b < 2 ^ k" using bpp_inv_ring_lt [OF inv] by simp
  have i: "unat ?s - unat ?c < unat ?s" "unat ?s - unat ?c + unat ?c = unat ?s"
    using c by (auto simp: word_le_nat_alt word_less_nat_alt)
  have idx: "mb_index p m = b" "unat (p_base p) \<le> unat (mb_data m)"
    "unat (mb_data m - p_base p) mod unat ?s = unat ?s - unat ?c"
    using mb_index_piece [OF wf b i(1), of m] by (simp_all add: m bpp_next_data_def)
  have "mb_of_pool me p m"
    using idx i b bpp_wf_num [OF wf] by (simp add: mb_of_pool_def unat_ucast_widen m)
  moreover have "bpp_wf k p'" using wf c by (auto simp: bpp_wf_def p')
  ultimately show "bpp_inv B me k p' ring (held @ [m])"
    using inv tl idx(1) mset_move_end [OF part] by (simp add: bpp_inv_def p')
  show "bpp_avail B p' + unat ?c = bpp_avail B p"
    unfolding bpp_avail_pos [OF inv]
    using bpp_ring_Cons(2) [OF wf cnt] by (simp add: bpp_avail_def p')
qed

lemma bpp_part_inv:
  assumes inv: "bpp_inv B me k p (b # ring) held" and len: "0 < unat len" "len < p_curr_buf_len p"
    and p': "p' = p\<lparr>p_curr_buf_len := p_curr_buf_len p - len\<rparr>"
  shows "bpp_inv B me k p' (b # ring) held" and "bpp_avail B p' + unat len = bpp_avail B p"
proof -
  have uc: "unat (p_curr_buf_len p - len) = unat (p_curr_buf_len p) - unat len"
    using len(2) by (simp add: unat_sub)
  then have "bpp_wf k p'"
    using inv len by (auto simp: bpp_inv_def bpp_wf_def word_less_nat_alt word_le_nat_alt p')
  then show inv': "bpp_inv B me k p' (b # ring) held" using inv by (simp add: bpp_inv_def p')
  show "bpp_avail B p' + unat len = bpp_avail B p"
    unfolding bpp_avail_pos [OF inv] bpp_avail_pos [OF inv'] using uc len(2)
    by (simp add: word_less_nat_alt p')
qed

text \<open>One round of the loop of \<open>handle_finish\<close>.\<close>

lemma bpp_chunk_eq:
  assumes inv: "bpp_inv B me k p (b # ring) held" and len: "len = (if incr then min (word_of_int bytes) (p_curr_buf_len p) else p_curr_buf_len p)"
  shows "bpp_chunk B me incr bytes p =
      (if len = p_curr_buf_len p
       then Some (\<lparr>mb_data = bpp_next_data p b, mb_size = ucast len, mb_pool = me\<rparr>, len,
         p\<lparr>p_br_head := p_br_head p + 1, p_curr_buf_len := p_buffer_size p\<rparr>)
       else Some (\<lparr>mb_data = bpp_next_data p b, mb_size = ucast len, mb_pool = nullptr\<rparr>, len,
         p\<lparr>p_curr_buf_len := p_curr_buf_len p - len\<rparr>))"
proof -
  let ?s = "p_buffer_size p" and ?c = "p_curr_buf_len p"
  have wf: "bpp_wf k p" and ring: "bpp_ring B p = bpp_entry p b # map (bpp_entry p) ring"
    using inv by (simp_all add: bpp_inv_def)
  have k: "k \<le> 15" and c: "?c \<le> ?s" and msk: "p_mask p = mask k" using wf by (simp_all add: bpp_wf_def)
  obtain r where r: "p_br p = Some r" using wf by (auto simp: bpp_wf_def)
  have cnt: "bpp_count B p = Suc (length ring)" using bpp_inv_count [OF inv] by simp
  have b: "b < 2 ^ k" using bpp_inv_ring_lt [OF inv] by simp
  have p15: "(2::nat) ^ k \<le> 2 ^ 15" using k by (rule power_increasing) simp
  have hd: "bo_bufs B r (unat (p_br_head p) mod 2 ^ k) = bpp_entry p b"
    using bpp_ring_Cons(1) [OF wf cnt] ring r by simp
  have slot: "unat (ucast (p_br_head p) AND p_mask p) = unat (p_br_head p) mod 2 ^ k"
    using slot32 [OF k, of "p_br_head p" 0] msk by simp
  have "unat (of_nat b :: u16) = b" using b p15 by (intro unat_of_nat_lt) simp
  then have b64: "(ucast (of_nat b :: u16) :: u64) = of_nat b" by (simp add: ucast_of_unat)
  have "unat (?s - ?c) = unat ?s - unat ?c" using c by (simp add: unat_sub)
  then have i64: "(ucast (?s - ?c) :: u64) = of_nat (unat ?s - unat ?c)" by (simp add: ucast_of_unat)
  have "len \<le> ?c" using len by simp
  then show ?thesis
    by (auto simp: bpp_chunk_def r slot hd Let_def bpp_get_buffer_def bpp_entry_def b64 i64 bpp_next_data_def len)
qed

lemma bpp_chunk_inv:
  assumes inv: "bpp_inv B me k p (b # ring) held" and me: "me \<noteq> nullptr"
    and bytes: "0 < bytes" "bytes < 2 ^ 31"
  shows "\<exists>m len p' ring'. bpp_chunk B me incr bytes p = Some (m, len, p') \<and> 0 < unat len \<and>
     bpp_inv B me k p' ring' (held @ filter mb_owns_buffer [m]) \<and>
     bpp_avail B p' + unat len = bpp_avail B p \<and> p_buffer_size p' = p_buffer_size p \<and>
     (if incr then unat len \<le> nat bytes else len = p_curr_buf_len p) \<and> mb_size m = ucast len"
proof -
  let ?c = "p_curr_buf_len p"
  define len where "len = (if incr then min (word_of_int bytes) ?c else ?c)"
  have c: "0 < ?c" using inv by (simp add: bpp_inv_def bpp_wf_def)
  have ulen: "unat len = (if incr then min (nat bytes) (unat ?c) else unat ?c)"
    using bytes by (simp add: len_def min_word_of_int)
  have len: "0 < unat len" "len \<le> ?c" "if incr then unat len \<le> nat bytes else len = ?c"
    using ulen bytes c by (auto simp: word_le_nat_alt word_less_nat_alt len_def)
  note eq = bpp_chunk_eq [OF inv len_def]
  show ?thesis
  proof (cases "len = ?c")
    case True
    let ?m = "\<lparr>mb_data = bpp_next_data p b, mb_size = ucast len, mb_pool = me\<rparr>"
    let ?p = "p\<lparr>p_br_head := p_br_head p + 1, p_curr_buf_len := p_buffer_size p\<rparr>"
    from bpp_full_inv [OF inv refl refl] True me len eq show ?thesis
      by (intro exI [of _ ?m] exI [of _ len] exI [of _ ?p] exI [of _ ring])
         (simp add: mb_owns_buffer_def)
  next
    case False
    then have "len < ?c" using len(2) by simp
    let ?m = "\<lparr>mb_data = bpp_next_data p b, mb_size = ucast len, mb_pool = nullptr\<rparr>"
    let ?p = "p\<lparr>p_curr_buf_len := p_curr_buf_len p - len\<rparr>"
    from bpp_part_inv [OF inv len(1) \<open>len < ?c\<close> refl] False len eq show ?thesis
      by (intro exI [of _ ?m] exI [of _ len] exI [of _ ?p] exI [of _ "b # ring"])
         (simp add: mb_owns_buffer_def)
  qed
qed

lemma bpp_avail_Nil: "bpp_inv B me k p [] held \<Longrightarrow> bpp_avail B p = 0"
  by (frule bpp_inv_count) (simp add: bpp_avail_def)

text \<open>The loop returns, and the managed buffers it yields cover the bytes of the completion.\<close>

lemma bpp_loop_inv:
  assumes "bpp_inv B me k p ring held" and "me \<noteq> nullptr" and "bytes < 2 ^ 31" and "bytes \<le> int (bpp_avail B p)"
  shows "\<exists>new p' ring'. bpp_loop B me incr bytes p bufs = Some (bufs @ new, p') \<and>
     bpp_inv B me k p' ring' (held @ filter mb_owns_buffer new) \<and>
     (if incr \<and> 0 \<le> bytes then int (\<Sum>m\<leftarrow>new. unat (mb_size m)) = bytes
      else bytes \<le> int (\<Sum>m\<leftarrow>new. unat (mb_size m)))"
  using assms
proof (induction "nat bytes" arbitrary: bytes p ring held bufs rule: less_induct)
  case less
  show ?case
  proof (cases "0 < bytes")
    case False
    with less.prems show ?thesis
      by (subst bpp_loop.simps, intro exI [of _ "[]"] exI [of _ p] exI [of _ ring]) auto
  next
    case True
    have "ring \<noteq> []" using bpp_avail_Nil [of B me k p held] less.prems(1,4) True by auto
    then obtain b ring0 where ring: "ring = b # ring0" by (cases ring) auto
    obtain m len p1 ring1 where ch: "bpp_chunk B me incr bytes p = Some (m, len, p1)" "0 < unat len"
      and inv1: "bpp_inv B me k p1 ring1 (held @ filter mb_owns_buffer [m])"
      and av: "bpp_avail B p1 + unat len = bpp_avail B p"
      and le: "if incr then unat len \<le> nat bytes else len = p_curr_buf_len p"
      and sz: "mb_size m = ucast len"
      using bpp_chunk_inv [OF less.prems(1) [unfolded ring] less.prems(2) True less.prems(3)] by blast
    obtain L where L: "unat len = L" "uint len = int L" by simp
    have usz: "unat (mb_size m) = L" by (simp add: sz unat_ucast_widen L(1))
    have lt: "nat (bytes - int L) < nat bytes" using True ch(2) L(1) by linarith
    have le': "bytes - int L < 2 ^ 31" "bytes - int L \<le> int (bpp_avail B p1)"
      using less.prems(3,4) av L(1) by linarith+
    from less.hyps [OF lt inv1 less.prems(2) le', of "bufs @ [m]"] obtain new p2 ring2 where
      loop: "bpp_loop B me incr (bytes - int L) p1 (bufs @ [m]) = Some ((bufs @ [m]) @ new, p2)"
      and inv2: "bpp_inv B me k p2 ring2 ((held @ filter mb_owns_buffer [m]) @ filter mb_owns_buffer new)"
      and sum: "if incr \<and> 0 \<le> bytes - int L then int (\<Sum>m\<leftarrow>new. unat (mb_size m)) = bytes - int L
        else bytes - int L \<le> int (\<Sum>m\<leftarrow>new. unat (mb_size m))"
      by blast
    show ?thesis
    proof (intro exI conjI)
      show "bpp_loop B me incr bytes p bufs = Some (bufs @ (m # new), p2)"
        using True ch(1) loop by (subst bpp_loop.simps) (simp add: L(2))
      show "bpp_inv B me k p2 ring2 (held @ filter mb_owns_buffer (m # new))"
        using inv2 by (cases "mb_owns_buffer m") simp_all
      show "if incr \<and> 0 \<le> bytes then int (\<Sum>m\<leftarrow>m # new. unat (mb_size m)) = bytes
          else bytes \<le> int (\<Sum>m\<leftarrow>m # new. unat (mb_size m))"
        using sum le L(1) True by (cases incr) (auto simp: usz)
    qed
  qed
qed

text \<open>Giving a buffer back puts its entry at the tail of the ring.\<close>

lemma bpp_ring_snoc:
  assumes B: "buf_ring_contract B" and wf: "bpp_wf k p" and r: "p_br p = Some r"
    and n: "bpp_count B p < 2 ^ k"
    and p': "p' = p\<lparr>p_br := Some (bo_advance B 1 (bo_add B a l b (p_mask p) 0 r))\<rparr>"
  shows "bpp_ring B p' = bpp_ring B p @ [\<lparr>buf_addr = a, buf_len = l, buf_bid = b\<rparr>]"
proof -
  have k: "k \<le> 15" and msk: "p_mask p = mask k" using wf by (simp_all add: bpp_wf_def)
  let ?d = "bo_tail B r - p_br_head p" and ?h = "unat (p_br_head p)"
  have d: "unat ?d = bpp_count B p" by (simp add: bpp_count_def r)
  have "(2::nat) ^ k \<le> 2 ^ 15" using k by (rule power_increasing) simp
  then have "unat (?d + 1) = bpp_count B p + 1" using n d by (simp add: unat_word_ariths)
  moreover have sw: "bo_tail B r + 1 - p_br_head p = ?d + 1" by simp
  ultimately have cnt: "bpp_count B p' = Suc (bpp_count B p)"
    by (simp add: bpp_count_def p' contract_add [OF B k] contract_advance [OF B] msk sw r)
  have "bo_tail B r = p_br_head p + of_nat (bpp_count B p)" unfolding d [symmetric] by simp
  then have "unat (bo_tail B r) mod 2 ^ k = (?h + bpp_count B p) mod 2 ^ k"
    using unat_plus_mod [of k "p_br_head p" "bpp_count B p"] k by simp
  moreover have "(?h + i) mod 2 ^ k \<noteq> (?h + bpp_count B p) mod 2 ^ k" if "i < bpp_count B p" for i
    using mod_offset_eq_iff [of i "2 ^ k" "bpp_count B p" ?h] that n by simp
  ultimately show ?thesis
    unfolding bpp_ring_def cnt using bpp_wf_num [OF wf]
    by (simp add: p' contract_add [OF B k] contract_advance [OF B] msk r)
qed

lemma bpp_add_back_inv:
  assumes B: "buf_ring_contract B" and inv: "bpp_inv B me k p ring held" and m: "m \<in> set held"
  shows "\<exists>p'. bpp_add_buffer_back B (mb_data m) (mb_size m) p = Some p' \<and>
    bpp_inv B me k p' (ring @ [mb_index p m]) (remove1 m held)"
proof -
  let ?s = "p_buffer_size p" and ?b = "mb_index p m"
  have wf: "bpp_wf k p" and mp: "mb_of_pool me p m"
    using inv m by (auto simp: bpp_inv_def list_all_iff)
  obtain r where r: "p_br p = Some r" using wf by (auto simp: bpp_wf_def)
  have s: "0 < unat ?s" using wf by (auto simp: bpp_wf_def word_less_nat_alt word_le_nat_alt)
  define bid where "bid = (mb_data m - p_base p) div ucast ?s"
  have ubid: "unat bid = ?b" by (simp add: bid_def unat_div mb_index_def unat_ucast_widen)
  have bid: "bid = of_nat ?b" "ucast bid = (of_nat ?b :: u16)" unfolding ubid [symmetric] by simp_all
  have asserts: "mb_size m \<le> ucast ?s" "p_base p \<le> mb_data m" "?s \<noteq> 0" "bid < ucast (p_num_buffers p)"
    using mp s ubid by (auto simp: mb_of_pool_def word_le_nat_alt word_less_nat_alt unat_ucast_widen)
  define p' where "p' = p\<lparr>p_br := Some (bo_advance B 1 (bo_add B (p_base p + bid * ucast ?s) ?s (ucast bid) (p_mask p) 0 r))\<rparr>"
  have eq: "bpp_add_buffer_back B (mb_data m) (mb_size m) p = Some p'"
    using asserts r by (simp add: bpp_add_buffer_back_def Let_def bid_def p'_def)
  have "length held > 0" using m by auto
  then have "bpp_count B p < 2 ^ k" using bpp_inv_count [OF inv] bpp_inv_total [OF inv] by linarith
  from bpp_ring_snoc [OF B wf r this p'_def]
  have ring: "bpp_ring B p' = map (bpp_entry p') (ring @ [?b])"
    using inv bid by (simp add: bpp_inv_def p'_def bpp_entry_def)
  have held: "list_all (mb_of_pool me p) held" and part: "mset ring + mset (map (mb_index p) held) = mset [0..<2 ^ k]"
    using inv by (simp_all add: bpp_inv_def)
  have "mset (map (mb_index p) held) = add_mset ?b (mset (map (mb_index p) (remove1 m held)))"
    using m by (simp add: image_mset_add_mset [symmetric] del: image_mset_add_mset)
  then have "mset (ring @ [?b]) + mset (map (mb_index p') (remove1 m held)) = mset [0..<2 ^ k]"
    using part by (simp add: p'_def)
  moreover have "list_all (mb_of_pool me p') (remove1 m held)"
    using held notin_set_remove1 by (auto simp: list_all_iff p'_def dest: set_remove1_subset [THEN subsetD])
  moreover have "bpp_wf k p'" using wf by (simp add: bpp_wf_def p'_def)
  ultimately show ?thesis using eq ring by (simp add: bpp_inv_def)
qed

lemma bpp_fill_bufs:
  assumes B: "buf_ring_contract B" and k: "k \<le> 15" and msk: "p_mask p = mask k" and t: "bo_tail B r = 0"
  shows "n \<le> 2 ^ k \<Longrightarrow> bo_tail B (bpp_fill B p n r) = 0 \<and>
    (\<forall>i<n. bo_bufs B (bpp_fill B p n r) i = bpp_entry p i)"
proof (induction n)
  case (Suc n)
  then show ?case
    by (auto simp: contract_add [OF B k] msk bpp_entry_def less_Suc_eq)
qed (simp add: t)

lemma bpp_new_inv:
  assumes B: "buf_ring_contract B" and new: "bpp_new B base num_buffers buffer_size flags owns g = Some (Inr p, g')"
    and bs: "0 < buffer_size" "buffer_size < 2 ^ 32"
    and fits: "unat base + bit_ceil (unat num_buffers) * unat buffer_size < 2 ^ 64"
  shows "\<exists>k. bpp_inv B me k p [0..<2 ^ k] []"
proof -
  obtain k where k: "bit_ceil (unat num_buffers) = 2 ^ k" using bit_ceil_pow2 by blast
  obtain i g1 where al: "idp_allocate no_bgid g = Inr (i, g1)"
    using new by (cases "idp_allocate no_bgid g")
      (auto simp: bpp_new_def massert_def Let_def k split: if_splits bind_splits)
  obtain r where r: "bo_setup B (of_nat (2 ^ k)) i flags = Inr r"
    using new al by (cases "bo_setup B (of_nat (2 ^ k)) i flags")
      (auto simp: bpp_new_def massert_def Let_def k split: if_splits bind_splits)
  have "2 ^ k \<le> (2::nat) ^ 31"
    using new bit_ceil_bound [of "unat num_buffers" 31] k
    by (auto simp: bpp_new_def massert_def split: if_splits)
  then have u: "unat (of_nat (2 ^ k) :: u32) = 2 ^ k" by (intro unat_of_nat_lt) simp
  have fresh: "bo_tail B r = 0" "unat (of_nat (2 ^ k) :: u32) \<le> 32768"
    using B r unfolding buf_ring_contract_def by blast+
  have p15: "(2::nat) ^ k \<le> 2 ^ 15" using fresh(2) u by simp
  then have k15: "k \<le> 15" by (rule power_le_imp_le_exp [rotated]) simp
  have br: "p_br p = Some (bo_advance B (2 ^ k) (bpp_fill B (p\<lparr>p_br := None\<rparr>) (2 ^ k) r))"
    using new al r u by (auto simp: bpp_new_def massert_def Let_def k split: if_splits)
  have p: "p_num_buffers p = of_nat (2 ^ k)" "p_mask p = mask k" "p_base p = base" "p_br_head p = 0"
    "p_buffer_size p = ucast buffer_size" "p_curr_buf_len p = ucast buffer_size"
    using new al r u by (auto simp: bpp_new_def massert_def Let_def k mask_word [symmetric] split: if_splits)
  have usz: "unat (ucast buffer_size :: u32) = unat buffer_size"
    using bs(2) by (simp add: unsigned_ucast_eq take_bit_eq_mod word_less_nat_alt)
  have fill: "bo_tail B (bpp_fill B (p\<lparr>p_br := None\<rparr>) (2 ^ k) r) = 0" "i < 2 ^ k \<Longrightarrow> bo_bufs B (bpp_fill B (p\<lparr>p_br := None\<rparr>) (2 ^ k) r) i = bpp_entry p i" for i
    using bpp_fill_bufs [OF B k15 _ fresh(1) order_refl, of "p\<lparr>p_br := None\<rparr>"] p(2) by auto
  have "unat (of_nat (2 ^ k) :: u16) = 2 ^ k" using p15 by (intro unat_of_nat_lt) simp
  then have cnt: "bpp_count B p = 2 ^ k" using fill(1) p br by (simp add: bpp_count_def contract_advance [OF B])
  have ring: "bpp_ring B p = map (bpp_entry p) [0..<2 ^ k]"
    unfolding bpp_ring_def cnt using p br u fill(2)
    by (intro map_cong) (auto simp: contract_advance [OF B])
  have "bpp_wf k p"
    using p br k15 bs fits usz u by (simp add: bpp_wf_def k word_less_nat_alt unat_pow2)
  then show ?thesis using ring p by (intro exI [of _ k]) (simp add: bpp_inv_def)
qed

text \<open>
  The life of a pool: completions hand out managed buffers, and the program drops the ones that
  own their memory, in any order. \<open>bpp_fill_ok\<close> is what the kernel promises: a completion reports
  at most the bytes that the buffers in the ring hold.
\<close>

definition bpp_fill_ok :: "'br buf_ring_ops \<Rightarrow> 'br bpp \<Rightarrow> cqe \<Rightarrow> bool" where
  "bpp_fill_ok B p c \<longleftrightarrow> cq_flags c AND IORING_CQE_F_BUFFER = 0 \<or>
     0 < cq_res c \<and> cq_res c < 2 ^ 31 \<and> cq_res c \<le> int (bpp_avail B p)"

inductive pool_reach :: "'br buf_ring_ops \<Rightarrow> ptr \<Rightarrow> 'br bpp \<Rightarrow> 'br bpp \<Rightarrow> mbuf list \<Rightarrow> bool"
  for B me p0 where
  pool_start: "pool_reach B me p0 p0 []"
| pool_finish: "pool_reach B me p0 p held \<Longrightarrow> bpp_fill_ok B p c \<Longrightarrow>
    bpp_handle_finish B me c p = Some (bufs, p') \<Longrightarrow>
    pool_reach B me p0 p' (held @ filter mb_owns_buffer bufs)"
| pool_drop: "pool_reach B me p0 p held \<Longrightarrow> m \<in> set held \<Longrightarrow>
    mb_reset (bpp_add_buffer_back B) m p = Some (m', p') \<Longrightarrow>
    pool_reach B me p0 p' (remove1 m held)"

lemma bpp_finish_inv:
  assumes inv: "bpp_inv B me k p ring held" and me: "me \<noteq> nullptr" and ok: "bpp_fill_ok B p c"
  shows "\<exists>bufs p' ring'. bpp_handle_finish B me c p = Some (bufs, p') \<and>
    bpp_inv B me k p' ring' (held @ filter mb_owns_buffer bufs)"
proof (cases "cq_flags c AND IORING_CQE_F_BUFFER = 0")
  case True
  then show ?thesis using inv
    by (intro exI [of _ "[]"] exI [of _ p] exI [of _ ring]) (simp add: bpp_handle_finish_def)
next
  case False
  then have res: "0 < cq_res c" "cq_res c < 2 ^ 31" "cq_res c \<le> int (bpp_avail B p)"
    using ok by (auto simp: bpp_fill_ok_def)
  from bpp_loop_inv [OF inv me res(2,3), of "p_br_flags p AND IOU_PBUF_RING_INC \<noteq> 0" "[]"]
  obtain new p' ring' where
    "bpp_loop B me (p_br_flags p AND IOU_PBUF_RING_INC \<noteq> 0) (cq_res c) p [] = Some (new, p')"
    "bpp_inv B me k p' ring' (held @ filter mb_owns_buffer new)" by auto
  with False res show ?thesis
    by (intro exI [of _ new] exI [of _ p'] exI [of _ ring']) (simp add: bpp_handle_finish_def)
qed

lemma bpp_reset_inv:
  assumes "buf_ring_contract B" and inv: "bpp_inv B me k p ring held" and "me \<noteq> nullptr" and m: "m \<in> set held"
  shows "\<exists>p'. mb_reset (bpp_add_buffer_back B) m p = Some (mb_empty, p') \<and>
    bpp_inv B me k p' (ring @ [mb_index p m]) (remove1 m held)"
proof -
  have "mb_pool m \<noteq> nullptr" using assms by (auto simp: bpp_inv_def list_all_iff mb_of_pool_def)
  with bpp_add_back_inv [OF assms(1) inv m] show ?thesis by (auto simp: mb_reset_def)
qed

lemma pool_reach_inv:
  assumes B: "buf_ring_contract B" and me: "me \<noteq> nullptr" and inv0: "bpp_inv B me k p0 ring0 []"
  shows "pool_reach B me p0 p held \<Longrightarrow> \<exists>ring. bpp_inv B me k p ring held"
proof (induction rule: pool_reach.induct)
  case pool_start
  show ?case using inv0 by blast
next
  case (pool_finish p held c bufs p')
  then show ?case using bpp_finish_inv [OF _ me pool_finish.hyps(2)] by fastforce
next
  case (pool_drop p held m m' p')
  then show ?case using bpp_reset_inv [OF B _ me pool_drop.hyps(2)] by fastforce
qed

text \<open>
  C17. No buffer of a pool is lost or handed out twice: at every point of its life, whatever the
  order in which buffers are filled and dropped, each buffer is exactly once in the ring or held by
  the program, every entry of the ring describes the memory of its buffer, the next completion of
  the kernel is handled without a failed assertion or an endless loop, and every held buffer can be
  dropped.\<close>

theorem provided_pool_conserves:
  assumes "buf_ring_contract B" and "me \<noteq> nullptr"
    and "bpp_new B base num_buffers buffer_size flags owns g = Some (Inr p0, g')"
    and "0 < buffer_size" and "buffer_size < 2 ^ 32"
    and "unat base + bit_ceil (unat num_buffers) * unat buffer_size < 2 ^ 64"
    and "pool_reach B me p0 p held"
  shows "distinct (map (unat \<circ> buf_bid) (bpp_ring B p) @ map (mb_index p) held) \<and>
    set (map (unat \<circ> buf_bid) (bpp_ring B p) @ map (mb_index p) held) = {0..<unat (p_num_buffers p)} \<and>
    list_all (\<lambda>e. e = bpp_entry p (unat (buf_bid e))) (bpp_ring B p) \<and>
    (\<forall>c. bpp_fill_ok B p c \<longrightarrow> bpp_handle_finish B me c p \<noteq> None) \<and>
    list_all (\<lambda>m. mb_reset (bpp_add_buffer_back B) m p \<noteq> None) held"
proof -
  obtain k ring where inv: "bpp_inv B me k p ring held"
    using bpp_new_inv [OF assms(1,3,4,5,6)] pool_reach_inv [OF assms(1,2) _ assms(7)] by blast
  then have wf: "bpp_wf k p" and ring: "bpp_ring B p = map (bpp_entry p) ring" by (simp_all add: bpp_inv_def)
  have k: "(2::nat) ^ k \<le> 2 ^ 15" using wf by (intro power_increasing) (simp_all add: bpp_wf_def)
  have bid: "unat (buf_bid (bpp_entry p b)) = b" if "b \<in> set ring" for b
    using bpp_inv_ring_lt [OF inv that] k by (simp add: bpp_entry_def unat_of_nat_lt)
  then have ids: "map (unat \<circ> buf_bid) (bpp_ring B p) = ring"
    by (auto simp: ring intro!: map_idI)
  have "mset (ring @ map (mb_index p) held) = mset [0..<2 ^ k]" using inv by (simp add: bpp_inv_def)
  then have "distinct (ring @ map (mb_index p) held)" "set (ring @ map (mb_index p) held) = set [0..<2 ^ k]"
    by (metis mset_eq_imp_distinct_iff distinct_upt, metis mset_eq_setD)
  moreover have "list_all (\<lambda>e. e = bpp_entry p (unat (buf_bid e))) (bpp_ring B p)"
    using bid by (simp add: ring list_all_iff)
  moreover have "\<forall>c. bpp_fill_ok B p c \<longrightarrow> bpp_handle_finish B me c p \<noteq> None"
    using bpp_finish_inv [OF inv assms(2)] by fastforce
  moreover have "list_all (\<lambda>m. mb_reset (bpp_add_buffer_back B) m p \<noteq> None) held"
    unfolding list_all_iff using bpp_reset_inv [OF assms(1) inv assms(2)] by fastforce
  ultimately show ?thesis unfolding ids using bpp_wf_num [OF wf] by simp
qed

definition sample_pool :: "mem_ring bpp" where
  "sample_pool = \<lparr>p_br = Some \<lparr>mr_tail = 2, mr_bufs = (\<lambda>i. \<lparr>buf_addr = 0, buf_len = 0, buf_bid = 0\<rparr>)
       (0 := \<lparr>buf_addr = 0x10000, buf_len = 64, buf_bid = 0\<rparr>, 1 := \<lparr>buf_addr = 0x10040, buf_len = 64, buf_bid = 1\<rparr>)\<rparr>,
     p_base = 0x10000, p_num_buffers = 2, p_mask = 1, p_buffer_size = 64, p_curr_buf_len = 64, p_bgid = 0,
     p_br_head = 0, p_br_flags = 0, p_owns_buffers = True\<rparr>"

lemma sample_pool_new:
  "bpp_new mem_ring_ops 0x10000 2 64 0 True (idp_new 0) = Some (Inr sample_pool, \<lparr>next_id = 1, recycled_ids = []\<rparr>)"
proof -
  have ceil: "bit_ceil 2 = 2" and lt: "(0::u16) < no_bgid" by code_simp+
  have two: "bpp_fill B p 2 r = bpp_fill B p (Suc (Suc 0)) r" for B p and r :: mem_ring by (simp add: numeral_2_eq_2)
  show ?thesis
    by (simp add: bpp_new_def ceil mem_ring_ops_def idp_allocate_def idp_new_def Let_def lt two sample_pool_def)
qed

theorem provided_pool_conserves_witness:
  "\<exists>p m1 m2. pool_reach mem_ring_ops 0x8000 sample_pool p [m1, m2] \<and> mb_data m1 = 0x10000 \<and> mb_data m2 = 0x10040 \<and>
     distinct (map (unat \<circ> buf_bid) (bpp_ring mem_ring_ops p) @ map (mb_index p) [m1, m2]) \<and>
     mb_reset (bpp_add_buffer_back mem_ring_ops) m2 p \<noteq> None"
proof -
  let ?c = "\<lparr>cq_user_data = 0, cq_res = 100, cq_flags = 1, cq_big = (0, 0)\<rparr> :: cqe"
  let ?m1 = "\<lparr>mb_data = 0x10000, mb_size = 64, mb_pool = 0x8000\<rparr>"
  let ?m2 = "\<lparr>mb_data = 0x10040, mb_size = 64, mb_pool = 0x8000\<rparr>"
  let ?p = "sample_pool\<lparr>p_br_head := 2\<rparr>"
  have ok: "bpp_fill_ok mem_ring_ops sample_pool ?c"
    by (simp add: bpp_fill_ok_def bpp_avail_def bpp_count_def sample_pool_def mem_ring_ops_def)
  have fin: "bpp_handle_finish mem_ring_ops 0x8000 ?c sample_pool = Some ([?m1, ?m2], ?p)"
    by (simp add: bpp_handle_finish_def bpp_loop.simps bpp_chunk_def sample_pool_def mem_ring_ops_def
        bpp_get_buffer_def Let_def)
  have reach: "pool_reach mem_ring_ops 0x8000 sample_pool ?p [?m1, ?m2]"
    using pool_finish [OF pool_start ok fin] by (simp add: mb_owns_buffer_def)
  have "bit_ceil 2 = 2" by code_simp
  then have fits: "unat (0x10000 :: ptr) + bit_ceil (unat (2 :: u32)) * unat (64 :: u64) < 2 ^ 64" by simp
  from provided_pool_conserves [OF mem_ring_contract _ sample_pool_new _ _ fits reach] reach
  show ?thesis by (intro exI [of _ ?p] exI [of _ ?m1] exI [of _ ?m2]) auto
qed

end
