(* ===== verification/Zcrx.thy ===== *)
theory Zcrx
  imports Provided_Buffers
begin

text \<open>
  \<open>include/condy/zcrx.hpp\<close>: the pool of zero-copy receive buffers. The kernel fills pieces of one
  memory area and names them by their offset; the program gives them back through a refill ring
  that it shares with the kernel. The interface registration, \<open>mmap\<close>, \<open>munmap\<close>, the page size and
  the flush request are the fields of \<open>zcrx_ops\<close>. \<open>None\<close> is a failed \<open>assert\<close>.
\<close>

section \<open>Registration\<close>

abbreviation MAP_FAILED :: ptr where "MAP_FAILED \<equiv> - 1"
abbreviation ZCRX_REG_NODEV :: u32 where "ZCRX_REG_NODEV \<equiv> 2"
abbreviation IORING_ZCRX_AREA_DMABUF :: u32 where "IORING_ZCRX_AREA_DMABUF \<equiv> 1"

text \<open>\<open>IORING_ZCRX_AREA_MASK\<close>: the bits of an offset that hold the token of the area.\<close>

abbreviation ZCRX_AREA_MASK :: u64 where "ZCRX_AREA_MASK \<equiv> NOT (mask 48)"

record zcrx_area_reg =
  ar_addr :: u64
  ar_len :: u64
  ar_flags :: u32

record zcrx_ifq_reg =
  rg_if_idx :: u32
  rg_if_rxq :: u32
  rg_rq_entries :: u32
  rg_region_size :: u64
  rg_reg_flags :: u32

text \<open>What the registration returns: identifier, token of the area, number of refill entries, and
  the offset at which the ring is mapped.\<close>

record zcrx_ifq_out =
  io_zcrx_id :: u32
  io_area_token :: u64
  io_rq_entries :: u32
  io_mmap_offset :: u64

record zcrx_ops =
  zo_page_size :: u64
  zo_mmap :: "u64 \<Rightarrow> i32 + ptr"
  zo_munmap :: "ptr \<Rightarrow> u64 \<Rightarrow> i32"
  zo_register_ifq :: "zcrx_ifq_reg \<Rightarrow> zcrx_area_reg \<Rightarrow> i32 + zcrx_ifq_out"
  zo_mmap_ring :: "u64 \<Rightarrow> u64 \<Rightarrow> i32 + ptr"
  zo_flush_rq :: "u32 \<Rightarrow> u32 \<Rightarrow> u32 \<Rightarrow> i32 \<times> u32"

text \<open>
  \<open>zo_flush_rq\<close> gets the identifier and the two indices of the refill ring, and returns the result
  of the request and the index up to which the kernel has consumed. The ring itself is the memory
  \<open>z_rqes\<close> with the kernel's index \<open>z_khead\<close> and the index \<open>z_ktail\<close> published by the program.
\<close>

record zcrx_pool =
  z_area_size :: u64
  z_area_ptr :: ptr
  z_ring_size :: u64
  z_khead :: u32
  z_ktail :: u32
  z_rqes :: "nat \<Rightarrow> u64 \<times> u32"
  z_rq_tail :: u32
  z_ring_entries :: u32
  z_ring_ptr :: ptr
  z_zcrx_id :: u32
  z_area_token :: u64
  z_flags :: u32

definition zc_init :: "u32 \<Rightarrow> zcrx_pool" where
  "zc_init flags = \<lparr>z_area_size = 0, z_area_ptr = nullptr, z_ring_size = 0, z_khead = 0, z_ktail = 0,
     z_rqes = (\<lambda>i. (0, 0)), z_rq_tail = 0, z_ring_entries = 0, z_ring_ptr = nullptr, z_zcrx_id = 0,
     z_area_token = 0, z_flags = flags\<rparr>"

definition zc_cleanup :: "zcrx_ops \<Rightarrow> zcrx_pool \<Rightarrow> unit option" where
  "zc_cleanup Z p = do {
     (if z_area_ptr p \<noteq> nullptr \<and> 0 < z_area_size p
      then massert (zo_munmap Z (z_area_ptr p) (z_area_size p) = 0) else Some ());
     (if z_ring_ptr p \<noteq> nullptr then massert (zo_munmap Z (z_ring_ptr p) (z_ring_size p) = 0) else Some ())
   }"

definition get_refill_ring_size :: "u32 \<Rightarrow> u64 \<Rightarrow> u64" where
  "get_refill_ring_size rq_entries page_size = align_up (ucast rq_entries * 16 + page_size) page_size"

definition register_ifq :: "zcrx_ops \<Rightarrow> u32 \<Rightarrow> u32 \<Rightarrow> u32 \<Rightarrow> zcrx_area_reg \<Rightarrow> u64 \<Rightarrow> zcrx_pool \<Rightarrow>
    ((failure \<times> zcrx_pool) + zcrx_pool) option" where
  "register_ifq Z if_idx if_rxq rq_entries area_reg page_size p = do {
     massert (unat rq_entries \<le> 2 ^ 31);
     let entries = of_nat (bit_ceil (unat rq_entries));
     let p1 = p\<lparr>z_ring_size := get_refill_ring_size entries page_size\<rparr>;
     let reg = \<lparr>rg_if_idx = if_idx, rg_if_rxq = if_rxq, rg_rq_entries = entries,
                rg_region_size = z_ring_size p1, rg_reg_flags = z_flags p1\<rparr>;
     Some (case zo_register_ifq Z reg area_reg of
         Inl r \<Rightarrow> Inl (System_error ''io_uring_register_ifq'' (- r), p1)
       | Inr out \<Rightarrow>
           (case zo_mmap_ring Z (z_ring_size p1) (io_mmap_offset out) of
              Inl e \<Rightarrow> Inl (System_error ''mmap'' e, p1)
            | Inr ring_ptr \<Rightarrow>
                Inr (p1\<lparr>z_rq_tail := 0, z_ring_entries := io_rq_entries out, z_ring_ptr := ring_ptr,
                        z_zcrx_id := io_zcrx_id out, z_area_token := io_area_token out\<rparr>)))
   }"

text \<open>An exception of a constructor leaves through \<open>cleanup_\<close>.\<close>

definition zc_guard :: "zcrx_ops \<Rightarrow> ((failure \<times> zcrx_pool) + zcrx_pool) \<Rightarrow> zcrx_pool result option" where
  "zc_guard Z x = (case x of
       Inl (e, p) \<Rightarrow> do { zc_cleanup Z p; Some (Inl e) }
     | Inr p \<Rightarrow> Some (Inr p))"

definition zc_new :: "zcrx_ops \<Rightarrow> u32 \<Rightarrow> u32 \<Rightarrow> u32 \<Rightarrow> ptr \<Rightarrow> u64 \<Rightarrow> u32 \<Rightarrow> zcrx_pool result option" where
  "zc_new Z if_idx if_rxq rq_entries addr sz flags = do {
     let page_size = zo_page_size Z;
     let p = zc_init flags;
     x \<leftarrow> (if addr = nullptr then do {
        let area_size = align_up sz page_size;
        let p1 = p\<lparr>z_area_size := area_size\<rparr>;
        case zo_mmap Z area_size of
          Inl e \<Rightarrow> Some (Inl (System_error ''mmap'' e, p1\<lparr>z_area_ptr := MAP_FAILED\<rparr>))
        | Inr a \<Rightarrow> register_ifq Z if_idx if_rxq rq_entries
                    \<lparr>ar_addr = a, ar_len = area_size, ar_flags = 0\<rparr> page_size (p1\<lparr>z_area_ptr := a\<rparr>)
      } else register_ifq Z if_idx if_rxq rq_entries
               \<lparr>ar_addr = addr, ar_len = sz, ar_flags = 0\<rparr> page_size
               (p\<lparr>z_area_size := 0, z_area_ptr := addr\<rparr>));
     zc_guard Z x
   }"

definition zc_new_dmabuf :: "zcrx_ops \<Rightarrow> u32 \<Rightarrow> u32 \<Rightarrow> u32 \<Rightarrow> u64 \<Rightarrow> u64 \<Rightarrow> zcrx_pool result option" where
  "zc_new_dmabuf Z if_idx if_rxq rq_entries offset sz = do {
     x \<leftarrow> register_ifq Z if_idx if_rxq rq_entries
            \<lparr>ar_addr = offset, ar_len = sz, ar_flags = IORING_ZCRX_AREA_DMABUF\<rparr> (zo_page_size Z)
            ((zc_init 0)\<lparr>z_area_size := 0, z_area_ptr := nullptr\<rparr>);
     zc_guard Z x
   }"

definition zc_new_nodev :: "zcrx_ops \<Rightarrow> u32 \<Rightarrow> ptr \<Rightarrow> u64 \<Rightarrow> zcrx_pool result option" where
  "zc_new_nodev Z rq_entries addr sz = zc_new Z 0 0 rq_entries addr sz ZCRX_REG_NODEV"

section \<open>Completions and the refill ring\<close>

definition zc_handle_finish :: "ptr \<Rightarrow> cqe \<Rightarrow> zcrx_pool \<Rightarrow> mbuf" where
  "zc_handle_finish me c p =
     (if cq_res c < 0 then mb_empty
      else \<lparr>mb_data = z_area_ptr p + (fst (cq_big c) AND NOT ZCRX_AREA_MASK),
            mb_size = word_of_int (cq_res c), mb_pool = me\<rparr>)"

definition rq_nr_queued :: "zcrx_pool \<Rightarrow> u32" where
  "rq_nr_queued p = z_rq_tail p - z_khead p"

definition rq_enqueue :: "ptr \<Rightarrow> u64 \<Rightarrow> zcrx_pool \<Rightarrow> zcrx_pool option" where
  "rq_enqueue ptr sz p = do {
     massert (rq_nr_queued p < z_ring_entries p);
     let rq_mask = z_ring_entries p - 1;
     let i = unat (z_rq_tail p AND rq_mask);
     let off = (ptr - z_area_ptr p) OR z_area_token p;
     Some (p\<lparr>z_rqes := (z_rqes p)(i := (off, ucast sz)), z_rq_tail := z_rq_tail p + 1,
             z_ktail := z_rq_tail p + 1\<rparr>)
   }"

definition flush_rq :: "zcrx_ops \<Rightarrow> zcrx_pool \<Rightarrow> zcrx_pool option" where
  "flush_rq Z p = do {
     let (r, h) = zo_flush_rq Z (z_zcrx_id p) (z_khead p) (z_ktail p);
     massert (r = 0);
     Some (p\<lparr>z_khead := h\<rparr>)
   }"

definition maybe_flush_rq :: "zcrx_ops \<Rightarrow> zcrx_pool \<Rightarrow> zcrx_pool option" where
  "maybe_flush_rq Z p =
     (if z_ring_entries p \<le> rq_nr_queued p \<or> z_flags p AND ZCRX_REG_NODEV \<noteq> 0
      then flush_rq Z p else Some p)"

definition zc_add_buffer_back :: "zcrx_ops \<Rightarrow> ptr \<Rightarrow> u64 \<Rightarrow> zcrx_pool \<Rightarrow> zcrx_pool option" where
  "zc_add_buffer_back Z ptr sz p = do {
     p1 \<leftarrow> rq_enqueue ptr sz p;
     maybe_flush_rq Z p1
   }"

section \<open>What the refill ring tells the kernel\<close>

text \<open>
  The program drops the buffers of completions, and the kernel takes entries off the ring on its
  own (\<open>Zc_take\<close>) or when it is asked to flush.
\<close>

datatype zc_op = Zc_drop cqe | Zc_take

definition zc_step :: "zcrx_ops \<Rightarrow> ptr \<Rightarrow> zc_op \<Rightarrow> zcrx_pool \<Rightarrow> zcrx_pool option" where
  "zc_step Z me x p = (case x of
       Zc_drop c \<Rightarrow> map_option snd (mb_reset (zc_add_buffer_back Z) (zc_handle_finish me c p) p)
     | Zc_take \<Rightarrow> Some (if rq_nr_queued p = 0 then p else p\<lparr>z_khead := z_khead p + 1\<rparr>))"

fun zc_run :: "zcrx_ops \<Rightarrow> ptr \<Rightarrow> zc_op list \<Rightarrow> zcrx_pool \<Rightarrow> zcrx_pool option" where
  "zc_run Z me [] p = Some p"
| "zc_run Z me (x # xs) p = zc_step Z me x p \<bind> zc_run Z me xs"

text \<open>The entries that the kernel has not taken yet.\<close>

definition zc_pending :: "zcrx_pool \<Rightarrow> (u64 \<times> u32) list" where
  "zc_pending p = map (\<lambda>i. z_rqes p ((unat (z_khead p) + i) mod unat (z_ring_entries p)))
                    [0..<unat (rq_nr_queued p)]"

text \<open>
  The abstract ring: everything that was given back, and how many of these the kernel has taken.
  A flush takes all of them.
\<close>

type_synonym az = "(u64 \<times> u32) list \<times> nat"

definition az_step :: "nat \<Rightarrow> bool \<Rightarrow> zc_op \<Rightarrow> az \<Rightarrow> az" where
  "az_step entries nodev x s = (case x of
       Zc_drop c \<Rightarrow>
         if cq_res c < 0 then s
         else let ds = fst s @ [(fst (cq_big c), word_of_int (cq_res c))]
              in (ds, if entries \<le> length ds - snd s \<or> nodev then length ds else snd s)
     | Zc_take \<Rightarrow> if snd s < length (fst s) then (fst s, Suc (snd s)) else s)"

text \<open>
  The documented behaviour of the kernel: a registration yields a power of two of refill entries,
  a flush consumes everything that is published, and the offset of a completion carries the token
  of the area.
\<close>

definition zcrx_contract :: "zcrx_ops \<Rightarrow> bool" where
  "zcrx_contract Z \<longleftrightarrow> (\<forall>i h t. zo_flush_rq Z i h t = (0, t)) \<and>
     (\<forall>reg a out. zo_register_ifq Z reg a = Inr out \<longrightarrow> (\<exists>k\<le>15. io_rq_entries out = 2 ^ k))"

definition zc_op_ok :: "zcrx_pool \<Rightarrow> zc_op \<Rightarrow> bool" where
  "zc_op_ok p x = (case x of
       Zc_drop c \<Rightarrow> cq_res c < 0 \<or> fst (cq_big c) AND ZCRX_AREA_MASK = z_area_token p
     | Zc_take \<Rightarrow> True)"

definition zc_rel :: "nat \<Rightarrow> zcrx_pool \<Rightarrow> az \<Rightarrow> bool" where
  "zc_rel k p s \<longleftrightarrow> k \<le> 15 \<and> z_ring_entries p = 2 ^ k \<and> z_ktail p = z_rq_tail p \<and> snd s \<le> length (fst s) \<and>
     unat (rq_nr_queued p) = length (fst s) - snd s \<and> length (fst s) - snd s < 2 ^ k \<and>
     unat (z_khead p) mod 2 ^ k = snd s mod 2 ^ k \<and>
     ring_view k (z_rqes p) (snd s) (length (fst s) - snd s) = drop (snd s) (fst s)"

lemma zc_rel_pending: "zc_rel k p s \<Longrightarrow> zc_pending p = drop (snd s) (fst s)"
  using ring_view_mod_cong [of "unat (z_khead p)" k "snd s" "z_rqes p" "unat (rq_nr_queued p)"]
  by (simp add: zc_rel_def zc_pending_def ring_view_def unat_pow2)

lemma zc_offset:
  fixes off tok :: u64
  assumes "off AND ZCRX_AREA_MASK = tok"
  shows "(a + (off AND NOT ZCRX_AREA_MASK) - a) OR tok = off"
proof -
  have "(off AND NOT ZCRX_AREA_MASK) OR (off AND ZCRX_AREA_MASK) = off"
    by (auto simp: bit_eq_iff bit_simps)
  then show ?thesis using assms by simp
qed

lemma zc_enqueue:
  assumes rel: "zc_rel k p (ds, n)"
  shows "\<exists>p1. rq_enqueue ptr sz p = Some p1 \<and> z_ring_entries p1 = 2 ^ k \<and> z_ktail p1 = z_rq_tail p1 \<and>
     unat (rq_nr_queued p1) = Suc (length ds) - n \<and> z_khead p1 = z_khead p \<and> z_rq_tail p1 = z_rq_tail p + 1 \<and>
     z_area_ptr p1 = z_area_ptr p \<and> z_area_token p1 = z_area_token p \<and> z_flags p1 = z_flags p \<and>
     ring_view k (z_rqes p1) n (Suc (length ds) - n) = drop n (ds @ [((ptr - z_area_ptr p) OR z_area_token p, ucast sz)])"
proof -
  have k: "k \<le> 15" and n: "n \<le> length ds" and q: "unat (rq_nr_queued p) = length ds - n" "length ds - n < 2 ^ k"
    and e: "z_ring_entries p = 2 ^ k" and h: "unat (z_khead p) mod 2 ^ k = n mod 2 ^ k"
    and view: "ring_view k (z_rqes p) n (length ds - n) = drop n ds"
    using rel by (simp_all add: zc_rel_def)
  have u: "unat (2 ^ k :: u32) = 2 ^ k" using k by (simp add: unat_pow2)
  have ok: "rq_nr_queued p < z_ring_entries p" using q e u by (simp add: word_less_nat_alt)
  have tail: "z_rq_tail p = z_khead p + of_nat (length ds - n)" unfolding q(1) [symmetric] rq_nr_queued_def by simp
  have "unat (z_rq_tail p AND (2 ^ k - 1)) = (unat (z_khead p) + (length ds - n)) mod 2 ^ k"
    unfolding tail mask_word using k by (intro ring_index) simp
  also have "\<dots> = (n + (length ds - n)) mod 2 ^ k" using h by (metis mod_add_left_eq)
  finally have i: "unat (z_rq_tail p AND (2 ^ k - 1)) = (n + (length ds - n)) mod 2 ^ k" .
  define p1 where "p1 = p\<lparr>z_rqes := (z_rqes p)((n + (length ds - n)) mod 2 ^ k :=
      ((ptr - z_area_ptr p) OR z_area_token p, ucast sz)), z_rq_tail := z_rq_tail p + 1, z_ktail := z_rq_tail p + 1\<rparr>"
  have eq: "rq_enqueue ptr sz p = Some p1"
    unfolding rq_enqueue_def p1_def using ok e i by (simp add: Let_def del: One_nat_def)
  have p2: "(2::nat) ^ k \<le> 2 ^ 15" using k by (rule power_increasing) simp
  have "unat (rq_nr_queued p + 1) = length ds - n + 1" using q p2 by (simp add: unat_word_ariths)
  moreover have "rq_nr_queued p1 = rq_nr_queued p + 1" by (simp add: rq_nr_queued_def p1_def)
  ultimately have "unat (rq_nr_queued p1) = Suc (length ds) - n"
    using n by (simp add: Suc_diff_le)
  moreover have "ring_view k (z_rqes p1) n (Suc (length ds) - n) =
      drop n (ds @ [((ptr - z_area_ptr p) OR z_area_token p, ucast sz)])"
    using ring_view_snoc [OF q(2), of "z_rqes p" n] view n by (simp add: p1_def Suc_diff_le)
  ultimately show ?thesis using eq e by (intro exI [of _ p1]) (simp add: p1_def)
qed

lemma zc_take_rel:
  assumes rel: "zc_rel k p s"
  shows "\<exists>p'. zc_step Z me Zc_take p = Some p' \<and> zc_rel k p' (az_step (2 ^ k) nodev Zc_take s) \<and>
    z_area_token p' = z_area_token p \<and> z_flags p' = z_flags p"
proof (cases "snd s < length (fst s)")
  case False
  then have "rq_nr_queued p = 0" using rel by (simp add: zc_rel_def unat_eq_zero)
  with False rel show ?thesis by (simp add: zc_step_def az_step_def)
next
  case True
  obtain ds n where s: "s = (ds, n)" by (cases s)
  have k: "k \<le> 15" and q: "unat (rq_nr_queued p) = length ds - n" using rel by (simp_all add: zc_rel_def s)
  have nz: "rq_nr_queued p \<noteq> 0" using q True by (auto simp: s)
  then have "unat (rq_nr_queued p - 1) = length ds - Suc n" using q by (simp add: unat_minus_one)
  then have "unat (rq_nr_queued (p\<lparr>z_khead := z_khead p + 1\<rparr>)) = length ds - Suc n"
    by (simp add: rq_nr_queued_def diff_diff_eq)
  moreover have "unat (z_khead p + 1) mod 2 ^ k = Suc n mod 2 ^ k"
    using unat_plus_mod [of k "z_khead p" 1] k rel by (simp add: zc_rel_def s) (metis Suc_eq_plus1 mod_add_left_eq)
  moreover have "ring_view k (z_rqes p) (Suc n) (length ds - Suc n) = drop (Suc n) ds"
    using rel True ring_view_Suc [of k "z_rqes p" n "length ds - Suc n"]
    by (simp add: zc_rel_def s Suc_diff_Suc) (metis drop_Suc list.sel(3) tl_drop)
  ultimately show ?thesis using rel True nz
    by (auto simp: zc_step_def az_step_def s zc_rel_def)
qed

lemma zc_drop_rel:
  assumes Z: "zcrx_contract Z" and rel: "zc_rel k p s" and ok: "zc_op_ok p (Zc_drop c)" and me: "me \<noteq> nullptr"
  shows "\<exists>p'. zc_step Z me (Zc_drop c) p = Some p' \<and>
    zc_rel k p' (az_step (2 ^ k) (z_flags p AND ZCRX_REG_NODEV \<noteq> 0) (Zc_drop c) s) \<and>
    z_area_token p' = z_area_token p \<and> z_flags p' = z_flags p"
proof (cases "cq_res c < 0")
  case True
  with rel show ?thesis by (simp add: zc_step_def az_step_def zc_handle_finish_def mb_reset_def mb_empty_def)
next
  case False
  obtain ds n where s: "s = (ds, n)" by (cases s)
  let ?m = "zc_handle_finish me c p"
  have m: "mb_pool ?m = me" "mb_size ?m = word_of_int (cq_res c)"
    "(mb_data ?m - z_area_ptr p) OR z_area_token p = fst (cq_big c)"
    using False ok zc_offset [of "fst (cq_big c)" "z_area_token p" "z_area_ptr p"]
    by (simp_all add: zc_handle_finish_def zc_op_ok_def)
  have sz: "ucast (word_of_int (cq_res c) :: u64) = (word_of_int (cq_res c) :: u32)"
    by (simp add: bit_eq_iff bit_simps)
  let ?ds = "ds @ [(fst (cq_big c), word_of_int (cq_res c))]"
  from zc_enqueue [OF rel [unfolded s], of "mb_data ?m" "mb_size ?m"] obtain p1 where
    p1: "rq_enqueue (mb_data ?m) (mb_size ?m) p = Some p1" "z_ring_entries p1 = 2 ^ k" "z_ktail p1 = z_rq_tail p1"
      "unat (rq_nr_queued p1) = Suc (length ds) - n" "z_khead p1 = z_khead p"
      "z_area_token p1 = z_area_token p" "z_flags p1 = z_flags p"
    and view: "ring_view k (z_rqes p1) n (Suc (length ds) - n) = drop n ?ds"
    using m sz by auto
  have k: "k \<le> 15" and n: "n \<le> length ds" and h: "unat (z_khead p) mod 2 ^ k = n mod 2 ^ k"
    using rel by (simp_all add: zc_rel_def s)
  have full: "z_ring_entries p1 \<le> rq_nr_queued p1 \<longleftrightarrow> 2 ^ k \<le> Suc (length ds) - n"
    using p1(2,4) k by (simp add: word_le_nat_alt unat_pow2)
  have step: "zc_step Z me (Zc_drop c) p = maybe_flush_rq Z p1"
    using m(1) me p1(1) by (cases "maybe_flush_rq Z p1") (simp_all add: zc_step_def mb_reset_def zc_add_buffer_back_def)
  show ?thesis
  proof (cases "2 ^ k \<le> Suc (length ds) - n \<or> z_flags p AND ZCRX_REG_NODEV \<noteq> 0")
    case True
    define p2 where "p2 = p1\<lparr>z_khead := z_ktail p1\<rparr>"
    have "maybe_flush_rq Z p1 = Some p2"
      using True full p1(7) Z by (auto simp: maybe_flush_rq_def flush_rq_def zcrx_contract_def p2_def)
    moreover have "z_rq_tail p1 = z_khead p + of_nat (Suc (length ds) - n)"
      unfolding p1(4) [symmetric] rq_nr_queued_def p1(5) by simp
    then have "unat (z_rq_tail p1) mod 2 ^ k = (unat (z_khead p) + (Suc (length ds) - n)) mod 2 ^ k"
      using unat_plus_mod [of k "z_khead p" "Suc (length ds) - n"] k by simp
    then have "unat (z_rq_tail p1) mod 2 ^ k = (n + (Suc (length ds) - n)) mod 2 ^ k"
      using h by (metis mod_add_left_eq)
    then have "unat (z_rq_tail p1) mod 2 ^ k = Suc (length ds) mod 2 ^ k" using n by simp
    ultimately show ?thesis using True step p1 k n False
      by (auto simp: zc_rel_def az_step_def s p2_def rq_nr_queued_def Let_def)
  next
    case no: False
    then have "maybe_flush_rq Z p1 = Some p1" using full p1(7) by (simp add: maybe_flush_rq_def)
    then show ?thesis using no step p1 view k n h False
      by (auto simp: zc_rel_def az_step_def s Let_def)
  qed
qed

lemma zc_run_rel:
  assumes Z: "zcrx_contract Z" and me: "me \<noteq> nullptr"
  shows "zc_rel k p s \<Longrightarrow> list_all (zc_op_ok p) xs \<Longrightarrow> \<exists>p'. zc_run Z me xs p = Some p' \<and>
    zc_rel k p' (fold (az_step (2 ^ k) (z_flags p AND ZCRX_REG_NODEV \<noteq> 0)) xs s)"
proof (induction xs arbitrary: p s)
  case (Cons x xs)
  let ?nodev = "z_flags p AND ZCRX_REG_NODEV \<noteq> 0"
  have ok: "zc_op_ok p x" using Cons.prems by simp
  obtain p1 where p1: "zc_step Z me x p = Some p1" "zc_rel k p1 (az_step (2 ^ k) ?nodev x s)"
    "z_area_token p1 = z_area_token p" "z_flags p1 = z_flags p"
  proof (cases x)
    case (Zc_drop c)
    then show ?thesis using zc_drop_rel [OF Z Cons.prems(1) _ me, of c] ok that by blast
  next
    case Zc_take
    then show ?thesis using zc_take_rel [OF Cons.prems(1), of Z me ?nodev] that by blast
  qed
  have "zc_op_ok p1 = zc_op_ok p" using p1(3) by (auto simp: fun_eq_iff zc_op_ok_def split: zc_op.splits)
  with Cons.IH [OF p1(2)] Cons.prems(2) p1 show ?case by simp
qed simp

lemma zc_new_rel:
  assumes Z: "zcrx_contract Z" and new: "zc_new Z if_idx if_rxq rq_entries addr sz flags = Some (Inr p)"
  shows "\<exists>k. unat (z_ring_entries p) = 2 ^ k \<and> zc_rel k p ([], 0)"
proof -
  have reg: "\<exists>k\<le>15. z_ring_entries p = 2 ^ k \<and> z_khead p = 0 \<and> z_ktail p = 0 \<and> z_rq_tail p = 0"
    if "register_ifq Z a b c d e q = Some (Inr p)" "z_khead q = 0" "z_ktail q = 0" for a b c d e q
    using that Z unfolding zcrx_contract_def
    by (fastforce simp: register_ifq_def Let_def massert_def split: sum.splits if_splits)
  obtain a b c d e q where "register_ifq Z a b c d e q = Some (Inr p)" "z_khead q = 0" "z_ktail q = 0"
    using new by (auto simp: zc_new_def zc_guard_def zc_init_def Let_def split: if_splits sum.splits bind_splits)
  from reg [OF this] obtain k where "k \<le> 15" "z_ring_entries p = 2 ^ k" "z_khead p = 0" "z_ktail p = 0" "z_rq_tail p = 0"
    by blast
  then show ?thesis by (intro exI [of _ k]) (simp add: zc_rel_def rq_nr_queued_def unat_pow2)
qed

text \<open>
  C19. The kernel gets back exactly the pieces of memory it handed out: for every sequence of dropped
  receive buffers and of entries that the kernel takes, the refill ring never overflows, no
  assertion fails, and the entries that are still to be taken are, in order, the offsets and lengths
  of the completions whose buffers were dropped.\<close>

theorem zcrx_refill_fifo:
  assumes "zcrx_contract Z" and "me \<noteq> nullptr"
    and "zc_new Z if_idx if_rxq rq_entries addr sz flags = Some (Inr p)"
    and "list_all (zc_op_ok p) xs"
  shows "\<exists>p'. zc_run Z me xs p = Some p' \<and>
    zc_pending p' = (case fold (az_step (unat (z_ring_entries p)) (z_flags p AND ZCRX_REG_NODEV \<noteq> 0)) xs ([], 0)
                     of (ds, n) \<Rightarrow> drop n ds)"
proof -
  obtain k where k: "unat (z_ring_entries p) = 2 ^ k" "zc_rel k p ([], 0)"
    using zc_new_rel [OF assms(1,3)] by blast
  from zc_run_rel [OF assms(1,2) k(2) assms(4)] show ?thesis
    unfolding k(1) by (auto dest!: zc_rel_pending simp: case_prod_beta)
qed

text \<open>An instance of the kernel's part.\<close>

definition sample_zcrx_ops :: "(u64 \<Rightarrow> i32 + ptr) \<Rightarrow> zcrx_ops" where
  "sample_zcrx_ops mmap = \<lparr>zo_page_size = 4096, zo_mmap = mmap,
     zo_munmap = (\<lambda>a n. if a AND 4095 = 0 then 0 else - 1),
     zo_register_ifq = (\<lambda>reg a. if rg_rq_entries reg \<le> 32768 \<and> rg_rq_entries reg = 2
        then Inr \<lparr>io_zcrx_id = 1, io_area_token = 0x3000000000000, io_rq_entries = 2, io_mmap_offset = 0\<rparr>
        else Inl (- EINVAL)),
     zo_mmap_ring = (\<lambda>n off. Inr 0x7000), zo_flush_rq = (\<lambda>i h t. (0, t))\<rparr>"

lemma sample_zcrx_contract: "zcrx_contract (sample_zcrx_ops mmap)"
  by (auto simp: zcrx_contract_def sample_zcrx_ops_def intro: exI [of _ 1] split: if_splits)

definition sample_zc_cqe :: "u64 \<Rightarrow> int \<Rightarrow> cqe" where
  "sample_zc_cqe off n = \<lparr>cq_user_data = 0, cq_res = n, cq_flags = 0, cq_big = (off, 0)\<rparr>"

theorem zcrx_refill_fifo_witness:
  "\<exists>p p'. zc_new (sample_zcrx_ops (\<lambda>n. Inr 0x10000)) 0 0 2 nullptr 8192 0 = Some (Inr p) \<and>
     zc_run (sample_zcrx_ops (\<lambda>n. Inr 0x10000)) 0x8000
       [Zc_drop (sample_zc_cqe 0x3000000001000 100), Zc_take, Zc_drop (sample_zc_cqe 0x3000000000000 64)] p = Some p' \<and>
     zc_pending p' = [(0x3000000000000, 64)]"
proof -
  let ?Z = "sample_zcrx_ops (\<lambda>n. Inr 0x10000)"
  let ?xs = "[Zc_drop (sample_zc_cqe 0x3000000001000 100), Zc_take, Zc_drop (sample_zc_cqe 0x3000000000000 64)]"
  have ceil: "bit_ceil 2 = 2" by code_simp
  obtain p where new: "zc_new ?Z 0 0 2 nullptr 8192 0 = Some (Inr p)"
    and p: "z_ring_entries p = 2" "z_flags p = 0" "z_area_token p = 0x3000000000000"
    by (simp add: zc_new_def sample_zcrx_ops_def register_ifq_def ceil Let_def zc_guard_def zc_init_def)
  have ok: "list_all (zc_op_ok p) ?xs"
    by (simp add: zc_op_ok_def sample_zc_cqe_def p mask_eq_exp_minus_1)
  from zcrx_refill_fifo [where me = "0x8000", OF sample_zcrx_contract _ new ok] new show ?thesis
    by (auto simp: p az_step_def sample_zc_cqe_def)
qed

text \<open>
  When the anonymous mapping of the area fails, the exception never reaches the caller: the
  clean-up unmaps the address \<open>MAP_FAILED\<close>, which \<open>munmap\<close> rejects, and the assertion on its result
  aborts.\<close>

theorem zcrx_failed_mmap_aborts:
  assumes "zo_mmap Z (align_up sz (zo_page_size Z)) = Inl e" and "align_up sz (zo_page_size Z) \<noteq> 0"
    and "\<And>n. zo_munmap Z MAP_FAILED n \<noteq> 0"
  shows "zc_new Z if_idx if_rxq rq_entries nullptr sz flags = None"
proof -
  have "0 < align_up sz (zo_page_size Z)" using assms(2) by (simp add: word_neq_0_conv)
  then show ?thesis
    using assms(1,3) by (simp add: zc_new_def zc_guard_def zc_cleanup_def zc_init_def Let_def)
qed

theorem zcrx_failed_mmap_aborts_witness:
  "zc_new (sample_zcrx_ops (\<lambda>n. Inl 12)) 0 0 2 nullptr 8192 0 = None"
proof -
  have "align_up 8192 4096 = 8192" by (simp add: align_up_def)
  then show ?thesis
    by (intro zcrx_failed_mmap_aborts [where e = 12]) (simp_all add: sample_zcrx_ops_def)
qed

end
