(* ===== verification/Execution.thy ===== *)
theory Execution
  imports Condy_Prelude
begin

text \<open>
  \<open>include/condy/execution.hpp\<close> and \<open>detail/execution.hpp\<close>: the scheduler over a runtime, the
  adapter that turns the results of condy senders into completion signals, and the awaiter with
  which a coroutine waits for a sender of \<open>std::execution\<close>.

  The sender that is awaited is outside the library: it is given by the signal it completes with and
  by whether it does so inside \<open>start\<close>. \<open>std::noop_coroutine()\<close> may return a different handle at
  each call, so the handles that its two calls in the awaiter return are arguments. \<open>None\<close> is
  undefined behaviour: reading a result that is not there or resuming a null handle.
\<close>

section \<open>Completion signals\<close>

text \<open>\<open>std::exception_ptr\<close>, \<open>std::error_code\<close> (of the generic category), and any other error.\<close>

datatype ('x, 'e) ex_error = Exception_ptr 'x | Error_code i32 | Other_error 'e

datatype ('v, 'r) signal = Set_value 'v | Set_error 'r | Set_stopped

section \<open>Scheduler\<close>

record scheduler = sd_runtime :: ptr

definition get_scheduler :: "ptr \<Rightarrow> scheduler" where
  "get_scheduler runtime = \<lparr>sd_runtime = runtime\<rparr>"

definition scheduler_eq :: "scheduler \<Rightarrow> scheduler \<Rightarrow> bool" where
  "scheduler_eq a b \<longleftrightarrow> sd_runtime a = sd_runtime b"

record schedule_op =
  so_runtime :: ptr
  so_receiver :: ptr

text \<open>\<open>schedule\<close> followed by \<open>connect\<close>.\<close>

definition schedule_connect :: "scheduler \<Rightarrow> ptr \<Rightarrow> schedule_op" where
  "schedule_connect s receiver = \<lparr>so_runtime = sd_runtime s, so_receiver = receiver\<rparr>"

definition so_start :: "ptr \<Rightarrow> schedule_op \<Rightarrow> call list" where
  "so_start self op = [Schedule_internal (so_runtime op) self]"

definition so_invoke :: "schedule_op \<Rightarrow> (ptr \<times> (unit, i32) signal) list" where
  "so_invoke op = [(so_receiver op, Set_value ())]"

definition so_completion_scheduler :: "schedule_op \<Rightarrow> scheduler" where
  "so_completion_scheduler op = \<lparr>sd_runtime = so_runtime op\<rparr>"

section \<open>StandardSender\<close>

text \<open>\<open>ReceiverWrapper\<close>: one function per overload of the call operator.\<close>

definition rw_result :: "i32 \<Rightarrow> (i32, ('x, 'e) ex_error) signal" where
  "rw_result res =
     (if 0 \<le> res then Set_value res
      else if res = - ECANCELED then Set_stopped
      else Set_error (Error_code (- res)))"

definition rw_pair :: "i32 \<times> 't \<Rightarrow> (i32 \<times> 't, ('x, 'e) ex_error) signal" where
  "rw_pair res = (case res of (res_code, payload) \<Rightarrow>
     if 0 \<le> res_code then Set_value (res_code, payload)
     else if res_code = - ECANCELED then Set_stopped
     else Set_error (Error_code (- res_code)))"

definition rw_tuple :: "'t \<Rightarrow> ('t, ('x, 'e) ex_error) signal" where
  "rw_tuple res = Set_value res"

definition rw_other :: "'t \<Rightarrow> ('t, ('x, 'e) ex_error) signal" where
  "rw_other res = Set_value res"

text \<open>\<open>OperationStateWrapper::start\<close> starts the wrapped operation without flags.\<close>

definition ow_start :: "(nat \<Rightarrow> 's \<Rightarrow> 's) \<Rightarrow> 's \<Rightarrow> 's" where
  "ow_start start op = start 0 op"

section \<open>WaitSenderAwaiter\<close>

datatype ('x, 'e) thrown = Rethrown 'x | System_error_of i32 | Thrown 'e

datatype ('v, 't) wresult = W_value 'v | W_exception 't | W_stopped

record ('v, 't) wait_awaiter =
  wa_runtime :: ptr
  wa_handle :: ptr
  wa_result :: "('v, 't) wresult option"

definition wa_new :: "ptr \<Rightarrow> ptr \<Rightarrow> ('v, 't) wait_awaiter" where
  "wa_new noop runtime = \<lparr>wa_runtime = runtime, wa_handle = noop, wa_result = None\<rparr>"

definition to_exception :: "('x, 'e) ex_error \<Rightarrow> ('x, 'e) thrown" where
  "to_exception e = (case e of Exception_ptr x \<Rightarrow> Rethrown x | Error_code c \<Rightarrow> System_error_of c | Other_error x \<Rightarrow> Thrown x)"

text \<open>\<open>resume_\<close> yields the handle that it resumes.\<close>

definition wa_resume :: "('v, 't) wait_awaiter \<Rightarrow> (ptr \<times> ('v, 't) wait_awaiter) option" where
  "wa_resume a = do {
     let h = wa_handle a;
     massert (h \<noteq> nullptr);
     Some (h, a\<lparr>wa_handle := nullptr\<rparr>)
   }"

definition wa_complete :: "('v, ('x, 'e) ex_error) signal \<Rightarrow> ('v, ('x, 'e) thrown) wait_awaiter \<Rightarrow>
    (ptr \<times> ('v, ('x, 'e) thrown) wait_awaiter) option" where
  "wa_complete s a =
     wa_resume (a\<lparr>wa_result := Some (case s of
        Set_value v \<Rightarrow> W_value v
      | Set_error e \<Rightarrow> W_exception (to_exception e)
      | Set_stopped \<Rightarrow> W_stopped)\<rparr>)"

text \<open>
  \<open>await_suspend\<close>: \<open>sync\<close> is the signal of a sender that completes inside \<open>start\<close>, and \<open>noop\<close> the
  handle that this call of \<open>std::noop_coroutine()\<close> returns. The result says whether the coroutine
  stays suspended; the handles that were resumed meanwhile are returned too.
\<close>

definition wa_await_suspend :: "ptr \<Rightarrow> ptr \<Rightarrow> ('v, ('x, 'e) ex_error) signal option \<Rightarrow>
    ('v, ('x, 'e) thrown) wait_awaiter \<Rightarrow>
    (bool \<times> ptr list \<times> call list \<times> ('v, ('x, 'e) thrown) wait_awaiter) option" where
  "wa_await_suspend noop handle sync a = do {
     let cs = [Pend_work (wa_runtime a)];
     (hs, a1) \<leftarrow> (case sync of
        Some s \<Rightarrow> do { (h, a1) \<leftarrow> wa_complete s a; Some ([h], a1) }
      | None \<Rightarrow> Some ([], a));
     let h = wa_handle a1;
     Some (h = noop, hs, cs, a1\<lparr>wa_handle := handle\<rparr>)
   }"

text \<open>\<open>await_resume\<close>: an exception, or a value unless the sender was stopped.\<close>

definition wa_await_resume :: "('v, 't) wait_awaiter \<Rightarrow> (('t + 'v option) \<times> call list) option" where
  "wa_await_resume a = do {
     r \<leftarrow> wa_result a;
     Some (case r of W_exception e \<Rightarrow> Inl e | W_stopped \<Rightarrow> Inr None | W_value v \<Rightarrow> Inr (Some v),
           [Resume_work (wa_runtime a)])
   }"

text \<open>
  The whole await: the sender completes inside \<open>start\<close> or later, and the coroutine \<open>handle\<close> goes on
  either because \<open>await_suspend\<close> returns false or because its handle is resumed. The result is what
  the await yields, the calls on the runtime, and how often the coroutine was resumed.
\<close>

definition co_await_sender :: "ptr \<Rightarrow> ptr \<Rightarrow> ptr \<Rightarrow> ptr \<Rightarrow> bool \<Rightarrow> ('v, ('x, 'e) ex_error) signal \<Rightarrow>
    ((('x, 'e) thrown + 'v option) \<times> call list \<times> nat) option" where
  "co_await_sender noop0 noop1 runtime handle sync s = do {
     (suspended, hs, cs, a) \<leftarrow> wa_await_suspend noop1 handle (if sync then Some s else None) (wa_new noop0 runtime);
     if suspended then do {
       massert (\<not> sync);
       (h, a1) \<leftarrow> wa_complete s a;
       massert (h = handle);
       (r, ds) \<leftarrow> wa_await_resume a1;
       Some (r, cs @ ds, count_list (h # hs) handle)
     } else do {
       (r, ds) \<leftarrow> wa_await_resume a;
       Some (r, cs @ ds, Suc (count_list hs handle))
     }
   }"

definition signal_outcome :: "('v, ('x, 'e) ex_error) signal \<Rightarrow> ('x, 'e) thrown + 'v option" where
  "signal_outcome s = (case s of
       Set_value v \<Rightarrow> Inr (Some v) | Set_error e \<Rightarrow> Inl (to_exception e) | Set_stopped \<Rightarrow> Inr None)"

text \<open>
  C20. Awaiting a sender resumes the coroutine exactly once, with the outcome of the sender's signal
  and with the work of the runtime pended and resumed once, for a sender that completes inside
  \<open>start\<close> in any case, and for one that completes later precisely when the two calls of
  \<open>std::noop_coroutine()\<close> return handles that compare equal; otherwise \<open>await_suspend\<close> returns false
  although nothing has completed, and the missing result is read.\<close>

theorem wait_sender_once:
  assumes "handle \<noteq> nullptr" and "noop0 \<noteq> nullptr" and "noop1 \<noteq> nullptr" and "handle \<noteq> noop0"
  shows "co_await_sender noop0 noop1 runtime handle sync s =
    (if sync \<or> noop0 = noop1
     then Some (signal_outcome s, [Pend_work runtime, Resume_work runtime], 1) else None)"
proof (cases sync)
  case True
  have "nullptr \<noteq> noop1" using assms(3) by simp
  with True assms show ?thesis
    by (cases s) (simp_all add: co_await_sender_def wa_await_suspend_def wa_new_def wa_complete_def wa_resume_def
        wa_await_resume_def signal_outcome_def)
next
  case False
  with assms show ?thesis
    by (cases s) (simp_all add: co_await_sender_def wa_await_suspend_def wa_new_def wa_complete_def wa_resume_def
        wa_await_resume_def signal_outcome_def)
qed

theorem wait_sender_once_witness:
  "co_await_sender 0x100 0x100 0x1000 0x2000 False (rw_result 7) =
     Some (Inr (Some 7) :: (unit, unit) thrown + i32 option, [Pend_work 0x1000, Resume_work 0x1000], 1) \<and>
   co_await_sender 0x100 0x108 0x1000 0x2000 False (rw_result 7 :: (i32, (unit, unit) ex_error) signal) = None"
proof
  show "co_await_sender 0x100 0x100 0x1000 0x2000 False (rw_result 7) =
     Some (Inr (Some 7) :: (unit, unit) thrown + i32 option, [Pend_work 0x1000, Resume_work 0x1000], 1)"
    by (subst wait_sender_once) (simp_all add: signal_outcome_def rw_result_def)
  show "co_await_sender 0x100 0x108 0x1000 0x2000 False (rw_result 7 :: (i32, (unit, unit) ex_error) signal) = None"
    by (subst wait_sender_once) simp_all
qed

text \<open>
  The outcome of a condy sender behind the adapter: a result that is not negative is the value,
  \<open>-ECANCELED\<close> is the stopped signal, and any other error is thrown as \<open>std::system_error\<close> with the
  positive error number.
\<close>

lemma standard_sender_outcome:
  "signal_outcome (rw_result res) =
     (if 0 \<le> res then Inr (Some res) else if res = - ECANCELED then Inr None else Inl (System_error_of (- res)))"
  "signal_outcome (rw_pair (res, x)) =
     (if 0 \<le> res then Inr (Some (res, x)) else if res = - ECANCELED then Inr None else Inl (System_error_of (- res)))"
  by (simp_all add: signal_outcome_def rw_result_def rw_pair_def to_exception_def)

end
