(* ===== verification/Co_Script.thy ===== *)
theory Co_Script
  imports Main "HOL-Library.Sublist"
begin

text \<open>
  The vocabulary of the example programs: a coroutine that awaits operations is a function of the
  results that the kernel gives to its operations, one after the other. It returns the log of its
  operations with their results, the results that are left, and how it ended. A coroutine whose
  results run out is still waiting for its last operation. Loops are recursive functions on the list
  of results.

  The theory also has the functions of the C++ string library that the examples use.
\<close>

section \<open>Scripts\<close>

datatype 'a outcome = Waiting | Exited nat | Returned 'a

type_synonym 'o log = "('o \<times> int option) list"
type_synonym ('o, 'a) script = "int list \<Rightarrow> 'o log \<times> int list \<times> 'a outcome"

definition ret :: "'a \<Rightarrow> ('o, 'a) script" where
  "ret x rs = ([], rs, Returned x)"

text \<open>\<open>exit(n)\<close>\<close>

definition quit :: "nat \<Rightarrow> ('o, 'a) script" where
  "quit n rs = ([], rs, Exited n)"

text \<open>An awaited operation, and an effect that needs no answer.\<close>

fun await :: "'o \<Rightarrow> ('o, int) script" where
  "await x [] = ([(x, None)], [], Waiting)"
| "await x (r # rs) = ([(x, Some r)], rs, Returned r)"

definition emit :: "'o \<Rightarrow> ('o, unit) script" where
  "emit x rs = ([(x, None)], rs, Returned ())"

definition andthen :: "('o, 'a) script \<Rightarrow> ('a \<Rightarrow> ('o, 'b) script) \<Rightarrow> ('o, 'b) script" where
  "andthen m f rs = (case m rs of
       (xs, rs1, Returned x) \<Rightarrow> (case f x rs1 of (ys, rs2, y) \<Rightarrow> (xs @ ys, rs2, y))
     | (xs, rs1, Waiting) \<Rightarrow> (xs, rs1, Waiting)
     | (xs, rs1, Exited n) \<Rightarrow> (xs, rs1, Exited n))"

lemma andthen_Returned_iff:
  "andthen m f rs = (zs, rs', Returned y) \<longleftrightarrow>
     (\<exists>xs rs1 x ys. m rs = (xs, rs1, Returned x) \<and> f x rs1 = (ys, rs', Returned y) \<and> zs = xs @ ys)"
  by (auto simp: andthen_def split: prod.splits outcome.splits)

lemma await_Returned_iff:
  "await x rs = (xs, rs', Returned r) \<longleftrightarrow> rs = r # rs' \<and> xs = [(x, Some r)]"
  by (cases rs) auto

lemma ret_Returned_iff: "ret x rs = (xs, rs', Returned y) \<longleftrightarrow> xs = [] \<and> rs' = rs \<and> y = x"
  by (auto simp: ret_def)

lemma quit_Returned_iff: "quit n rs = (xs, rs', Returned y) \<longleftrightarrow> False"
  by (simp add: quit_def)

lemma emit_Returned_iff: "emit x rs = (xs, rs', Returned y) \<longleftrightarrow> xs = [(x, None)] \<and> rs' = rs"
  by (auto simp: emit_def)

lemmas returned_iffs = andthen_Returned_iff await_Returned_iff ret_Returned_iff quit_Returned_iff emit_Returned_iff

section \<open>Strings\<close>

text \<open>\<open>std::string::find\<close>, from the start and from a position.\<close>

fun str_find :: "string \<Rightarrow> string \<Rightarrow> nat option" where
  "str_find pat [] = (if pat = [] then Some 0 else None)"
| "str_find pat (c # cs) = (if prefix pat (c # cs) then Some 0 else map_option Suc (str_find pat cs))"

definition str_find_from :: "string \<Rightarrow> string \<Rightarrow> nat \<Rightarrow> nat option" where
  "str_find_from pat s pos = (if length s < pos then None else map_option ((+) pos) (str_find pat (drop pos s)))"

lemma str_find_SomeD:
  "str_find pat s = Some i \<Longrightarrow> i \<le> length s \<and> prefix pat (drop i s)"
  by (induction pat s arbitrary: i rule: str_find.induct) (auto split: if_splits)

lemma str_find_least:
  "str_find pat s = Some i \<Longrightarrow> j < i \<Longrightarrow> \<not> prefix pat (drop j s)"
proof (induction pat s arbitrary: i j rule: str_find.induct)
  case (2 pat c cs)
  then show ?case by (cases j) (auto split: if_splits)
qed (auto split: if_splits)

lemma str_find_None: "str_find pat s = None \<Longrightarrow> \<not> prefix pat (drop j s)"
proof (induction pat s arbitrary: j rule: str_find.induct)
  case (2 pat c cs)
  then show ?case by (cases j) (auto split: if_splits)
qed (auto split: if_splits)

lemma str_find_iff:
  "str_find pat s = Some i \<longleftrightarrow> i \<le> length s \<and> prefix pat (drop i s) \<and> (\<forall>j<i. \<not> prefix pat (drop j s))"
proof
  assume "i \<le> length s \<and> prefix pat (drop i s) \<and> (\<forall>j<i. \<not> prefix pat (drop j s))"
  then show "str_find pat s = Some i"
    using str_find_SomeD str_find_least str_find_None by (metis not_None_eq linorder_neqE_nat)
qed (auto dest: str_find_SomeD str_find_least)

text \<open>A single character.\<close>

lemma str_find_char: "str_find [c] s = Some i \<longleftrightarrow> (\<exists>a b. s = a @ c # b \<and> length a = i \<and> c \<notin> set a)"
proof (induction s arbitrary: i)
  case (Cons x s)
  show ?case
  proof (cases "x = c")
    case True
    then show ?thesis by (auto simp: Cons_eq_append_conv)
  next
    case False
    have "str_find [c] (x # s) = Some i \<longleftrightarrow> (\<exists>j. i = Suc j \<and> str_find [c] s = Some j)"
      using False by (auto simp: map_option_case split: option.splits)
    also have "\<dots> \<longleftrightarrow> (\<exists>a b. x # s = (x # a) @ c # b \<and> length (x # a) = i \<and> c \<notin> set (x # a))"
      using False unfolding Cons.IH by auto
    also have "\<dots> \<longleftrightarrow> (\<exists>a b. x # s = a @ c # b \<and> length a = i \<and> c \<notin> set a)"
      using False by (metis append_Cons append_Nil list.sel(1) neq_Nil_conv)
    finally show ?thesis .
  qed
qed simp

text \<open>\<open>std::to_string\<close> of a natural number.\<close>

definition digit_char :: "nat \<Rightarrow> char" where
  "digit_char d = char_of (48 + d)"

fun to_string :: "nat \<Rightarrow> string" where
  "to_string n = (if n < 10 then [digit_char n] else to_string (n div 10) @ [digit_char (n mod 10)])"

declare to_string.simps [simp del]

definition int_to_string :: "int \<Rightarrow> string" where
  "int_to_string i = (if i < 0 then CHR ''-'' # to_string (nat (- i)) else to_string (nat i))"

definition is_digit :: "char \<Rightarrow> bool" where
  "is_digit c \<longleftrightarrow> 48 \<le> (of_char c :: nat) \<and> (of_char c :: nat) \<le> 57"

definition digit_value :: "char \<Rightarrow> nat" where
  "digit_value c = of_char c - 48"

text \<open>The value of a sequence of digits.\<close>

definition digits_value :: "string \<Rightarrow> nat" where
  "digits_value = foldl (\<lambda>n c. n * 10 + digit_value c) 0"

lemma digit_char [simp]: "d < 10 \<Longrightarrow> is_digit (digit_char d)" "d < 10 \<Longrightarrow> digit_value (digit_char d) = d"
  by (simp_all add: is_digit_def digit_value_def digit_char_def of_char_of)

lemma to_string_digits: "list_all is_digit (to_string n)"
  by (induction n rule: to_string.induct) (subst to_string.simps, simp)

lemma to_string_not_Nil [simp]: "to_string n \<noteq> []"
  by (subst to_string.simps) simp

lemma digits_value_snoc: "digits_value (s @ [c]) = digits_value s * 10 + digit_value c"
  by (simp add: digits_value_def)

lemma digits_value_to_string: "digits_value (to_string n) = n"
proof (induction n rule: to_string.induct)
  case (1 n)
  show ?case
  proof (cases "n < 10")
    case True
    then show ?thesis by (subst to_string.simps) (simp add: digits_value_def)
  next
    case False
    then show ?thesis using 1 by (subst to_string.simps) (simp add: digits_value_snoc)
  qed
qed

lemma to_string_inj: "to_string m = to_string n \<Longrightarrow> m = n"
  by (metis digits_value_to_string)

end
