(* ===== verification/Ex_File_Server.thy ===== *)
theory Ex_File_Server
  imports Co_Script Condy_Prelude
begin

text \<open>
  \<open>examples/file-server.cpp\<close>: the HTTP file server. What the client sent, the status of the file and
  the pipe that the kernel creates are arguments; the other results of operations come from the
  script.
\<close>

section \<open>Requests\<close>

abbreviation crlf :: string where "crlf \<equiv> [CHR 0x0D, CHR 0x0A]"

definition parse_request :: "string \<Rightarrow> string" where
  "parse_request request =
     (case str_find crlf request of
        None \<Rightarrow> []
      | Some pos \<Rightarrow>
          let request_line = take pos request in
          (case str_find '' '' request_line of
             None \<Rightarrow> []
           | Some method_end \<Rightarrow>
               let path_start = method_end + 1 in
               (case str_find_from '' '' request_line path_start of
                  None \<Rightarrow> []
                | Some path_end \<Rightarrow> take (path_end - path_start) (drop path_start request_line))))"

section \<open>Sessions\<close>

datatype fs_op =
    Fs_recv int
  | Fs_send int string
  | Fs_open string
  | Fs_statx int
  | Fs_pipe
  | Fs_splice int int
  | Fs_close int

definition http_200 :: "int \<Rightarrow> string" where
  "http_200 n = ''HTTP/1.1 200 OK'' @ crlf @ ''Content-Length: '' @ int_to_string n @ crlf @ crlf"

definition http_400 :: string where
  "http_400 = ''HTTP/1.1 400 Bad Request'' @ crlf @ ''Content-Length: 0'' @ crlf @ crlf"

definition http_404 :: string where
  "http_404 = ''HTTP/1.1 404 Not Found'' @ crlf @ ''Content-Length: 0'' @ crlf @ crlf"

definition http_500 :: string where
  "http_500 = ''HTTP/1.1 500 Internal Server Error'' @ crlf @ ''Content-Length: 0'' @ crlf @ crlf"

text \<open>
  The loop of \<open>sendfile\<close>. The two closing operations behind it in the source are never reached: the
  loop has no \<open>break\<close>, and the end of the file returns from the coroutine.
\<close>

fun sendfile_loop :: "int \<Rightarrow> int \<Rightarrow> int \<Rightarrow> int \<Rightarrow> (fs_op, unit) script" where
  "sendfile_loop pr pw out_fd in_fd [] = ([(Fs_splice in_fd pw, None)], [], Waiting)"
| "sendfile_loop pr pw out_fd in_fd [n] =
     (if n = 0 then ([(Fs_splice in_fd pw, Some n)], [], Returned ())
      else if n < 0 then ([(Fs_splice in_fd pw, Some n)], [], Exited 1)
      else ([(Fs_splice in_fd pw, Some n), (Fs_splice pr out_fd, None)], [], Waiting))"
| "sendfile_loop pr pw out_fd in_fd (n # m # rs) =
     (if n = 0 then ([(Fs_splice in_fd pw, Some n)], m # rs, Returned ())
      else if n < 0 then ([(Fs_splice in_fd pw, Some n)], m # rs, Exited 1)
      else if m < 0 then ([(Fs_splice in_fd pw, Some n), (Fs_splice pr out_fd, Some m)], rs, Exited 1)
      else case sendfile_loop pr pw out_fd in_fd rs of
        (xs, rs1, y) \<Rightarrow> ((Fs_splice in_fd pw, Some n) # (Fs_splice pr out_fd, Some m) # xs, rs1, y))"

text \<open>\<open>pipe_fds\<close> is what \<open>pipe\<close> yields, if it succeeds.\<close>

definition sendfile :: "(int \<times> int) option \<Rightarrow> int \<Rightarrow> int \<Rightarrow> (fs_op, unit) script" where
  "sendfile pipe_fds out_fd in_fd =
     andthen (emit Fs_pipe) (\<lambda>_.
       case pipe_fds of
         None \<Rightarrow> quit 1
       | Some (pr, pw) \<Rightarrow> sendfile_loop pr pw out_fd in_fd)"

definition send_and_close :: "int \<Rightarrow> string \<Rightarrow> int list \<Rightarrow> (fs_op, unit) script" where
  "send_and_close client_fd msg fds =
     andthen (await (Fs_send client_fd msg)) (\<lambda>_.
       foldr (\<lambda>fd k. andthen (await (Fs_close fd)) (\<lambda>_. k)) fds (ret ()))"

text \<open>
  \<open>session\<close>: \<open>buffer\<close> is the memory that the kernel fills with the request, \<open>is_reg\<close> and \<open>sz\<close> the
  mode and the size that \<open>statx\<close> reports (the size is cast to \<open>int\<close>), \<open>dir\<close> the directory that is served.
\<close>

definition session :: "string \<Rightarrow> bool \<Rightarrow> int \<Rightarrow> (int \<times> int) option \<Rightarrow> string \<Rightarrow> int \<Rightarrow> (fs_op, unit) script" where
  "session dir is_reg sz pipe_fds buffer client_fd =
     andthen (await (Fs_recv client_fd)) (\<lambda>n.
       if n < 0 then andthen (await (Fs_close client_fd)) (\<lambda>_. ret ())
       else
         let path = parse_request (take (nat n) buffer) in
         if path = [] then send_and_close client_fd http_400 [client_fd]
         else
           let path = (if path = ''/'' then ''/index.html'' else path) in
           andthen (await (Fs_open (dir @ path))) (\<lambda>file_fd.
             if file_fd < 0 then send_and_close client_fd http_404 [client_fd]
             else andthen (await (Fs_statx file_fd)) (\<lambda>r_stat.
               if r_stat < 0 then send_and_close client_fd http_500 [file_fd, client_fd]
               else if \<not> is_reg then send_and_close client_fd http_404 [file_fd, client_fd]
               else andthen (await (Fs_send client_fd (http_200 (sint (word_of_int sz :: u32))))) (\<lambda>_.
                 andthen (sendfile pipe_fds client_fd file_fd) (\<lambda>_.
                   andthen (await (Fs_close file_fd)) (\<lambda>_.
                     andthen (await (Fs_close client_fd)) (\<lambda>_. ret ())))))))"

section \<open>Parsing\<close>

text \<open>
  The parser of requests accepts exactly the requests whose first line has two blanks: a path
  that is not empty is returned if and only if the request is a verb, the path and a rest, divided
  by the first two blanks of the line that the first line break ends.\<close>

theorem parse_request_iff:
  assumes "path \<noteq> []"
  shows "parse_request request = path \<longleftrightarrow>
    (\<exists>pos verb rest. str_find crlf request = Some pos \<and>
       take pos request = verb @ '' '' @ path @ '' '' @ rest \<and>
       CHR '' '' \<notin> set verb \<and> CHR '' '' \<notin> set path)"
proof -
  have step: "(case str_find '' '' l of None \<Rightarrow> []
      | Some e \<Rightarrow> (case str_find_from '' '' l (e + 1) of None \<Rightarrow> []
          | Some pe \<Rightarrow> take (pe - (e + 1)) (drop (e + 1) l))) = path \<longleftrightarrow>
    (\<exists>verb rest. l = verb @ '' '' @ path @ '' '' @ rest \<and> CHR '' '' \<notin> set verb \<and> CHR '' '' \<notin> set path)"
    (is "?f l = path \<longleftrightarrow> ?g l") for l
  proof
    assume f: "?f l = path"
    then obtain e where e: "str_find '' '' l = Some e" using assms by (auto split: option.splits)
    then obtain a b where ab: "l = a @ CHR '' '' # b" "length a = e" "CHR '' '' \<notin> set a"
      by (auto simp: str_find_char)
    then have sf: "str_find_from '' '' l (e + 1) = map_option ((+) (e + 1)) (str_find '' '' b)"
      by (simp add: str_find_from_def)
    then obtain i where i: "str_find '' '' b = Some i" using f e assms by (auto split: option.splits)
    then obtain c d where "b = c @ CHR '' '' # d" "length c = i" "CHR '' '' \<notin> set c"
      by (auto simp: str_find_char)
    with f e sf i ab show "?g l" by auto
  next
    assume "?g l"
    then obtain verb rest where l: "l = verb @ '' '' @ path @ '' '' @ rest"
      "CHR '' '' \<notin> set verb" "CHR '' '' \<notin> set path" by blast
    then have "str_find '' '' l = Some (length verb)" by (auto simp: str_find_char)
    moreover have "str_find '' '' (path @ CHR '' '' # rest) = Some (length path)"
      using l(3) by (auto simp: str_find_char)
    then have "str_find_from '' '' l (length verb + 1) = Some (length verb + 1 + length path)"
      by (simp add: str_find_from_def l(1))
    ultimately show "?f l = path" by (simp add: l(1))
  qed
  show ?thesis
  proof (cases "str_find crlf request")
    case None
    then show ?thesis using assms by (simp add: parse_request_def)
  next
    case (Some pos)
    then show ?thesis using step [of "take pos request"] unfolding parse_request_def Let_def by simp
  qed
qed

theorem parse_request_iff_witness:
  "parse_request (''GET /a HTTP/1.1'' @ crlf @ ''Host: x'') = ''/a''"
proof -
  have "str_find crlf (''GET /a HTTP/1.1'' @ crlf @ ''Host: x'') = Some 15" by simp
  moreover have "take 15 (''GET /a HTTP/1.1'' @ crlf @ ''Host: x'') = ''GET'' @ '' '' @ ''/a'' @ '' '' @ ''HTTP/1.1''"
    by simp
  ultimately show ?thesis
    by (subst parse_request_iff) (simp, intro exI conjI, assumption, assumption, simp_all)
qed

section \<open>File descriptors\<close>

text \<open>The descriptors that a log of operations opens and closes.\<close>

fun fs_opened :: "fs_op log \<Rightarrow> int list" where
  "fs_opened [] = []"
| "fs_opened ((Fs_open p, Some r) # xs) = (if 0 \<le> r then r # fs_opened xs else fs_opened xs)"
| "fs_opened (x # xs) = fs_opened xs"

fun fs_closed :: "fs_op log \<Rightarrow> int list" where
  "fs_closed [] = []"
| "fs_closed ((Fs_close fd, Some r) # xs) = fd # fs_closed xs"
| "fs_closed (x # xs) = fs_closed xs"

text \<open>The bytes that went into the pipe and out of it.\<close>

fun fs_spliced :: "int \<Rightarrow> int \<Rightarrow> fs_op log \<Rightarrow> int" where
  "fs_spliced a b [] = 0"
| "fs_spliced a b ((Fs_splice c d, Some r) # xs) = (if a = c \<and> b = d then r else 0) + fs_spliced a b xs"
| "fs_spliced a b (x # xs) = fs_spliced a b xs"

lemma fs_opened_append [simp]: "fs_opened (xs @ ys) = fs_opened xs @ fs_opened ys"
  by (induction xs rule: fs_opened.induct) auto

lemma fs_closed_append [simp]: "fs_closed (xs @ ys) = fs_closed xs @ fs_closed ys"
  by (induction xs rule: fs_closed.induct) auto

lemma fs_spliced_append [simp]: "fs_spliced a b (xs @ ys) = fs_spliced a b xs + fs_spliced a b ys"
  by (induction a b xs rule: fs_spliced.induct) auto

lemma sendfile_loop_fds:
  "sendfile_loop pr pw out_fd in_fd rs = (xs, rs', y) \<Longrightarrow> fs_opened xs = [] \<and> fs_closed xs = []"
  by (induction pr pw out_fd in_fd rs arbitrary: xs rule: sendfile_loop.induct)
     (auto split: if_splits prod.splits)

lemma sendfile_fds:
  "sendfile pipe_fds out_fd in_fd rs = (xs, rs', Returned y) \<Longrightarrow> fs_opened xs = [] \<and> fs_closed xs = []"
  by (auto simp: sendfile_def returned_iffs split: option.splits dest!: sendfile_loop_fds)

text \<open>
  A session that ends has closed the connection and the file it opened, once each and in this
  order, on every path through it: bad requests, missing files, failures of \<open>statx\<close>, directories and
  complete transfers.\<close>

theorem session_closes:
  assumes "session dir is_reg sz pipe_fds buffer client_fd rs = (xs, rs', Returned ())"
  shows "fs_closed xs = fs_opened xs @ [client_fd]"
  using assms unfolding session_def send_and_close_def Let_def
  by (auto simp: returned_iffs split: if_splits dest!: sendfile_fds)

theorem session_closes_witness:
  "fs_closed (fst (session ''.'' True 5 (Some (8, 9)) (''GET / H'' @ crlf) 5 [9, 6, 0, 40, 5, 5, 0, 0, 0])) = [6, 5]"
proof -
  let ?run = "session ''.'' True 5 (Some (8, 9)) (''GET / H'' @ crlf) 5 [9, 6, 0, 40, 5, 5, 0, 0, 0]"
  have p: "parse_request (''GET / H'' @ crlf) = ''/''" by code_simp
  have run: "snd ?run = ([], Returned ())" and o: "fs_opened (fst ?run) = [6]"
    by (simp_all add: session_def andthen_def p [simplified] sendfile_def emit_def ret_def Let_def)
  from session_closes [of "''.''" True 5 "Some (8, 9)" "''GET / H'' @ crlf" 5 "[9, 6, 0, 40, 5, 5, 0, 0, 0]" "fst ?run" "[]"]
  show ?thesis using run o by (metis append_Cons append_Nil prod.collapse)
qed

text \<open>
  C35. A transfer that returns has not closed the pipe it created. It returns as soon as the file has
  no more bytes: the pipe has got the sum of the first splices and the client the sum of the second
  splices, which only have to be non-negative, so bytes may be left in the pipe.\<close>

theorem sendfile_leaks:
  assumes "sendfile (Some (pr, pw)) out_fd in_fd rs = (xs, rs', Returned ())" and "in_fd \<noteq> pr"
  shows "Fs_pipe \<in> fst ` set xs \<and> fs_closed xs = [] \<and>
    (\<exists>ns ms. length ns = length ms \<and> list_all (\<lambda>n. 0 < n) ns \<and> list_all (\<lambda>m. 0 \<le> m) ms \<and>
       fs_spliced in_fd pw xs = sum_list ns \<and> fs_spliced pr out_fd xs = sum_list ms \<and>
       rs = concat (map2 (\<lambda>n m. [n, m]) ns ms) @ 0 # rs')"
proof -
  have loop: "sendfile_loop pr pw out_fd in_fd rs = (zs, rs', Returned ()) \<Longrightarrow>
      \<exists>ns ms. length ns = length ms \<and> list_all (\<lambda>n. 0 < n) ns \<and> list_all (\<lambda>m. 0 \<le> m) ms \<and>
       fs_spliced in_fd pw zs = sum_list ns \<and> fs_spliced pr out_fd zs = sum_list ms \<and>
       rs = concat (map2 (\<lambda>n m. [n, m]) ns ms) @ 0 # rs'" for zs
    using assms(2)
  proof (induction pr pw out_fd in_fd rs arbitrary: zs rule: sendfile_loop.induct)
    case (2 pr pw out_fd in_fd n)
    then show ?case by (intro exI [of _ "[]"]) (auto split: if_splits)
  next
    case (3 pr pw out_fd in_fd n m rs)
    show ?case
    proof (cases "n = 0")
      case True
      with "3.prems" show ?thesis by (intro exI [of _ "[]"]) auto
    next
      case False
      then obtain ys where n: "0 < n" "0 \<le> m" and ys: "sendfile_loop pr pw out_fd in_fd rs = (ys, rs', Returned ())"
        and zs: "zs = (Fs_splice in_fd pw, Some n) # (Fs_splice pr out_fd, Some m) # ys"
        using "3.prems" by (auto split: if_splits prod.splits)
      from "3.IH" [OF False _ _ ys] n "3.prems"(2) obtain ns ms where
        "length ns = length ms" "list_all (\<lambda>n. 0 < n) ns" "list_all (\<lambda>m. 0 \<le> m) ms"
        "fs_spliced in_fd pw ys = sum_list ns" "fs_spliced pr out_fd ys = sum_list ms"
        "rs = concat (map2 (\<lambda>n m. [n, m]) ns ms) @ 0 # rs'" by auto
      with n "3.prems"(2) show ?thesis
        by (intro exI [of _ "n # ns"] exI [of _ "m # ms"]) (simp add: zs)
    qed
  qed simp
  obtain ys where ys: "sendfile_loop pr pw out_fd in_fd rs = (ys, rs', Returned ())" "xs = (Fs_pipe, None) # ys"
    using assms(1) by (auto simp: sendfile_def returned_iffs)
  from loop [OF ys(1)] show ?thesis using sendfile_loop_fds [OF ys(1)] by (auto simp: ys(2))
qed

theorem sendfile_leaks_witness:
  "\<exists>xs. sendfile (Some (8, 9)) 5 6 [100, 60, 0] = (xs, [], Returned ()) \<and> fs_closed xs = [] \<and>
     fs_spliced 6 9 xs = 100 \<and> fs_spliced 8 5 xs = 60"
proof -
  obtain xs where run: "sendfile (Some (8, 9)) 5 6 [100, 60, 0] = (xs, [], Returned ())"
    and "fs_spliced 6 9 xs = 100" "fs_spliced 8 5 xs = 60"
    by (simp add: sendfile_def andthen_def emit_def)
  with sendfile_leaks [OF run] show ?thesis by auto
qed

end
