(* ===== verification/Ex_Echo_Server.thy ===== *)
theory Ex_Echo_Server
  imports Co_Script
begin

text \<open>
  \<open>examples/echo-server.cpp\<close>: the session of a client, which sends back what it receives.
\<close>

datatype echo_op = Ec_recv int nat | Ec_send int nat | Ec_close int

abbreviation MAX_MESSAGE_LEN :: nat where "MAX_MESSAGE_LEN \<equiv> 2048"

text \<open>\<open>session\<close>: the loop ends by \<open>break\<close>, and then the connection is closed.\<close>

fun echo_session :: "int \<Rightarrow> (echo_op, unit) script" where
  "echo_session fd [] = ([(Ec_recv fd MAX_MESSAGE_LEN, None)], [], Waiting)"
| "echo_session fd [n] =
     (if n \<le> 0 then ([(Ec_recv fd MAX_MESSAGE_LEN, Some n), (Ec_close fd, None)], [], Waiting)
      else ([(Ec_recv fd MAX_MESSAGE_LEN, Some n), (Ec_send fd (nat n), None)], [], Waiting))"
| "echo_session fd (n # m # rs) =
     (if n \<le> 0 then ([(Ec_recv fd MAX_MESSAGE_LEN, Some n), (Ec_close fd, Some m)], rs, Returned ())
      else if m < 0 then
        (case await (Ec_close fd) rs of
           (xs, rs1, Returned r) \<Rightarrow> ((Ec_recv fd MAX_MESSAGE_LEN, Some n) # (Ec_send fd (nat n), Some m) # xs, rs1, Returned ())
         | (xs, rs1, _) \<Rightarrow> ((Ec_recv fd MAX_MESSAGE_LEN, Some n) # (Ec_send fd (nat n), Some m) # xs, rs1, Waiting))
      else case echo_session fd rs of
        (xs, rs1, y) \<Rightarrow> ((Ec_recv fd MAX_MESSAGE_LEN, Some n) # (Ec_send fd (nat n), Some m) # xs, rs1, y))"

fun echo_main :: "int \<Rightarrow> int list \<Rightarrow> int list \<times> int outcome" where
  "echo_main server_fd [] = ([], Waiting)"
| "echo_main server_fd (client_fd # rs) =
     (if client_fd < 0 then ([], Returned 1)
      else case echo_main server_fd rs of (xs, y) \<Rightarrow> (client_fd # xs, y))"

text \<open>Bytes received, bytes offered to \<open>send\<close>, and bytes that \<open>send\<close> took.\<close>

fun ec_received :: "echo_op log \<Rightarrow> int" where
  "ec_received [] = 0"
| "ec_received ((Ec_recv fd k, Some n) # xs) = max 0 n + ec_received xs"
| "ec_received (x # xs) = ec_received xs"

fun ec_offered :: "echo_op log \<Rightarrow> int" where
  "ec_offered [] = 0"
| "ec_offered ((Ec_send fd n, r) # xs) = int n + ec_offered xs"
| "ec_offered (x # xs) = ec_offered xs"

fun ec_closes :: "echo_op log \<Rightarrow> nat" where
  "ec_closes [] = 0"
| "ec_closes ((Ec_close fd, r) # xs) = Suc (ec_closes xs)"
| "ec_closes (x # xs) = ec_closes xs"

text \<open>
  A session offers every received byte to the client exactly once, never exits, and closes its
  connection exactly once when it ends. (A send that takes fewer bytes than it was offered is not
  repeated.)
\<close>

lemma echo_session_echoes:
  "echo_session fd rs = (xs, rs', y) \<Longrightarrow> ec_offered xs = ec_received xs \<and> y \<noteq> Exited k \<and>
     (y = Returned () \<longrightarrow> ec_closes xs = 1)"
proof (induction fd rs arbitrary: xs y rule: echo_session.induct)
  case (3 fd n m rs)
  show ?case
  proof (cases "0 < n \<and> 0 \<le> m")
    case True
    then show ?thesis using 3 by (auto split: prod.splits)
  next
    case False
    then show ?thesis using "3.prems" by (cases rs) (auto split: if_splits)
  qed
qed (auto split: if_splits)

end
