(* ===== verification/Ex_Link_Cp.thy ===== *)
theory Ex_Link_Cp
  imports Async_Operations Co_Script
begin

text \<open>
  \<open>examples/link-cp.cpp\<close>: copying a file with several coroutines that share one offset. Each of them
  takes the next chunk and awaits a read linked to a write. The coroutines run in one thread and give
  up control only where they await, so a run is a sequence of the coroutines that go on, with the
  results of the read and the write they waited for. \<open>None\<close> is the overflow of the signed offset.
\<close>

section \<open>Tasks\<close>

datatype lc_task = Lc_ready | Lc_copying | Lc_ended

record link_cp =
  lc_tasks :: "lc_task list"
  lc_offset :: int
  lc_ops :: "(async_op \<times> async_op) list"    \<comment> \<open>the linked reads and writes, in order\<close>
  lc_exited :: bool

text \<open>
  \<open>lc_chunk\<close> is what a task submits for the chunk at an offset. The conversion of the number of the
  task to the index of its buffer is the identity: a ring has far fewer than $2^{31}$ registered buffers.
\<close>

definition lc_chunk :: "ptr \<Rightarrow> nat \<Rightarrow> int \<Rightarrow> int \<Rightarrow> async_op \<times> async_op" where
  "lc_chunk buffer buffer_index current_offset to_copy =
     (let buf = \<lparr>bf_data = buffer, bf_size = word_of_int to_copy\<rparr> in
      (async_read_fixed (fixed_descriptor 0) (fixed_buf (int buffer_index) buf) (word_of_int current_offset) 0,
       async_write_fixed (fixed_descriptor 1) (fixed_buf (int buffer_index) buf) (word_of_int current_offset) 0))"

text \<open>The head of the loop of \<open>copy_file_task\<close>, up to the next await.\<close>

definition lc_head :: "int \<Rightarrow> int \<Rightarrow> ptr \<Rightarrow> nat \<Rightarrow> link_cp \<Rightarrow> link_cp option" where
  "lc_head chunk_size file_size raw_buffer i s =
     (if lc_offset s < file_size then do {
        let current_offset = lc_offset s;
        massert (current_offset + chunk_size < 2 ^ 63);
        let to_copy = min chunk_size (file_size - current_offset);
        Some (s\<lparr>lc_tasks := (lc_tasks s)[i := Lc_copying], lc_offset := current_offset + chunk_size,
                lc_ops := lc_ops s @ [lc_chunk (raw_buffer + of_nat i * word_of_int chunk_size) i current_offset to_copy]\<rparr>)
      } else Some (s\<lparr>lc_tasks := (lc_tasks s)[i := Lc_ended]\<rparr>))"

definition copy_file_task :: "int \<Rightarrow> int \<Rightarrow> ptr \<Rightarrow> nat \<times> int \<times> int \<Rightarrow> link_cp \<Rightarrow> link_cp option" where
  "copy_file_task chunk_size file_size raw_buffer e s = (case e of (i, r1, r2) \<Rightarrow>
     if lc_exited s \<or> length (lc_tasks s) \<le> i then Some s
     else (case lc_tasks s ! i of
         Lc_ready \<Rightarrow> lc_head chunk_size file_size raw_buffer i s
       | Lc_copying \<Rightarrow>
           if r1 < 0 \<or> r2 < 0 then Some (s\<lparr>lc_exited := True\<rparr>)
           else lc_head chunk_size file_size raw_buffer i s
       | Lc_ended \<Rightarrow> Some s))"

text \<open>\<open>do_file_copy\<close> spawns the tasks; they go on in the order of the events.\<close>

definition lc_spawn :: "nat \<Rightarrow> link_cp" where
  "lc_spawn task_num = \<lparr>lc_tasks = replicate task_num Lc_ready, lc_offset = 0, lc_ops = [], lc_exited = False\<rparr>"

fun do_file_copy :: "int \<Rightarrow> int \<Rightarrow> ptr \<Rightarrow> (nat \<times> int \<times> int) list \<Rightarrow> link_cp \<Rightarrow> link_cp option" where
  "do_file_copy chunk_size file_size raw_buffer [] s = Some s"
| "do_file_copy chunk_size file_size raw_buffer (e # es) s =
     copy_file_task chunk_size file_size raw_buffer e s \<bind> do_file_copy chunk_size file_size raw_buffer es"

section \<open>Chunk sizes on the command line\<close>

text \<open>\<open>std::stoul\<close> in base 10.\<close>

definition is_space :: "char \<Rightarrow> bool" where
  "is_space c \<longleftrightarrow> c = CHR '' '' \<or> 9 \<le> (of_char c :: nat) \<and> (of_char c :: nat) \<le> 13"

definition stoul :: "string \<Rightarrow> u64 result" where
  "stoul str =
     (let s = dropWhile is_space str;
          neg = (s \<noteq> [] \<and> hd s = CHR ''-'');
          s1 = (if s \<noteq> [] \<and> (hd s = CHR ''-'' \<or> hd s = CHR ''+'') then tl s else s);
          ds = takeWhile is_digit s1
      in if ds = [] then Inl (Invalid_argument ''stoul'')
         else if 2 ^ 64 \<le> digits_value ds then Inl (Runtime_error ''out_of_range'')
         else Inr (if neg then - of_nat (digits_value ds) else of_nat (digits_value ds)))"

definition to_lower :: "char \<Rightarrow> char" where
  "to_lower c = (if 65 \<le> (of_char c :: nat) \<and> (of_char c :: nat) \<le> 90 then char_of (of_char c + 32 :: nat) else c)"

text \<open>The character before an empty argument is outside of the string.\<close>

definition get_chunk_size :: "string \<Rightarrow> u64 result option" where
  "get_chunk_size arg = do {
     massert (arg \<noteq> []);
     let len = length arg;
     let suffix = to_lower (last arg);
     let (multiplier, len) =
       (if suffix = CHR ''k'' then (1024, len - 1)
        else if suffix = CHR ''m'' then (1024 * 1024, len - 1)
        else if suffix = CHR ''g'' then (1024 * 1024 * 1024, len - 1)
        else (1, len));
     Some (case stoul (take len arg) of Inl e \<Rightarrow> Inl e | Inr n \<Rightarrow> Inr (n * multiplier))
   }"

section \<open>Every byte is copied once\<close>

text \<open>The range of the file that an operation transfers, read off its submission.\<close>

definition ao_range :: "async_op \<Rightarrow> (nat \<times> nat) option" where
  "ao_range x = (case ao_calls x of
       (f, [fd, b, U n, U off, k]) # cs \<Rightarrow> Some (unat off, unat n)
     | _ \<Rightarrow> None)"

definition lc_range :: "int \<Rightarrow> int \<Rightarrow> nat \<Rightarrow> nat \<times> nat" where
  "lc_range chunk file_size k = (k * nat chunk, min (nat chunk) (nat file_size - k * nat chunk))"

lemma lc_chunk_range:
  assumes "0 \<le> off" "off < 2 ^ 63" "0 \<le> n" "n < 2 ^ 32"
  shows "ao_range (fst (lc_chunk b i off n)) = Some (nat off, nat n)"
    and "ao_range (snd (lc_chunk b i off n)) = Some (nat off, nat n)"
proof -
  have o: "unat (word_of_int off :: u64) = nat off"
    using assms by (simp add: unsigned_of_int take_bit_eq_mod nat_mod_distrib)
  have n: "unat (ucast (ucast (word_of_int n :: u64) :: u32) :: u64) = nat n"
    using assms by (simp add: unsigned_ucast_eq unsigned_of_int take_bit_eq_mod nat_mod_distrib)
  show "ao_range (fst (lc_chunk b i off n)) = Some (nat off, nat n)"
    "ao_range (snd (lc_chunk b i off n)) = Some (nat off, nat n)"
    using o n by (simp_all add: lc_chunk_def Let_def ao_range_def async_defs builder_defs fixed_descriptor_def fixed_buf_def)
qed

definition lc_inv :: "int \<Rightarrow> int \<Rightarrow> link_cp \<Rightarrow> bool" where
  "lc_inv chunk file_size s \<longleftrightarrow> (\<exists>m. lc_offset s = int m * chunk \<and> (0 < m \<longrightarrow> (int m - 1) * chunk < file_size) \<and>
     map (ao_range \<circ> fst) (lc_ops s) = map (Some \<circ> lc_range chunk file_size) [0..<m] \<and>
     map (ao_range \<circ> snd) (lc_ops s) = map (Some \<circ> lc_range chunk file_size) [0..<m]) \<and>
     (Lc_ended \<in> set (lc_tasks s) \<longrightarrow> file_size \<le> lc_offset s)"

lemma lc_head_inv:
  assumes inv: "lc_inv chunk file_size s" and c: "0 < chunk" "chunk < 2 ^ 32"
    and f: "0 \<le> file_size" "file_size + chunk < 2 ^ 63" and i: "i < length (lc_tasks s)"
  shows "\<exists>s'. lc_head chunk file_size raw i s = Some s' \<and> lc_inv chunk file_size s' \<and>
    length (lc_tasks s') = length (lc_tasks s)"
proof (cases "lc_offset s < file_size")
  case False
  then show ?thesis using inv by (auto simp: lc_head_def lc_inv_def)
next
  case True
  obtain m where m: "lc_offset s = int m * chunk"
    and r: "map (ao_range \<circ> fst) (lc_ops s) = map (Some \<circ> lc_range chunk file_size) [0..<m]"
      "map (ao_range \<circ> snd) (lc_ops s) = map (Some \<circ> lc_range chunk file_size) [0..<m]"
    using inv by (auto simp: lc_inv_def)
  let ?n = "min chunk (file_size - lc_offset s)"
  have off: "0 \<le> lc_offset s" using m c by simp
  have nm: "nat (lc_offset s) = m * nat chunk" using m c by (simp add: nat_mult_distrib)
  have "nat ?n = min (nat chunk) (nat file_size - m * nat chunk)"
    using True f off by (simp add: nm [symmetric] min_def nat_diff_distrib)
  then have rng: "(nat (lc_offset s), nat ?n) = lc_range chunk file_size m"
    by (simp add: lc_range_def nm)
  have new: "ao_range (fst (lc_chunk b i (lc_offset s) ?n)) = Some (lc_range chunk file_size m)"
    "ao_range (snd (lc_chunk b i (lc_offset s) ?n)) = Some (lc_range chunk file_size m)" for b
    using lc_chunk_range [of "lc_offset s" ?n b i] True off f c rng by auto
  have noend: "Lc_ended \<notin> set (lc_tasks s)" using inv True by (auto simp: lc_inv_def)
  define s' where "s' = s\<lparr>lc_tasks := (lc_tasks s)[i := Lc_copying], lc_offset := lc_offset s + chunk,
      lc_ops := lc_ops s @ [lc_chunk (raw + of_nat i * word_of_int chunk) i (lc_offset s) ?n]\<rparr>"
  have "lc_head chunk file_size raw i s = Some s'" using True f by (simp add: lc_head_def Let_def s'_def)
  moreover have "lc_inv chunk file_size s'"
  proof -
    have "Lc_ended \<notin> set (lc_tasks s')"
      using noend set_update_subset_insert [of "lc_tasks s" i Lc_copying] by (auto simp: s'_def)
    then show ?thesis unfolding lc_inv_def using m r new True
      by (intro conjI exI [of _ "Suc m"]) (auto simp: s'_def algebra_simps)
  qed
  ultimately show ?thesis by (simp add: s'_def)
qed

lemma copy_file_task_inv:
  assumes "lc_inv chunk file_size s" and "0 < chunk" "chunk < 2 ^ 32" and "0 \<le> file_size" "file_size + chunk < 2 ^ 63"
  shows "\<exists>s'. copy_file_task chunk file_size raw e s = Some s' \<and> lc_inv chunk file_size s' \<and>
    length (lc_tasks s') = length (lc_tasks s)"
proof -
  obtain i r1 r2 where e: "e = (i, r1, r2)" by (cases e)
  have "lc_inv chunk file_size (s\<lparr>lc_exited := True\<rparr>)" using assms(1) by (simp add: lc_inv_def)
  then show ?thesis using lc_head_inv [OF assms(1-5), of i raw] assms(1)
    by (auto simp: copy_file_task_def e split: lc_task.splits)
qed

lemma do_file_copy_inv:
  assumes "0 < chunk" "chunk < 2 ^ 32" "0 \<le> file_size" "file_size + chunk < 2 ^ 63"
  shows "lc_inv chunk file_size s \<Longrightarrow> \<exists>s'. do_file_copy chunk file_size raw es s = Some s' \<and>
    lc_inv chunk file_size s' \<and> length (lc_tasks s') = length (lc_tasks s)"
proof (induction es arbitrary: s)
  case (Cons e es)
  then show ?case using copy_file_task_inv [OF Cons.prems assms, of raw e] by fastforce
qed simp

text \<open>The chunks partition the file.\<close>

lemma lc_ranges_cover:
  assumes "0 < c"
  shows "concat (map (\<lambda>k. [k * c..<k * c + min c (n - k * c)]) [0..<m]) = [0..<min n (m * c)]"
proof (induction m)
  case (Suc m)
  show ?case
  proof (cases "n \<le> m * c")
    case True
    then show ?thesis using Suc by simp
  next
    case False
    then have "m * c + min c (n - m * c) = min n (Suc m * c)" by (auto simp: min_def)
    then have "[0..<min n (Suc m * c)] = [0..<m * c] @ [m * c..<m * c + min c (n - m * c)]"
      using upt_add_eq_append [of 0 "m * c" "min c (n - m * c)"] by simp
    with Suc False show ?thesis by simp
  qed
qed simp

text \<open>
  The copy is complete: for every number of tasks and every order in which their linked reads and
  writes complete, if all tasks have ended then the reads and the writes that were submitted have the
  same ranges and these, put one behind the other, are the bytes of the file from the first to the last, each once; the
  offset does not overflow on the way.\<close>

lemma link_cp_copies_all:
  assumes "0 < chunk_size" and "chunk_size < 2 ^ 32" and "0 \<le> file_size" and "file_size + chunk_size < 2 ^ 63"
    and "0 < task_num"
  shows "\<exists>s. do_file_copy chunk_size file_size raw_buffer es (lc_spawn task_num) = Some s \<and>
    (list_all (\<lambda>t. t = Lc_ended) (lc_tasks s) \<longrightarrow>
       map (ao_range \<circ> fst) (lc_ops s) = map (ao_range \<circ> snd) (lc_ops s) \<and>
       concat (map (\<lambda>x. case ao_range (fst x) of Some (off, n) \<Rightarrow> [off..<off + n] | None \<Rightarrow> []) (lc_ops s)) =
         [0..<nat file_size])"
proof -
  have "lc_inv chunk_size file_size (lc_spawn task_num)"
    by (auto simp: lc_inv_def lc_spawn_def intro: exI [of _ 0])
  from do_file_copy_inv [OF assms(1-4) this, of raw_buffer es] obtain s where
    s: "do_file_copy chunk_size file_size raw_buffer es (lc_spawn task_num) = Some s"
    and inv: "lc_inv chunk_size file_size s" and len: "length (lc_tasks s) = task_num"
    by (auto simp: lc_spawn_def)
  show ?thesis
  proof (intro exI conjI impI)
    show "do_file_copy chunk_size file_size raw_buffer es (lc_spawn task_num) = Some s" by (rule s)
    assume "list_all (\<lambda>t. t = Lc_ended) (lc_tasks s)"
    then have "Lc_ended \<in> set (lc_tasks s)" using len assms(5) by (cases "lc_tasks s") auto
    then obtain m where m: "file_size \<le> int m * chunk_size"
      and r: "map (ao_range \<circ> fst) (lc_ops s) = map (Some \<circ> lc_range chunk_size file_size) [0..<m]"
      and w: "map (ao_range \<circ> snd) (lc_ops s) = map (Some \<circ> lc_range chunk_size file_size) [0..<m]"
      using inv by (auto simp: lc_inv_def)
    show "map (ao_range \<circ> fst) (lc_ops s) = map (ao_range \<circ> snd) (lc_ops s)" unfolding r w ..
    let ?f = "\<lambda>x. case x of Some (off, n) \<Rightarrow> [off..<off + n] | None \<Rightarrow> []"
    have "concat (map (\<lambda>x. ?f (ao_range (fst x))) (lc_ops s)) = concat (map ?f (map (ao_range \<circ> fst) (lc_ops s)))"
      by (simp add: comp_def)
    also have "\<dots> = [0..<min (nat file_size) (m * nat chunk_size)]"
      unfolding r using lc_ranges_cover [of "nat chunk_size" "nat file_size" m] assms(1) by (simp add: comp_def lc_range_def)
    also have "min (nat file_size) (m * nat chunk_size) = nat file_size"
      using m assms(1,3) by (metis min.absorb1 nat_le_iff nat_mult_distrib_neg nat_mono nat_mult_distrib of_nat_0_le_iff nat_int)
    finally show "concat (map (\<lambda>x. ?f (ao_range (fst x))) (lc_ops s)) = [0..<nat file_size]" .
  qed
qed

text \<open>A number with a suffix is read back.\<close>

lemma stoul_to_string: "n < 2 ^ 64 \<Longrightarrow> stoul (to_string n) = Inr (of_nat n)"
proof -
  assume n: "n < 2 ^ 64"
  obtain c cs where c: "to_string n = c # cs" by (cases "to_string n") auto
  then have d: "is_digit c" "list_all is_digit (to_string n)" using to_string_digits [of n] by auto
  have "\<not> is_space c" "c \<noteq> CHR ''-''" "c \<noteq> CHR ''+''" using d(1) by (auto simp: is_digit_def is_space_def)
  moreover have "takeWhile is_digit (to_string n) = to_string n" using d(2) by (simp add: list_all_iff takeWhile_eq_all_conv)
  ultimately show ?thesis using n c by (simp add: stoul_def Let_def digits_value_to_string [of n, unfolded c])
qed

lemma get_chunk_size_suffix:
  assumes "n < 2 ^ 64"
  shows "get_chunk_size (to_string n @ ''k'') = Some (Inr (of_nat n * 1024))"
    and "get_chunk_size (to_string n @ ''M'') = Some (Inr (of_nat n * 1048576))"
    and "get_chunk_size (to_string n @ ''g'') = Some (Inr (of_nat n * 1073741824))"
proof -
  have "to_lower CHR ''k'' = CHR ''k''" "to_lower CHR ''M'' = CHR ''m''" "to_lower CHR ''g'' = CHR ''g''"
    by code_simp+
  then show "get_chunk_size (to_string n @ ''k'') = Some (Inr (of_nat n * 1024))"
    "get_chunk_size (to_string n @ ''M'') = Some (Inr (of_nat n * 1048576))"
    "get_chunk_size (to_string n @ ''g'') = Some (Inr (of_nat n * 1073741824))"
    using stoul_to_string [OF assms] by (simp_all add: get_chunk_size_def Let_def)
qed

end
