(* ===== verification/Buffers.thy ===== *)
theory Buffers
  imports Async_Operations
begin

text \<open>
  \<open>include/condy/buffers.hpp\<close>: the buffers that operations take, made from the objects that hold the
  bytes. A buffer is the record \<open>buffer\<close>; that \<open>ConstBuffer\<close> may not be written through is a matter of
  its type. The overloads take an object by its address, the number of its elements and their size.
\<close>

section \<open>Buffers and their sources\<close>

type_synonym mutable_buffer = buffer
type_synonym const_buffer = buffer

text \<open>The constructors, without arguments and with a pointer and a size.\<close>

fun mutable_buffer :: "(ptr \<times> u64) option \<Rightarrow> mutable_buffer" where
  "mutable_buffer None = \<lparr>bf_data = nullptr, bf_size = 0\<rparr>"
| "mutable_buffer (Some (data, n)) = \<lparr>bf_data = data, bf_size = n\<rparr>"

fun const_buffer :: "(ptr \<times> u64) option \<Rightarrow> const_buffer" where
  "const_buffer None = \<lparr>bf_data = nullptr, bf_size = 0\<rparr>"
| "const_buffer (Some (data, n)) = \<lparr>bf_data = data, bf_size = n\<rparr>"

definition const_of_mutable :: "mutable_buffer \<Rightarrow> const_buffer" where
  "const_of_mutable buf = \<lparr>bf_data = bf_data buf, bf_size = bf_size buf\<rparr>"

definition const_assign :: "const_buffer \<Rightarrow> mutable_buffer \<Rightarrow> const_buffer" where
  "const_assign self buf = self\<lparr>bf_data := bf_data buf, bf_size := bf_size buf\<rparr>"

text \<open>
  The overloads of \<open>buffer\<close>, by their argument: \<open>sizeof\<close> is the size of an element, \<open>N\<close> or \<open>n\<close> the number of
  elements. A vector, string, view or span is its data pointer and its size.
\<close>

datatype source = Pointer ptr u64 | Const_pointer ptr u64
  | Carray u64 u64 ptr | Const_carray u64 u64 ptr
  | Array u64 u64 ptr | Const_array u64 u64 ptr
  | Vector u64 ptr u64 | Const_vector u64 ptr u64
  | String ptr u64 | Const_string ptr u64 | String_view ptr u64
  | Iovec ptr u64
  | Const_span u64 ptr u64 | Span u64 ptr u64

fun buffer_of :: "source \<Rightarrow> buffer" where
  "buffer_of (Pointer data n) = mutable_buffer (Some (data, n))"
| "buffer_of (Const_pointer data n) = const_buffer (Some (data, n))"
| "buffer_of (Carray sizeof N arr) = mutable_buffer (Some (arr, sizeof * N))"
| "buffer_of (Const_carray sizeof N arr) = const_buffer (Some (arr, sizeof * N))"
| "buffer_of (Array sizeof N data) = mutable_buffer (Some (data, sizeof * N))"
| "buffer_of (Const_array sizeof N data) = const_buffer (Some (data, sizeof * N))"
| "buffer_of (Vector sizeof data n) = mutable_buffer (Some (data, sizeof * n))"
| "buffer_of (Const_vector sizeof data n) = const_buffer (Some (data, sizeof * n))"
| "buffer_of (String data n) = mutable_buffer (Some (data, n))"
| "buffer_of (Const_string data n) = const_buffer (Some (data, n))"
| "buffer_of (String_view data n) = const_buffer (Some (data, n))"
| "buffer_of (Iovec base len) = mutable_buffer (Some (base, len))"
| "buffer_of (Const_span sizeof data n) = const_buffer (Some (data, n * sizeof))"
| "buffer_of (Span sizeof data n) = mutable_buffer (Some (data, n * sizeof))"

text \<open>Where the elements of a source are: the first, the size of one, and how many.\<close>

fun elements :: "source \<Rightarrow> ptr \<times> u64 \<times> u64" where
  "elements (Pointer data n) = (data, 1, n)"
| "elements (Const_pointer data n) = (data, 1, n)"
| "elements (Carray sizeof N arr) = (arr, sizeof, N)"
| "elements (Const_carray sizeof N arr) = (arr, sizeof, N)"
| "elements (Array sizeof N data) = (data, sizeof, N)"
| "elements (Const_array sizeof N data) = (data, sizeof, N)"
| "elements (Vector sizeof data n) = (data, sizeof, n)"
| "elements (Const_vector sizeof data n) = (data, sizeof, n)"
| "elements (String data n) = (data, 1, n)"
| "elements (Const_string data n) = (data, 1, n)"
| "elements (String_view data n) = (data, 1, n)"
| "elements (Iovec base len) = (base, 1, len)"
| "elements (Const_span sizeof data n) = (data, sizeof, n)"
| "elements (Span sizeof data n) = (data, sizeof, n)"

section \<open>Exactly the elements\<close>

text \<open>
  A buffer holds the bytes of the elements of its source and no others, as long as the object fits into
  the address space, as every object does.
\<close>

definition in_buffer :: "u64 \<Rightarrow> buffer \<Rightarrow> bool" where
  "in_buffer a b \<longleftrightarrow> unat (bf_data b) \<le> unat a \<and> unat a < unat (bf_data b) + unat (bf_size b)"

definition in_element :: "u64 \<Rightarrow> ptr \<Rightarrow> u64 \<Rightarrow> nat \<Rightarrow> bool" where
  "in_element a data sizeof i \<longleftrightarrow>
     unat data + i * unat sizeof \<le> unat a \<and> unat a < unat data + (i + 1) * unat sizeof"

lemma elements_cover:
  fixes z n :: nat
  assumes "0 < z"
  shows "(d \<le> a \<and> a < d + z * n) \<longleftrightarrow> (\<exists>i<n. d + i * z \<le> a \<and> a < d + (i + 1) * z)"
proof
  assume a: "d \<le> a \<and> a < d + z * n"
  let ?i = "(a - d) div z"
  have "?i < n" using a assms by (intro less_mult_imp_div_less) (simp add: mult.commute, linarith)
  moreover have "?i * z \<le> a - d" by simp
  moreover have "a - d < (?i + 1) * z" using assms dividend_less_div_times [of z "a - d"] by (simp add: algebra_simps)
  ultimately show "\<exists>i<n. d + i * z \<le> a \<and> a < d + (i + 1) * z" using a by (intro exI [of _ ?i]) linarith
next
  assume "\<exists>i<n. d + i * z \<le> a \<and> a < d + (i + 1) * z"
  then obtain i where i: "i < n" "d + i * z \<le> a" "a < d + (i + 1) * z" by blast
  have "(i + 1) * z \<le> n * z" using i(1) by (intro mult_le_mono1) simp
  then show "d \<le> a \<and> a < d + z * n" using i(2,3) by (simp add: mult.commute)
qed

lemma mult_fits: "unat (x :: u64) * unat y < 2 ^ 64 \<Longrightarrow> unat (x * y) = unat x * unat y"
  by (simp add: unat_word_ariths)

lemma buffer_exact:
  assumes "elements src = (d, sizeof, n)" and "0 < unat sizeof" and "unat sizeof * unat n < 2 ^ 64"
  shows "in_buffer a (buffer_of src) \<longleftrightarrow> (\<exists>i < unat n. in_element a d sizeof i)"
proof -
  have "bf_data (buffer_of src) = d \<and> unat (bf_size (buffer_of src)) = unat sizeof * unat n"
    using assms(1) mult_fits [OF assms(3)] by (cases src) (auto simp: mult.commute)
  then show ?thesis using elements_cover [OF assms(2), of "unat d" "unat a" "unat n"] by (simp add: in_buffer_def in_element_def)
qed

lemma const_of_mutable_same: "in_buffer a (const_of_mutable b) = in_buffer a b" "const_assign c b = const_of_mutable b"
  by (simp_all add: const_of_mutable_def const_assign_def in_buffer_def)

text \<open>
  An operation gets the whole object: the entry that is queued for \<open>async_recv\<close> into a vector names its
  first byte and the number of its bytes.
\<close>

lemma recv_whole_vector:
  "ao_calls (async_recv sockfd (buffer_of (Vector sizeof d n)) flags) =
     liburing ''io_uring_prep_recv'' [unwrap_fixed sockfd, P d, U (sizeof * n), I flags]"
  by (cases sockfd) (simp_all add: async_recv_def maybe_flag_fixed_fd_def make_op_awaiter_def)

end
