(* ===== verification/Ex_Link_Cp_Program.thy ===== *)
theory Ex_Link_Cp_Program
  imports Ex_Link_Cp Buffers
begin

text \<open>
  \<open>examples/link-cp.cpp\<close> as a whole: \<open>co_main\<close> opens and measures the files, \<open>do_file_copy\<close> allocates and
  registers one buffer for each task before it spawns the tasks of \<open>Ex_Link_Cp\<close>, and gives everything back
  after the last of them. The results of the operations and of \<open>posix_memalign\<close>, the address that it
  allocates, and the size that \<open>statx\<close> reports are inputs. What is printed and the clock are left out.
\<close>

section \<open>The files\<close>

abbreviation (input) O_RDONLY :: i32 where "O_RDONLY \<equiv> 0"
abbreviation (input) O_WRONLY :: i32 where "O_WRONLY \<equiv> 1"
abbreviation (input) O_CREAT :: i32 where "O_CREAT \<equiv> 64"
abbreviation (input) O_DIRECT :: i32 where "O_DIRECT \<equiv> 16384"
abbreviation (input) AT_STATX_SYNC_AS_STAT :: i32 where "AT_STATX_SYNC_AS_STAT \<equiv> 0"
abbreviation (input) STATX_SIZE :: u32 where "STATX_SIZE \<equiv> 0x200"
abbreviation (input) POSIX_FADV_SEQUENTIAL :: i32 where "POSIX_FADV_SEQUENTIAL \<equiv> 2"

datatype lc_event =
    Lc_op async_op
  | Lc_memalign u64 u64          \<comment> \<open>alignment, size\<close>
  | Lc_fds_init u64
  | Lc_fds_update u32 "i32 list"
  | Lc_bufs_init u64
  | Lc_bufs_update u32 "buffer list" u32
  | Lc_free ptr

text \<open>The two operations of a pair are awaited together: nothing is decided before both have ended.\<close>

definition await_both :: "async_op \<Rightarrow> async_op \<Rightarrow> (lc_event, int \<times> int) script" where
  "await_both x y = andthen (await (Lc_op x)) (\<lambda>r1. andthen (await (Lc_op y)) (\<lambda>r2. ret (r1, r2)))"

definition lc_open :: "bool \<Rightarrow> ptr \<Rightarrow> ptr \<Rightarrow> ptr \<Rightarrow> u64 \<Rightarrow> (lc_event, int \<times> int) script" where
  "lc_open use_direct infile outfile statx_buf stx_size =
     (let flags = (if use_direct then O_DIRECT else 0) in
      andthen (await_both (async_open infile (O_RDONLY OR flags) 0)
                (async_open outfile (O_WRONLY OR O_CREAT OR flags) 0x1A4)) (\<lambda>(infd, outfd).
      if infd < 0 \<or> outfd < 0 then quit 1 else
      andthen (await (Lc_op (async_statx AT_FDCWD infile AT_STATX_SYNC_AS_STAT STATX_SIZE statx_buf))) (\<lambda>r_stat.
      if r_stat < 0 then quit 1 else
      if use_direct \<and> stx_size mod 4096 \<noteq> 0 then quit 1 else
      ret (infd, outfd))))"

section \<open>The buffers\<close>

definition lc_iovs :: "u64 \<Rightarrow> u64 \<Rightarrow> ptr \<Rightarrow> buffer list" where
  "lc_iovs task_num chunk_size raw_buffer =
     map (\<lambda>i. \<lparr>bf_data = raw_buffer + of_nat i * chunk_size, bf_size = chunk_size\<rparr>) [0..<unat task_num]"

text \<open>The results of the registrations are not looked at.\<close>

definition lc_register :: "u64 \<Rightarrow> u64 \<Rightarrow> ptr \<Rightarrow> int \<Rightarrow> int \<Rightarrow> int \<Rightarrow> (lc_event, unit) script" where
  "lc_register task_num chunk_size raw_buffer infd outfd file_size =
     andthen (await (Lc_memalign 4096 (task_num * chunk_size))) (\<lambda>r.
     if r \<noteq> 0 then quit 1 else
     andthen (emit (Lc_fds_init 2)) (\<lambda>_.
     andthen (emit (Lc_fds_update 0 [infd, outfd])) (\<lambda>_.
     andthen (emit (Lc_bufs_init task_num)) (\<lambda>_.
     andthen (emit (Lc_bufs_update 0 (lc_iovs task_num chunk_size raw_buffer) (ucast task_num))) (\<lambda>_.
     andthen (await (Lc_op (async_fadvise (Fd infd) 0 file_size POSIX_FADV_SEQUENTIAL))) (\<lambda>r_fadvise.
     if r_fadvise < 0 then quit 1 else ret ()))))))"

definition lc_finish :: "ptr \<Rightarrow> int \<Rightarrow> int \<Rightarrow> (lc_event, unit) script" where
  "lc_finish raw_buffer infd outfd =
     andthen (emit (Lc_free raw_buffer)) (\<lambda>_.
     andthen (await_both (async_close infd) (async_close outfd)) (\<lambda>_. ret ()))"

section \<open>The program\<close>

text \<open>
  \<open>rs\<close> are the results of the operations before and after the copying, \<open>es\<close> the completions of the tasks
  meanwhile. The result has the log before the copying, the state of the tasks, the log after it, and how the
  program ended.
\<close>

record lc_input =
  li_task_num :: u64
  li_chunk_size :: u64
  li_use_direct :: bool
  li_infile :: ptr
  li_outfile :: ptr
  li_statx_buf :: ptr
  li_stx_size :: u64
  li_raw_buffer :: ptr

definition lc_start :: "lc_input \<Rightarrow> (lc_event, int \<times> int) script" where
  "lc_start p =
     andthen (lc_open (li_use_direct p) (li_infile p) (li_outfile p) (li_statx_buf p) (li_stx_size p)) (\<lambda>(infd, outfd).
     andthen (lc_register (li_task_num p) (li_chunk_size p) (li_raw_buffer p) infd outfd (sint (li_stx_size p))) (\<lambda>_.
     ret (infd, outfd)))"

definition lc_co_main :: "lc_input \<Rightarrow> int list \<Rightarrow> (nat \<times> int \<times> int) list \<Rightarrow>
    (lc_event log \<times> link_cp option \<times> lc_event log \<times> unit outcome) option" where
  "lc_co_main p rs es = (case lc_start p rs of
       (log, rs1, Exited n) \<Rightarrow> Some (log, None, [], Exited n)
     | (log, rs1, Waiting) \<Rightarrow> Some (log, None, [], Waiting)
     | (log, rs1, Returned (infd, outfd)) \<Rightarrow> do {
         s \<leftarrow> do_file_copy (sint (li_chunk_size p)) (sint (li_stx_size p)) (li_raw_buffer p) es
                (lc_spawn (unat (li_task_num p)));
         Some (if lc_exited s then (log, Some s, [], Exited 1)
               else if \<not> list_all (\<lambda>t. t = Lc_ended) (lc_tasks s) then (log, Some s, [], Waiting)
               else (case lc_finish (li_raw_buffer p) infd outfd rs1 of (log2, rs2, y) \<Rightarrow> (log, Some s, log2, y)))
       })"

section \<open>Operations and their buffers\<close>

text \<open>The index and the memory that an operation on a registered buffer names, read off its submission.\<close>

definition ao_memory :: "async_op \<Rightarrow> (int \<times> buffer) option" where
  "ao_memory x = (case ao_calls x of
       (f, [fd, P b, U n, off, I k]) # cs \<Rightarrow> Some (k, \<lparr>bf_data = b, bf_size = n\<rparr>)
     | _ \<Rightarrow> None)"

definition uses_own :: "buffer list \<Rightarrow> async_op \<Rightarrow> bool" where
  "uses_own bufs x \<longleftrightarrow> (case ao_memory x of
       Some (k, b) \<Rightarrow> 0 \<le> k \<and> nat k < length bufs \<and> bf_data b = bf_data (bufs ! nat k) \<and> bf_size b \<le> bf_size (bufs ! nat k)
     | None \<Rightarrow> False)"

lemma sint_small:
  fixes c :: u64
  assumes "unat c < 2 ^ 63"
  shows "sint c = int (unat c)"
proof -
  have "uint c < 2 ^ 63" using of_nat_less_iff [of "unat c" "2 ^ 63", where ?'a = int] assms by simp
  then have "signed_take_bit 63 (uint c) = uint c"
    by (intro signed_take_bit_int_eq_self) (simp_all add: order_trans [OF _ uint_ge_0])
  then show ?thesis by (simp add: sint_uint)
qed

lemma lc_chunk_own:
  assumes "i < unat task_num" "0 \<le> n" "n \<le> sint chunk" "unat chunk < 2 ^ 32"
  shows "uses_own (lc_iovs task_num chunk raw) (fst (lc_chunk (raw + of_nat i * word_of_int (sint chunk)) i off n))"
    "uses_own (lc_iovs task_num chunk raw) (snd (lc_chunk (raw + of_nat i * word_of_int (sint chunk)) i off n))"
proof -
  have s: "sint chunk = uint chunk" "uint chunk < 2 ^ 32"
    using sint_small [of chunk] assms(4) of_nat_less_iff [of "unat chunk" "2 ^ 32", where ?'a = int] by simp_all
  have "uint (ucast (ucast (word_of_int n :: u64) :: u32) :: u64) = n"
    using assms(2,3) s by (simp add: unsigned_ucast_eq unsigned_of_int take_bit_eq_mod)
  then have "ucast (ucast (word_of_int n :: u64) :: u32) \<le> chunk"
    using assms s by (simp add: word_le_def)
  then show "uses_own (lc_iovs task_num chunk raw) (fst (lc_chunk (raw + of_nat i * word_of_int (sint chunk)) i off n))"
    "uses_own (lc_iovs task_num chunk raw) (snd (lc_chunk (raw + of_nat i * word_of_int (sint chunk)) i off n))"
    using assms(1) by (simp_all add: lc_chunk_def Let_def uses_own_def ao_memory_def lc_iovs_def async_defs builder_defs
        fixed_descriptor_def fixed_buf_def)
qed

definition lc_owned :: "buffer list \<Rightarrow> link_cp \<Rightarrow> bool" where
  "lc_owned bufs s \<longleftrightarrow> length (lc_tasks s) = length bufs \<and>
     list_all (\<lambda>(r, w). uses_own bufs r \<and> uses_own bufs w) (lc_ops s)"

lemma lc_head_owned:
  assumes own: "lc_owned (lc_iovs task_num chunk raw) s" and c: "0 < chunk" "unat chunk < 2 ^ 32"
    and head: "lc_head (sint chunk) file_size raw i s = Some s'" and i: "i < length (lc_tasks s)"
  shows "lc_owned (lc_iovs task_num chunk raw) s'"
proof (cases "lc_offset s < file_size")
  case False
  then have "s' = s\<lparr>lc_tasks := (lc_tasks s)[i := Lc_ended]\<rparr>" using head by (simp add: lc_head_def)
  then show ?thesis using own by (simp add: lc_owned_def)
next
  case True
  let ?n = "min (sint chunk) (file_size - lc_offset s)"
  let ?x = "lc_chunk (raw + of_nat i * word_of_int (sint chunk)) i (lc_offset s) ?n"
  have s': "s' = s\<lparr>lc_tasks := (lc_tasks s)[i := Lc_copying], lc_offset := lc_offset s + sint chunk, lc_ops := lc_ops s @ [?x]\<rparr>"
    using head True by (simp add: lc_head_def Let_def bind_eq_Some_conv)
  have "0 < unat chunk" using c(1) by (simp add: word_less_nat_alt)
  then have "0 < sint chunk" using sint_small [of chunk] c(2) by (simp del: of_nat_unat)
  then have n: "0 \<le> ?n" "?n \<le> sint chunk" using True by simp_all
  have "i < unat task_num" using own i by (simp add: lc_owned_def lc_iovs_def)
  from lc_chunk_own [OF this n c(2)] show ?thesis
    using own unfolding s' lc_owned_def by (simp add: case_prod_beta)
qed

lemma copy_file_task_cases:
  assumes "copy_file_task c file_size raw (i, r1, r2) s = Some s'"
  shows "s' = s \<or> s' = s\<lparr>lc_exited := True\<rparr> \<or> lc_head c file_size raw i s = Some s' \<and> i < length (lc_tasks s)"
proof (cases "lc_exited s \<or> length (lc_tasks s) \<le> i")
  case True
  then show ?thesis using assms by (simp add: copy_file_task_def)
next
  case False
  then show ?thesis using assms
    by (cases "lc_tasks s ! i"; cases "r1 < 0 \<or> r2 < 0") (simp_all add: copy_file_task_def)
qed

lemma copy_file_task_owned:
  assumes own: "lc_owned (lc_iovs task_num chunk raw) s" and "0 < chunk" "unat chunk < 2 ^ 32"
    and run: "copy_file_task (sint chunk) file_size raw e s = Some s'"
  shows "lc_owned (lc_iovs task_num chunk raw) s'"
proof -
  obtain i r1 r2 where e: "e = (i, r1, r2)" by (cases e)
  have "lc_owned (lc_iovs task_num chunk raw) (s\<lparr>lc_exited := True\<rparr>)" using own by (simp add: lc_owned_def)
  then show ?thesis using copy_file_task_cases [OF run [unfolded e]] own lc_head_owned [OF assms(1-3)] by blast
qed

lemma do_file_copy_owned:
  assumes "0 < chunk" "unat chunk < 2 ^ 32"
  shows "lc_owned (lc_iovs task_num chunk raw) s \<Longrightarrow> do_file_copy (sint chunk) file_size raw es s = Some s' \<Longrightarrow>
    lc_owned (lc_iovs task_num chunk raw) s'"
proof (induction es arbitrary: s)
  case (Cons e es)
  then obtain s1 where "copy_file_task (sint chunk) file_size raw e s = Some s1"
    and "do_file_copy (sint chunk) file_size raw es s1 = Some s'" by (auto simp: bind_eq_Some_conv)
  with Cons copy_file_task_owned [OF Cons.prems(1) assms] show ?case by blast
qed simp

text \<open>Slices of an allocation that does not wrap around.\<close>

lemma slice_address:
  fixes raw c :: u64
  assumes "unat raw + n * unat c < 2 ^ 64" "i < n"
  shows "unat (raw + of_nat i * c) = unat raw + i * unat c"
proof -
  have "i * unat c \<le> n * unat c" using assms(2) by simp
  then have b: "unat raw + i * unat c < 2 ^ 64" using assms(1) by linarith
  have "raw + of_nat i * c = of_nat (unat raw + i * unat c)" by simp
  also have "unat \<dots> = unat raw + i * unat c" using b by (simp add: unat_of_nat del: of_nat_add of_nat_mult)
  finally show ?thesis .
qed

lemma lc_iovs_slices:
  assumes "unat raw + unat task_num * unat chunk < 2 ^ 64"
  shows "\<forall>b \<in> set (lc_iovs task_num chunk raw). \<forall>a. in_buffer a b \<longrightarrow> in_buffer a \<lparr>bf_data = raw, bf_size = task_num * chunk\<rparr>"
    and "i < j \<Longrightarrow> j < unat task_num \<Longrightarrow>
      \<not> (in_buffer a (lc_iovs task_num chunk raw ! i) \<and> in_buffer a (lc_iovs task_num chunk raw ! j))"
proof -
  have t: "unat (task_num * chunk) = unat task_num * unat chunk"
    using assms by (simp add: unat_word_ariths)
  have "in_buffer a \<lparr>bf_data = raw, bf_size = task_num * chunk\<rparr>"
    if "i < unat task_num" "in_buffer a \<lparr>bf_data = raw + of_nat i * chunk, bf_size = chunk\<rparr>" for i a
  proof -
    have "Suc i * unat chunk \<le> unat task_num * unat chunk" using that(1) by (intro mult_le_mono1) simp
    then show ?thesis using that(2) slice_address [OF assms that(1)] by (simp add: in_buffer_def t)
  qed
  then show "\<forall>b \<in> set (lc_iovs task_num chunk raw). \<forall>a. in_buffer a b \<longrightarrow> in_buffer a \<lparr>bf_data = raw, bf_size = task_num * chunk\<rparr>"
    by (auto simp: lc_iovs_def)
  show "\<not> (in_buffer a (lc_iovs task_num chunk raw ! i) \<and> in_buffer a (lc_iovs task_num chunk raw ! j))"
    if "i < j" "j < unat task_num"
  proof -
    have "Suc i * unat chunk \<le> j * unat chunk" using that(1) by (intro mult_le_mono1) simp
    then show ?thesis using that slice_address [OF assms, of i] slice_address [OF assms, of j]
      by (simp add: in_buffer_def lc_iovs_def)
  qed
qed

section \<open>The whole copy\<close>

lemma lc_start_returns:
  assumes "lc_start p rs = (log, rs1, Returned (infd, outfd))"
  shows "0 \<le> infd" and "0 \<le> outfd"
    and "(Lc_fds_update 0 [infd, outfd], None) \<in> set log"
    and "(Lc_bufs_update 0 (lc_iovs (li_task_num p) (li_chunk_size p) (li_raw_buffer p)) (ucast (li_task_num p)), None) \<in> set log"
    and "(Lc_memalign 4096 (li_task_num p * li_chunk_size p), Some 0) \<in> set log"
    and "(Lc_op (async_open (li_infile p) (O_RDONLY OR (if li_use_direct p then O_DIRECT else 0)) 0), Some infd) \<in> set log"
    and "(Lc_op (async_open (li_outfile p) (O_WRONLY OR O_CREAT OR (if li_use_direct p then O_DIRECT else 0)) 0x1A4), Some outfd) \<in> set log"
  using assms
  by (auto simp: lc_start_def lc_open_def lc_register_def await_both_def Let_def returned_iffs
      split: prod.splits if_splits)

lemma lc_finish_log:
  assumes "lc_finish raw infd outfd rs = (log, rs', Returned ())"
  shows "map fst log = [Lc_free raw, Lc_op (async_close infd), Lc_op (async_close outfd)]"
  using assms by (auto simp: lc_finish_def await_both_def returned_iffs split: prod.splits)

lemma lc_co_main_returns:
  assumes "lc_co_main p rs es = Some (l1, Some s, l2, Returned ())"
  obtains rs1 rs2 infd outfd where "lc_start p rs = (l1, rs1, Returned (infd, outfd))"
    and "do_file_copy (sint (li_chunk_size p)) (sint (li_stx_size p)) (li_raw_buffer p) es (lc_spawn (unat (li_task_num p))) = Some s"
    and "list_all (\<lambda>t. t = Lc_ended) (lc_tasks s)"
    and "lc_finish (li_raw_buffer p) infd outfd rs1 = (l2, rs2, Returned ())"
proof -
  obtain log rs1 y where start: "lc_start p rs = (log, rs1, y)" by (cases "lc_start p rs")
  with assms obtain infd outfd where y: "y = Returned (infd, outfd)"
    by (cases y) (auto simp: lc_co_main_def)
  obtain log2 rs2 z where finish: "lc_finish (li_raw_buffer p) infd outfd rs1 = (log2, rs2, z)"
    by (cases "lc_finish (li_raw_buffer p) infd outfd rs1")
  have "log = l1 \<and> log2 = l2 \<and> z = Returned () \<and> list_all (\<lambda>t. t = Lc_ended) (lc_tasks s) \<and>
    do_file_copy (sint (li_chunk_size p)) (sint (li_stx_size p)) (li_raw_buffer p) es (lc_spawn (unat (li_task_num p))) = Some s"
    using assms by (auto simp: lc_co_main_def start y finish bind_eq_Some_conv split: if_splits)
  with start y finish show ?thesis by (intro that [of rs1 infd outfd rs2]) simp_all
qed

lemma lc_bounds:
  assumes "0 < li_chunk_size p" and "unat (li_chunk_size p) < 2 ^ 32"
    and "unat (li_stx_size p) + unat (li_chunk_size p) < 2 ^ 63"
  shows "0 < sint (li_chunk_size p)" "sint (li_chunk_size p) < 2 ^ 32" "0 \<le> sint (li_stx_size p)"
    "sint (li_stx_size p) + sint (li_chunk_size p) < 2 ^ 63" "nat (sint (li_stx_size p)) = unat (li_stx_size p)"
proof -
  have c: "sint (li_chunk_size p) = int (unat (li_chunk_size p))" by (rule sint_small) (use assms(2) in simp)
  have f: "sint (li_stx_size p) = int (unat (li_stx_size p))" by (rule sint_small) (use assms(3) in linarith)
  have "0 < unat (li_chunk_size p)" using assms(1) by (simp add: word_less_nat_alt)
  then show "0 < sint (li_chunk_size p)" "sint (li_chunk_size p) < 2 ^ 32" "0 \<le> sint (li_stx_size p)"
    "sint (li_stx_size p) + sint (li_chunk_size p) < 2 ^ 63" "nat (sint (li_stx_size p)) = unat (li_stx_size p)"
    using assms(2,3) by (simp_all add: c f del: of_nat_unat)
qed

lemma lc_co_main_defined:
  assumes "0 < li_task_num p" and "0 < li_chunk_size p" and "unat (li_chunk_size p) < 2 ^ 32"
    and "unat (li_stx_size p) + unat (li_chunk_size p) < 2 ^ 63"
  shows "lc_co_main p rs es \<noteq> None"
proof -
  have "0 < unat (li_task_num p)" using assms(1) by (simp add: word_less_nat_alt)
  then obtain s where "do_file_copy (sint (li_chunk_size p)) (sint (li_stx_size p)) (li_raw_buffer p) es
      (lc_spawn (unat (li_task_num p))) = Some s"
    using link_cp_copies_all [OF lc_bounds(1-4) [OF assms(2-4)], of "unat (li_task_num p)" "li_raw_buffer p" es] by blast
  then show ?thesis by (simp add: lc_co_main_def split: prod.splits outcome.splits)
qed

text \<open>
  C24. The whole program: no run overflows the offset, whatever the results of the operations are and in
  whatever order they come. When \<open>co_main\<close> returns, for every order in which the linked reads and writes
  complete, the reads and the writes that were submitted have the same ranges and these, put one behind the
  other, are the bytes of the file, each once. Each of them uses the registered buffer of its index, from its
  start and within its size; the registered buffers lie in the allocated memory and do not overlap. The
  descriptors that were opened are the registered ones; the memory is freed and both are closed, in this
  order, after the last operation.\<close>

theorem link_cp_program_copies:
  assumes "0 < li_task_num p" and "0 < li_chunk_size p" and "unat (li_chunk_size p) < 2 ^ 32"
    and "unat (li_stx_size p) + unat (li_chunk_size p) < 2 ^ 63"
    and "unat (li_raw_buffer p) + unat (li_task_num p) * unat (li_chunk_size p) < 2 ^ 64"
    and "lc_co_main p rs es = Some (l1, Some s, l2, Returned ())"
  shows "(\<forall>rs' es'. lc_co_main p rs' es' \<noteq> None) \<and>
    map (ao_range \<circ> fst) (lc_ops s) = map (ao_range \<circ> snd) (lc_ops s) \<and>
    concat (map (\<lambda>x. case ao_range (fst x) of Some (off, n) \<Rightarrow> [off..<off + n] | None \<Rightarrow> []) (lc_ops s)) =
      [0..<unat (li_stx_size p)] \<and>
    (\<exists>bufs infd outfd.
       list_all (\<lambda>(r, w). uses_own bufs r \<and> uses_own bufs w) (lc_ops s) \<and>
       (\<forall>b \<in> set bufs. \<forall>a. in_buffer a b \<longrightarrow>
          in_buffer a \<lparr>bf_data = li_raw_buffer p, bf_size = li_task_num p * li_chunk_size p\<rparr>) \<and>
       (\<forall>j < length bufs. \<forall>i < j. \<forall>a. \<not> (in_buffer a (bufs ! i) \<and> in_buffer a (bufs ! j))) \<and>
       (Lc_memalign 4096 (li_task_num p * li_chunk_size p), Some 0) \<in> set l1 \<and>
       (Lc_bufs_update 0 bufs (ucast (li_task_num p)), None) \<in> set l1 \<and>
       (Lc_op (async_open (li_infile p) (O_RDONLY OR (if li_use_direct p then O_DIRECT else 0)) 0), Some infd) \<in> set l1 \<and>
       (Lc_op (async_open (li_outfile p) (O_WRONLY OR O_CREAT OR (if li_use_direct p then O_DIRECT else 0)) 0x1A4), Some outfd) \<in> set l1 \<and>
       (Lc_fds_update 0 [infd, outfd], None) \<in> set l1 \<and>
       map fst l2 = [Lc_free (li_raw_buffer p), Lc_op (async_close infd), Lc_op (async_close outfd)])"
proof -
  let ?c = "li_chunk_size p" and ?n = "li_task_num p" and ?raw = "li_raw_buffer p"
  let ?bufs = "lc_iovs ?n ?c ?raw"
  from assms(6) obtain rs1 rs2 infd outfd where start: "lc_start p rs = (l1, rs1, Returned (infd, outfd))"
    and copy: "do_file_copy (sint ?c) (sint (li_stx_size p)) ?raw es (lc_spawn (unat ?n)) = Some s"
    and ended: "list_all (\<lambda>t. t = Lc_ended) (lc_tasks s)"
    and finish: "lc_finish ?raw infd outfd rs1 = (l2, rs2, Returned ())"
    by (rule lc_co_main_returns)
  have "0 < unat ?n" using assms(1) by (simp add: word_less_nat_alt)
  from link_cp_copies_all [OF lc_bounds(1-4) [OF assms(2-4)] this, of ?raw es] copy ended
  have ranges: "map (ao_range \<circ> fst) (lc_ops s) = map (ao_range \<circ> snd) (lc_ops s)"
    "concat (map (\<lambda>x. case ao_range (fst x) of Some (off, n) \<Rightarrow> [off..<off + n] | None \<Rightarrow> []) (lc_ops s)) =
       [0..<unat (li_stx_size p)]" by (simp_all add: lc_bounds(5) [OF assms(2-4)])
  have "lc_owned ?bufs (lc_spawn (unat ?n))" by (simp add: lc_owned_def lc_spawn_def lc_iovs_def)
  from do_file_copy_owned [OF assms(2,3) this copy]
  have own: "list_all (\<lambda>(r, w). uses_own ?bufs r \<and> uses_own ?bufs w) (lc_ops s)" by (simp add: lc_owned_def)
  have len: "length ?bufs = unat ?n" by (simp add: lc_iovs_def)
  have apart: "\<forall>j < length ?bufs. \<forall>i < j. \<forall>a. \<not> (in_buffer a (?bufs ! i) \<and> in_buffer a (?bufs ! j))"
    unfolding len using lc_iovs_slices(2) [OF assms(5)] by blast
  have defined: "\<forall>rs' es'. lc_co_main p rs' es' \<noteq> None" using lc_co_main_defined [OF assms(1-4)] by blast
  show ?thesis
    using ranges
    by (intro conjI exI [of _ ?bufs] exI [of _ infd] exI [of _ outfd])
      (rule defined own apart lc_start_returns [OF start] lc_finish_log [OF finish] lc_iovs_slices(1) [OF assms(5)] | assumption)+
qed

definition sample_input :: lc_input where
  "sample_input = \<lparr>li_task_num = 2, li_chunk_size = 4, li_use_direct = False, li_infile = 0x10, li_outfile = 0x20,
     li_statx_buf = 0x30, li_stx_size = 10, li_raw_buffer = 0x1000\<rparr>"

theorem link_cp_program_copies_witness:
  "\<exists>l1 s l2. lc_co_main sample_input [5, 6, 0, 0, 0, 0, 0]
       [(0, 0, 0), (1, 0, 0), (1, 4, 4), (0, 4, 4), (1, 2, 2)] = Some (l1, Some s, l2, Returned ()) \<and>
     concat (map (\<lambda>x. case ao_range (fst x) of Some (off, n) \<Rightarrow> [off..<off + n] | None \<Rightarrow> []) (lc_ops s)) = [0..<10] \<and>
     length (lc_ops s) = 3"
proof -
  let ?rs = "[5, 6, 0, 0, 0, 0, 0] :: int list"
  let ?es = "[(0, 0, 0), (1, 0, 0), (1, 4, 4), (0, 4, 4), (1, 2, 2)] :: (nat \<times> int \<times> int) list"
  obtain s where s: "do_file_copy 4 10 0x1000 ?es (lc_spawn 2) = Some s" "\<not> lc_exited s"
    "list_all (\<lambda>t. t = Lc_ended) (lc_tasks s)" "length (lc_ops s) = 3"
    by (simp add: copy_file_task_def lc_head_def lc_spawn_def numeral_2_eq_2 Let_def)
  then obtain l1 l2 where run: "lc_co_main sample_input ?rs ?es = Some (l1, Some s, l2, Returned ())"
    by (simp add: lc_co_main_def sample_input_def lc_start_def lc_open_def lc_register_def lc_finish_def await_both_def
        andthen_def ret_def emit_def Let_def del: do_file_copy.simps)
  have "[0..<unat (li_stx_size sample_input)] = [0..<10]" by (simp add: sample_input_def)
  with run s(4) link_cp_program_copies [of sample_input, OF _ _ _ _ _ run] show ?thesis
    by (intro exI [of _ l1] exI [of _ s] exI [of _ l2]) (simp add: sample_input_def)
qed

end
