(* ===== verification/Ex_Fuse_Prime.thy ===== *)
theory Ex_Fuse_Prime
  imports Condy_Prelude Co_Script
begin

text \<open>
  \<open>examples/fuse-prime-fs.cpp\<close>: a file system over the integers. A prime is a file that holds its
  decimal digits, any other number a directory of the smaller numbers. The structures of the FUSE
  protocol are records with the fields that the server sets; the header of a request and the header
  of its reply are the same memory, so one record holds both. \<open>None\<close> is a failed assertion, a
  division by zero, or a loop that does not return.
\<close>

section \<open>The tree of numbers\<close>

text \<open>\<open>is_prime_\<close>: the square of the counter wraps around.\<close>

partial_function (option) is_prime_loop :: "u64 \<Rightarrow> u64 \<Rightarrow> bool option" where
  "is_prime_loop n i =
     (if i * i \<le> n then
        if i = 0 then None
        else if n mod i = 0 then Some False
        else is_prime_loop n (i + 1)
      else Some True)"

definition is_prime :: "u64 \<Rightarrow> bool option" where
  "is_prime n = (if n < 2 then Some False else is_prime_loop n 2)"

record fuse_server =
  fs_number :: u64
  fs_now :: int
  fs_uid :: u32
  fs_gid :: u32

abbreviation ROOT_NODEID :: u64 where "ROOT_NODEID \<equiv> 1"

definition num_of :: "fuse_server \<Rightarrow> u64 \<Rightarrow> u64" where
  "num_of srv nodeid = (if nodeid = ROOT_NODEID then fs_number srv else nodeid)"

definition is_dir :: "fuse_server \<Rightarrow> u64 \<Rightarrow> bool option" where
  "is_dir srv nodeid =
     (if nodeid = ROOT_NODEID then Some True else map_option Not (is_prime (num_of srv nodeid)))"

section \<open>Requests and replies\<close>

abbreviation ENOENT :: i32 where "ENOENT \<equiv> 2"
abbreviation ENOTDIR :: i32 where "ENOTDIR \<equiv> 20"
abbreviation EISDIR :: i32 where "EISDIR \<equiv> 21"
abbreviation ENOSYS :: i32 where "ENOSYS \<equiv> 38"
abbreviation EPROTO :: i32 where "EPROTO \<equiv> 71"
abbreviation EOPNOTSUPP :: i32 where "EOPNOTSUPP \<equiv> 95"
abbreviation ENOTCONN :: i32 where "ENOTCONN \<equiv> 107"

datatype fuse_opcode = FUSE_LOOKUP | FUSE_GETATTR | FUSE_OPEN | FUSE_OPENDIR | FUSE_READ | FUSE_READDIR
  | FUSE_STATFS | FUSE_RELEASE | FUSE_RELEASEDIR | FUSE_FLUSH | FUSE_FSYNC | FUSE_FSYNCDIR | FUSE_ACCESS
  | FUSE_DESTROY | FUSE_INIT | FUSE_OTHER nat

record fuse_attr =
  at_ino :: u64
  at_size :: u64
  at_blocks :: u64
  at_atime :: int
  at_mtime :: int
  at_ctime :: int
  at_mode :: u32
  at_nlink :: nat
  at_uid :: u32
  at_gid :: u32
  at_blksize :: nat

record fuse_dirent =
  de_ino :: u64
  de_off :: u64
  de_dir :: bool
  de_name :: string

datatype fuse_payload =
    P_none
  | P_entry u64 fuse_attr
  | P_attr fuse_attr
  | P_open
  | P_data string
  | P_dirents "fuse_dirent list"
  | P_statfs

text \<open>
  A request slot: opcode, node and unique identifier of the request, the arguments of a read
  (\<open>fuse_read_in\<close>), the name in the payload, the identifier to commit, and what a reply writes.
\<close>

record fuse_slot =
  sl_opcode :: fuse_opcode
  sl_nodeid :: u64
  sl_unique :: u64
  sl_read_off :: u64
  sl_read_size :: nat
  sl_name :: string
  sl_commit_id :: u64
  sl_out_len :: nat
  sl_out_error :: i32
  sl_payload_sz :: nat
  sl_payload :: fuse_payload

abbreviation out_header_size :: nat where "out_header_size \<equiv> 16"

definition reply_err :: "i32 \<Rightarrow> fuse_slot \<Rightarrow> fuse_slot" where
  "reply_err err r = r\<lparr>sl_out_len := out_header_size, sl_out_error := err, sl_payload_sz := 0\<rparr>"

text \<open>\<open>MAX_PAYLOAD_SZ\<close> depends on the page size and is an argument.\<close>

definition reply_ok :: "nat \<Rightarrow> fuse_payload \<Rightarrow> nat \<Rightarrow> fuse_slot \<Rightarrow> fuse_slot option" where
  "reply_ok max_payload data sz r = do {
     massert (sz \<le> max_payload);
     Some (r\<lparr>sl_out_error := 0, sl_payload := data, sl_out_len := out_header_size + sz, sl_payload_sz := sz\<rparr>)
   }"

text \<open>\<open>S_IFDIR\<close> with the permissions 0755, and \<open>S_IFREG\<close> with 0444.\<close>

abbreviation DIR_MODE :: u32 where "DIR_MODE \<equiv> 0x41ED"
abbreviation FILE_MODE :: u32 where "FILE_MODE \<equiv> 0x8124"

definition fill_attr :: "fuse_server \<Rightarrow> u64 \<Rightarrow> bool \<Rightarrow> u64 \<Rightarrow> fuse_attr" where
  "fill_attr srv ino dir sz =
     \<lparr>at_ino = ino, at_size = sz, at_blocks = (sz + 511) div 512, at_atime = fs_now srv,
      at_mtime = fs_now srv, at_ctime = fs_now srv, at_mode = (if dir then DIR_MODE else FILE_MODE),
      at_nlink = (if dir then 2 else 1), at_uid = fs_uid srv, at_gid = fs_gid srv, at_blksize = 4096\<rparr>"

definition node_size :: "bool \<Rightarrow> u64 \<Rightarrow> u64" where
  "node_size dir num = (if dir then 4096 else of_nat (length (to_string (unat num)) + 1))"

text \<open>\<open>std::from_chars\<close> for \<open>uint64_t\<close>: the value if it fits, and what is left of the text.\<close>

definition from_chars :: "string \<Rightarrow> (u64 \<times> string) option" where
  "from_chars name =
     (let ds = takeWhile is_digit name in
      if ds = [] \<or> 2 ^ 64 \<le> digits_value ds then None
      else Some (of_nat (digits_value ds), dropWhile is_digit name))"

section \<open>Operations of the file system\<close>

definition do_lookup :: "nat \<Rightarrow> fuse_server \<Rightarrow> fuse_slot \<Rightarrow> fuse_slot option" where
  "do_lookup mp srv r = do {
     let parent = sl_nodeid r;
     d \<leftarrow> is_dir srv parent;
     if \<not> d then Some (reply_err (- ENOTDIR) r)
     else (case from_chars (sl_name r) of
         None \<Rightarrow> Some (reply_err (- ENOENT) r)
       | Some (num, rest) \<Rightarrow>
           if rest \<noteq> [] \<or> num \<le> 1 \<or> num_of srv parent \<le> num then Some (reply_err (- ENOENT) r)
           else do {
             dir \<leftarrow> is_dir srv num;
             reply_ok mp (P_entry num (fill_attr srv num dir (node_size dir num))) 128 r
           })
   }"

definition do_getattr :: "nat \<Rightarrow> fuse_server \<Rightarrow> fuse_slot \<Rightarrow> fuse_slot option" where
  "do_getattr mp srv r = do {
     let num = num_of srv (sl_nodeid r);
     dir \<leftarrow> is_dir srv (sl_nodeid r);
     reply_ok mp (P_attr (fill_attr srv (sl_nodeid r) dir (node_size dir num))) 104 r
   }"

definition do_open :: "nat \<Rightarrow> fuse_slot \<Rightarrow> fuse_slot option" where
  "do_open mp r = reply_ok mp P_open 16 r"

definition do_read :: "nat \<Rightarrow> fuse_server \<Rightarrow> fuse_slot \<Rightarrow> fuse_slot option" where
  "do_read mp srv r = do {
     let num = num_of srv (sl_nodeid r);
     dir \<leftarrow> is_dir srv (sl_nodeid r);
     if \<not> dir then do {
       let content = to_string (unat num) @ [CHR 0x0A];
       let off = min (unat (sl_read_off r)) (length content);
       let n = min (sl_read_size r) (length content - off);
       reply_ok mp (P_data (take n (drop off content))) n r
     } else Some (reply_err (- EISDIR) r)
   }"

text \<open>\<open>FUSE_REC_ALIGN(FUSE_NAME_OFFSET + namelen)\<close>\<close>

definition dirent_size :: "string \<Rightarrow> nat" where
  "dirent_size name = (24 + length name + 7) div 8 * 8"

text \<open>The loop over the entries; \<open>emit\<close> refuses an entry that does not fit.\<close>

partial_function (option) readdir_loop :: "fuse_server \<Rightarrow> u64 \<Rightarrow> nat \<Rightarrow> u64 \<Rightarrow> nat \<Rightarrow> fuse_dirent list \<Rightarrow>
    (nat \<times> fuse_dirent list) option" where
  "readdir_loop srv num max_reply i used es =
     (if i + 2 < num then
        is_dir srv (i + 2) \<bind> (\<lambda>dir.
          let n = i + 2;
              name = to_string (unat n);
              reclen = dirent_size name
          in if max_reply < used + reclen then Some (used, es)
             else readdir_loop srv num max_reply (i + 1) (used + reclen)
                    (es @ [\<lparr>de_ino = n, de_off = i + 1, de_dir = dir, de_name = name\<rparr>]))
      else Some (used, es))"

definition do_readdir :: "nat \<Rightarrow> fuse_server \<Rightarrow> fuse_slot \<Rightarrow> fuse_slot option" where
  "do_readdir mp srv r = do {
     let max_reply = min (sl_read_size r) mp;
     let num = num_of srv (sl_nodeid r);
     dir \<leftarrow> is_dir srv (sl_nodeid r);
     if \<not> dir then Some (reply_err (- ENOTDIR) r)
     else do {
       (used, es) \<leftarrow> readdir_loop srv num max_reply (sl_read_off r) 0 [];
       reply_ok mp (P_dirents es) used r
     }
   }"

definition do_statfs :: "nat \<Rightarrow> fuse_slot \<Rightarrow> fuse_slot option" where
  "do_statfs mp r = reply_ok mp P_statfs 80 r"

definition fuse_handle :: "nat \<Rightarrow> fuse_server \<Rightarrow> fuse_slot \<Rightarrow> fuse_slot option" where
  "fuse_handle mp srv r = (case sl_opcode r of
       FUSE_LOOKUP \<Rightarrow> do_lookup mp srv r
     | FUSE_GETATTR \<Rightarrow> do_getattr mp srv r
     | FUSE_OPEN \<Rightarrow> do_open mp r
     | FUSE_OPENDIR \<Rightarrow> do_open mp r
     | FUSE_READ \<Rightarrow> do_read mp srv r
     | FUSE_READDIR \<Rightarrow> do_readdir mp srv r
     | FUSE_STATFS \<Rightarrow> do_statfs mp r
     | FUSE_RELEASE \<Rightarrow> Some (reply_err 0 r)
     | FUSE_RELEASEDIR \<Rightarrow> Some (reply_err 0 r)
     | FUSE_FLUSH \<Rightarrow> Some (reply_err 0 r)
     | FUSE_FSYNC \<Rightarrow> Some (reply_err 0 r)
     | FUSE_FSYNCDIR \<Rightarrow> Some (reply_err 0 r)
     | FUSE_ACCESS \<Rightarrow> Some (reply_err 0 r)
     | FUSE_DESTROY \<Rightarrow> Some (reply_err 0 r)
     | _ \<Rightarrow> Some (reply_err (- ENOSYS) r))"

text \<open>\<open>check_init_request\<close>; the size of the request structure and the version of the protocol are
  arguments.\<close>

definition check_init_request :: "nat \<Rightarrow> nat \<Rightarrow> fuse_opcode \<Rightarrow> nat \<Rightarrow> nat \<Rightarrow> nat \<Rightarrow> i32" where
  "check_init_request req_size version opcode major minor n =
     (if n < req_size then - EPROTO
      else if opcode \<noteq> FUSE_INIT then - EPROTO
      else if major \<noteq> version then - EPROTO
      else if minor < 42 then - EOPNOTSUPP
      else 0)"

text \<open>
  \<open>io_loop\<close>: an event is the result of a register or commit command together with the slot that the
  kernel has filled by then. The log has the commands with the identifier and the reply they commit.
\<close>

datatype fuse_cmd = Fuse_register u16 | Fuse_commit u16 u64 fuse_slot

fun io_serve :: "nat \<Rightarrow> fuse_server \<Rightarrow> u16 \<Rightarrow> fuse_slot \<Rightarrow> (int \<times> fuse_slot) list \<Rightarrow> (fuse_cmd list \<times> unit outcome) option" where
  "io_serve mp srv qid r [] = do {
     r1 \<leftarrow> fuse_handle mp srv r;
     Some ([Fuse_commit qid (sl_commit_id r) r1], Waiting)
   }"
| "io_serve mp srv qid r ((res, r2) # es) = do {
     r1 \<leftarrow> fuse_handle mp srv r;
     if res = - ENOTCONN then Some ([Fuse_commit qid (sl_commit_id r) r1], Returned ())
     else if res < 0 then Some ([Fuse_commit qid (sl_commit_id r) r1], Exited 1)
     else do {
       (cs, y) \<leftarrow> io_serve mp srv qid r2 es;
       Some (Fuse_commit qid (sl_commit_id r) r1 # cs, y)
     }
   }"

fun io_loop :: "nat \<Rightarrow> fuse_server \<Rightarrow> u16 \<Rightarrow> (int \<times> fuse_slot) list \<Rightarrow> (fuse_cmd list \<times> unit outcome) option" where
  "io_loop mp srv qid [] = Some ([Fuse_register qid], Waiting)"
| "io_loop mp srv qid ((res, r) # es) =
     (if res = - ENOTCONN then Some ([Fuse_register qid], Returned ())
      else if res < 0 then Some ([Fuse_register qid], Exited 1)
      else do {
        (cs, y) \<leftarrow> io_serve mp srv qid r es;
        Some (Fuse_register qid # cs, y)
      })"

section \<open>Primality\<close>

definition prime_nat :: "nat \<Rightarrow> bool" where
  "prime_nat n \<longleftrightarrow> 2 \<le> n \<and> (\<forall>d. 2 \<le> d \<longrightarrow> d < n \<longrightarrow> \<not> d dvd n)"

lemma prime_nat_sqrt:
  assumes "2 \<le> n" and "n < i * i" and small: "\<And>d. 2 \<le> d \<Longrightarrow> d < i \<Longrightarrow> \<not> d dvd n"
  shows "prime_nat n"
  unfolding prime_nat_def
proof (intro conjI allI impI notI)
  show "2 \<le> n" by (rule assms)
  fix d assume d: "2 \<le> d" "d < n" "d dvd n"
  then obtain e where e: "n = d * e" by blast
  then have e2: "2 \<le> e" using d assms(1) by (cases "e = 0 \<or> e = 1") auto
  show False
  proof (cases "d < i")
    case True
    then show False using small d by blast
  next
    case False
    then have "e < i" using assms(2) e by (metis leI le_less_trans mult_le_mono not_less)
    then show False using small [of e] e e2 by simp
  qed
qed

lemma unat_square: "unat i < 2 ^ 32 \<Longrightarrow> unat (i * i :: u64) = unat i * unat i"
proof -
  assume i: "unat i < 2 ^ 32"
  then have "unat i * unat i < 2 ^ 32 * 2 ^ 32" by (intro mult_strict_mono) auto
  then show ?thesis by (simp add: unat_word_ariths)
qed

lemma is_prime_loop_correct:
  assumes "2 \<le> unat n" and "unat n \<le> (2 ^ 32 - 1) ^ 2" and "2 \<le> unat i" and "unat i \<le> 2 ^ 32 - 1"
    and "\<And>d. 2 \<le> d \<Longrightarrow> d < unat i \<Longrightarrow> \<not> d dvd unat n" and "unat i \<le> unat n"
  shows "is_prime_loop n i = Some (prime_nat (unat n))"
  using assms(3-6)
proof (induction "2 ^ 32 - unat i" arbitrary: i rule: less_induct)
  case less
  have sq: "unat (i * i) = unat i * unat i" by (rule unat_square) (use less.prems(2) in simp)
  have le: "i * i \<le> n \<longleftrightarrow> unat i * unat i \<le> unat n" by (simp add: word_le_nat_alt sq)
  have nz: "i \<noteq> 0" using less.prems(1) by auto
  show ?case
  proof (cases "i * i \<le> n")
    case False
    have "prime_nat (unat n)" by (rule prime_nat_sqrt [of _ "unat i"]) (use False le less.prems assms(1) in auto)
    then show ?thesis using False by (subst is_prime_loop.simps) simp
  next
    case True
    have dvd: "n mod i = 0 \<longleftrightarrow> unat i dvd unat n"
      by (simp add: word_unat_eq_iff unat_mod mod_eq_0_iff_dvd)
    have lt: "unat i < unat n"
    proof -
      have "2 * unat i \<le> unat i * unat i" using less.prems(1) by simp
      with True le less.prems(1) show ?thesis by linarith
    qed
    show ?thesis
    proof (cases "n mod i = 0")
      case d: True
      have "\<not> prime_nat (unat n)" using d dvd lt less.prems(1) by (auto simp: prime_nat_def)
      then show ?thesis using True d nz by (subst is_prime_loop.simps) simp
    next
      case nd: False
      have i1: "unat (i + 1) = unat i + 1" using less.prems(2) by (simp add: unat_word_ariths)
      have "unat i \<noteq> 2 ^ 32 - 1"
      proof
        assume "unat i = 2 ^ 32 - 1"
        then have "unat n = unat i * unat i" using True le assms(2) by (simp add: power2_eq_square)
        then show False using nd dvd by simp
      qed
      then have "is_prime_loop n (i + 1) = Some (prime_nat (unat n))"
      proof (intro less.hyps)
        fix d assume "2 \<le> d" "d < unat (i + 1)"
        then show "\<not> d dvd unat n" using less.prems(3) nd dvd i1 by (cases "d = unat i") auto
      qed (use i1 less.prems(1,2) lt in auto)
      then show ?thesis using True nd nz by (subst is_prime_loop.simps) simp
    qed
  qed
qed

text \<open>
  C36. The primality test returns and is right for every number up to the square of \<open>2 ^ 32 - 1\<close>. (For
  the largest numbers of 64 bits the square of the counter wraps around before the loop ends.)\<close>

theorem is_prime_correct:
  assumes "unat n \<le> (2 ^ 32 - 1) ^ 2"
  shows "is_prime n = Some (prime_nat (unat n))"
proof (cases "n < 2")
  case True
  then show ?thesis by (simp add: is_prime_def prime_nat_def word_less_nat_alt)
next
  case False
  then have "2 \<le> unat n" by (simp add: word_less_nat_alt)
  then show ?thesis using False is_prime_loop_correct [of n 2] assms by (simp add: is_prime_def)
qed

theorem is_prime_correct_witness: "is_prime 97 = Some (prime_nat 97)"
  using is_prime_correct [of 97] by simp

section \<open>Directories\<close>

abbreviation prime_bound :: nat where "prime_bound \<equiv> (2 ^ 32 - 1) ^ 2"

lemma is_dir_Some:
  "unat (num_of srv n) \<le> prime_bound \<Longrightarrow> is_dir srv n = Some (n = ROOT_NODEID \<or> \<not> prime_nat (unat (num_of srv n)))"
  by (simp add: is_dir_def is_prime_correct)

text \<open>The entry of a number, and the entries of a list of numbers that fit into a reply.\<close>

definition num_dirent :: "nat \<Rightarrow> fuse_dirent" where
  "num_dirent n = \<lparr>de_ino = of_nat n, de_off = of_nat (n - 1), de_dir = (\<not> prime_nat n), de_name = to_string n\<rparr>"

fun fitting :: "nat \<Rightarrow> nat \<Rightarrow> nat list \<Rightarrow> nat list" where
  "fitting max_reply used [] = []"
| "fitting max_reply used (n # ns) =
     (if max_reply < used + dirent_size (to_string n) then []
      else n # fitting max_reply (used + dirent_size (to_string n)) ns)"

lemma fitting_prefix: "prefix (fitting max_reply used ns) ns"
  by (induction max_reply used ns rule: fitting.induct) auto

lemma readdir_loop_fitting:
  assumes "unat num \<le> prime_bound" and "unat i + 2 < 2 ^ 64" and "used \<le> max_reply"
  shows "\<exists>u\<le>max_reply. readdir_loop srv num max_reply i used es =
    Some (u, es @ map num_dirent (fitting max_reply used [unat i + 2..<unat num]))"
  using assms(2,3)
proof (induction "unat num - unat i" arbitrary: i used es rule: less_induct)
  case less
  have i2: "unat (i + 2) = unat i + 2" using less.prems(1) by (simp add: unat_word_ariths)
  have lt: "i + 2 < num \<longleftrightarrow> unat i + 2 < unat num" by (simp add: word_less_nat_alt i2)
  show ?case
  proof (cases "i + 2 < num")
    case False
    then show ?thesis using lt less.prems(2) by (subst readdir_loop.simps) auto
  next
    case True
    let ?n = "unat i + 2"
    have up: "[?n..<unat num] = ?n # [Suc ?n..<unat num]" using True lt by (simp add: upt_conv_Cons)
    have "i + 2 \<noteq> ROOT_NODEID"
    proof
      assume "i + 2 = ROOT_NODEID"
      then have "unat (i + 2) = unat ROOT_NODEID" by (rule arg_cong)
      then show False using i2 by simp
    qed
    then have num: "num_of srv (i + 2) = i + 2" by (simp add: num_of_def)
    have "is_dir srv (i + 2) = Some (i + 2 = ROOT_NODEID \<or> \<not> prime_nat (unat (num_of srv (i + 2))))"
      by (rule is_dir_Some) (use True lt assms(1) i2 num in simp)
    then have dir: "is_dir srv (i + 2) = Some (\<not> prime_nat ?n)" using \<open>i + 2 \<noteq> ROOT_NODEID\<close> num i2 by simp
    have i1: "unat (i + 1) = unat i + 1" using less.prems(1) by (simp add: unat_word_ariths)
    have ent: "\<lparr>de_ino = i + 2, de_off = i + 1, de_dir = (\<not> prime_nat ?n), de_name = to_string ?n\<rparr> = num_dirent ?n"
    proof -
      have "i + 2 = of_nat ?n" "i + 1 = of_nat (?n - 1)" unfolding i2 [symmetric] by (simp_all add: i2)
      then show ?thesis by (simp add: num_dirent_def)
    qed
    show ?thesis
    proof (cases "max_reply < used + dirent_size (to_string ?n)")
      case full: True
      then have "fitting max_reply used [?n..<unat num] = []" unfolding up by simp
      then show ?thesis using True dir less.prems(2) full by (subst readdir_loop.simps) (simp add: i2 Let_def)
    next
      case False
      let ?u = "used + dirent_size (to_string ?n)"
      have "\<exists>u\<le>max_reply. readdir_loop srv num max_reply (i + 1) ?u (es @ [num_dirent ?n]) =
          Some (u, (es @ [num_dirent ?n]) @ map num_dirent (fitting max_reply ?u [unat (i + 1) + 2..<unat num]))"
        by (rule less.hyps) (use True lt i1 less.prems False assms(1) in auto)
      moreover have "fitting max_reply used [?n..<unat num] = ?n # fitting max_reply ?u [unat (i + 1) + 2..<unat num]"
        unfolding up using False i1 by simp
      ultimately show ?thesis using True dir False ent by (subst readdir_loop.simps) (simp add: i2 Let_def)
    qed
  qed
qed

lemma length_to_string: "n < 10 ^ Suc k \<Longrightarrow> length (to_string n) \<le> Suc k"
proof (induction n arbitrary: k rule: to_string.induct)
  case (1 n)
  show ?case
  proof (cases "n < 10")
    case True
    then show ?thesis by (subst to_string.simps) simp
  next
    case False
    then obtain j where k: "k = Suc j" using "1.prems" by (cases k) auto
    have "n div 10 < 10 ^ Suc j" using "1.prems" k by (simp add: less_mult_imp_div_less mult.commute)
    then have "length (to_string (n div 10)) \<le> Suc j" using "1.IH" False by blast
    then show ?thesis using False k by (subst to_string.simps) simp
  qed
qed

lemma dirent_size_bound: "n < 2 ^ 64 \<Longrightarrow> dirent_size (to_string n) \<le> 48"
proof -
  assume "n < 2 ^ 64"
  also have "(2::nat) ^ 64 < 10 ^ Suc 19" by simp
  finally have "length (to_string n) \<le> 20" using length_to_string [of n 19] by simp
  then have "(24 + length (to_string n) + 7) div 8 \<le> 6" by simp
  then show ?thesis unfolding dirent_size_def by simp
qed

text \<open>
  How a directory is read: the next request starts at the offset of the last entry of the reply
  before it, until a reply is empty. \<open>fuel\<close> bounds the number of requests.
\<close>

fun dir_walk :: "nat \<Rightarrow> nat \<Rightarrow> fuse_server \<Rightarrow> fuse_slot \<Rightarrow> u64 \<Rightarrow> fuse_dirent list option" where
  "dir_walk 0 mp srv r off = None"
| "dir_walk (Suc fuel) mp srv r off = do {
     r1 \<leftarrow> do_readdir mp srv (r\<lparr>sl_read_off := off\<rparr>);
     case sl_payload r1 of
       P_dirents es \<Rightarrow>
         if es = [] then Some []
         else do {
           rest \<leftarrow> dir_walk fuel mp srv r (de_off (last es));
           Some (es @ rest)
         }
     | _ \<Rightarrow> None
   }"

lemma do_readdir_fitting:
  assumes "is_dir srv (sl_nodeid r) = Some True" and "unat (num_of srv (sl_nodeid r)) \<le> prime_bound"
    and "unat off + 2 < 2 ^ 64"
  shows "\<exists>r1. do_readdir mp srv (r\<lparr>sl_read_off := off\<rparr>) = Some r1 \<and> sl_payload r1 =
    P_dirents (map num_dirent (fitting (min (sl_read_size r) mp) 0 [unat off + 2..<unat (num_of srv (sl_nodeid r))]))"
proof -
  from readdir_loop_fitting [OF assms(2,3), of 0 "min (sl_read_size r) mp" srv "[]"]
  obtain u where "u \<le> min (sl_read_size r) mp"
    "readdir_loop srv (num_of srv (sl_nodeid r)) (min (sl_read_size r) mp) off 0 [] =
      Some (u, map num_dirent (fitting (min (sl_read_size r) mp) 0 [unat off + 2..<unat (num_of srv (sl_nodeid r))]))"
    by auto
  then show ?thesis using assms(1) by (simp add: do_readdir_def reply_ok_def Let_def)
qed

lemma dir_walk_from:
  assumes dir: "is_dir srv (sl_nodeid r) = Some True" and num: "unat (num_of srv (sl_nodeid r)) \<le> prime_bound"
    and room: "48 \<le> sl_read_size r" "48 \<le> mp"
  shows "unat off + 2 < 2 ^ 64 \<Longrightarrow> unat (num_of srv (sl_nodeid r)) - unat off \<le> fuel \<Longrightarrow>
    dir_walk (Suc fuel) mp srv r off = Some (map num_dirent [unat off + 2..<unat (num_of srv (sl_nodeid r))])"
proof (induction fuel arbitrary: off)
  case 0
  from do_readdir_fitting [OF dir num 0(1), of mp] 0(2) show ?case by auto
next
  case (Suc fuel)
  let ?N = "unat (num_of srv (sl_nodeid r))" and ?m = "min (sl_read_size r) mp" and ?a = "unat off + 2"
  define ns where "ns = fitting ?m 0 [?a..<?N]"
  obtain r1 where r1: "do_readdir mp srv (r\<lparr>sl_read_off := off\<rparr>) = Some r1"
    "sl_payload r1 = P_dirents (map num_dirent ns)"
    using do_readdir_fitting [OF dir num Suc.prems(1), of mp] by (auto simp: ns_def)
  have N: "?N < 2 ^ 64" using num by (rule le_less_trans) simp
  show ?case
  proof (cases "?a < ?N")
    case False
    then have "ns = []" by (simp add: ns_def)
    then show ?thesis using r1 False by simp
  next
    case True
    then have up: "[?a..<?N] = ?a # [Suc ?a..<?N]" by (simp add: upt_conv_Cons)
    have "dirent_size (to_string ?a) \<le> ?m" using dirent_size_bound [of ?a] True N room by simp
    then have ne: "ns \<noteq> []" unfolding ns_def up by (simp add: not_less)
    obtain zs where zs: "[?a..<?N] = ns @ zs" using fitting_prefix [of ?m 0 "[?a..<?N]"] by (auto simp: ns_def prefix_def)
    have "length ns \<le> ?N - ?a" using arg_cong [OF zs, of length] by simp
    moreover have "ns = take (length ns) [?a..<?N]" "zs = drop (length ns) [?a..<?N]" unfolding zs by simp_all
    ultimately have ns: "ns = [?a..<?a + length ns]" and rest: "zs = [?a + length ns..<?N]"
      using take_upt [of ?a "length ns" ?N] True by (simp_all add: drop_upt)
    define b where "b = ?a + length ns - 1"
    obtain l where l: "length ns = Suc l" using ne by (cases ns) auto
    have "last ns = last [?a..<?a + Suc l]" using ns l by simp
    then have b: "last ns = b" by (simp add: b_def l)
    have lb: "b < ?N" "?a \<le> b"
    proof -
      have "b \<in> set [?a..<?N]" using ne b zs by (metis UnCI last_in_set set_append)
      then show "b < ?N" "?a \<le> b" by auto
    qed
    have off': "de_off (last (map num_dirent ns)) = of_nat (b - 1)" using ne b by (simp add: last_map num_dirent_def)
    have ub: "unat (of_nat (b - 1) :: u64) = b - 1" using lb N by (intro unat_of_nat_lt) simp
    have "dir_walk (Suc fuel) mp srv r (of_nat (b - 1)) = Some (map num_dirent [unat (of_nat (b - 1) :: u64) + 2..<?N])"
      by (rule Suc.IH) (use ub lb N Suc.prems in auto)
    then have "dir_walk (Suc fuel) mp srv r (of_nat (b - 1)) = Some (map num_dirent zs)"
      using ub lb rest by (simp add: b_def)
    then show ?thesis using r1 ne off' zs by simp
  qed
qed

text \<open>
  C33. Reading a directory with requests that each start where the last reply ended lists every number
  from 2 up to the number of the directory exactly once and in order, primes as files and the other
  numbers as directories, whatever the size of the replies is, as long as one entry fits.\<close>

theorem readdir_complete:
  assumes "is_dir srv (sl_nodeid r) = Some True" and "unat (num_of srv (sl_nodeid r)) \<le> prime_bound"
    and "48 \<le> sl_read_size r" and "48 \<le> mp"
  shows "\<exists>fuel. dir_walk fuel mp srv r 0 = Some (map num_dirent [2..<unat (num_of srv (sl_nodeid r))])"
proof -
  have z: "unat (0 :: u64) + 2 < 2 ^ 64"
    "unat (num_of srv (sl_nodeid r)) - unat (0 :: u64) \<le> unat (num_of srv (sl_nodeid r))" by simp_all
  from dir_walk_from [OF assms z] show ?thesis unfolding unat_0 add_0 by (rule exI)
qed

definition sample_server :: fuse_server where
  "sample_server = \<lparr>fs_number = 10, fs_now = 0, fs_uid = 0, fs_gid = 0\<rparr>"

definition sample_slot :: "fuse_opcode \<Rightarrow> u64 \<Rightarrow> string \<Rightarrow> fuse_slot" where
  "sample_slot opcode node name = \<lparr>sl_opcode = opcode, sl_nodeid = node, sl_unique = 7, sl_read_off = 0, sl_read_size = 64,
     sl_name = name, sl_commit_id = 3, sl_out_len = 0, sl_out_error = 0, sl_payload_sz = 0, sl_payload = P_none\<rparr>"

theorem readdir_complete_witness:
  "\<exists>fuel. dir_walk fuel 4096 sample_server (sample_slot FUSE_READDIR 1 []) 0 = Some (map num_dirent [2..<10])"
  using readdir_complete [of sample_server "sample_slot FUSE_READDIR 1 []" 4096]
  by (simp add: sample_server_def sample_slot_def is_dir_def num_of_def)

lemma from_chars_to_string: "n < 2 ^ 64 \<Longrightarrow> from_chars (to_string n) = Some (of_nat n, [])"
proof -
  assume n: "n < 2 ^ 64"
  have all: "\<forall>c\<in>set (to_string n). is_digit c" using to_string_digits [of n] by (simp add: list_all_iff)
  then have split: "takeWhile is_digit (to_string n) = to_string n" "dropWhile is_digit (to_string n) = []"
    by (simp_all only: takeWhile_eq_all_conv dropWhile_eq_Nil_conv)
  show ?thesis unfolding from_chars_def Let_def split using n by (simp add: digits_value_to_string)
qed

text \<open>
  In a directory exactly the listed names can be looked up: the numeral of \<open>n\<close> is found if and
  only if \<open>n\<close> is at least 2 and below the number of the directory, and then the reply names the node
  \<open>n\<close> with the type and the size it has; in a file every lookup fails with \<open>ENOTDIR\<close>.\<close>

theorem lookup_listed:
  assumes "unat (num_of srv (sl_nodeid r)) \<le> prime_bound" and "sl_name r = to_string n" and "n < 2 ^ 64"
    and "128 \<le> mp"
  shows "do_lookup mp srv r = Some
    (if is_dir srv (sl_nodeid r) = Some False then reply_err (- ENOTDIR) r
     else if n < 2 \<or> unat (num_of srv (sl_nodeid r)) \<le> n then reply_err (- ENOENT) r
     else r\<lparr>sl_out_error := 0,
            sl_payload := P_entry (of_nat n) (fill_attr srv (of_nat n) (\<not> prime_nat n)
              (if prime_nat n then of_nat (length (to_string n) + 1) else 4096)),
            sl_out_len := 144, sl_payload_sz := 128\<rparr>)"
proof -
  have u: "unat (of_nat n :: u64) = n" using assms(3) by (intro unat_of_nat_lt) simp
  obtain d where d: "is_dir srv (sl_nodeid r) = Some d" using is_dir_Some [OF assms(1)] by blast
  have le1: "(of_nat n :: u64) \<le> 1 \<longleftrightarrow> n < 2" by (auto simp: word_le_nat_alt u)
  have ge: "num_of srv (sl_nodeid r) \<le> of_nat n \<longleftrightarrow> unat (num_of srv (sl_nodeid r)) \<le> n" by (simp add: word_le_nat_alt u)
  show ?thesis
  proof (cases "\<not> d \<or> n < 2 \<or> unat (num_of srv (sl_nodeid r)) \<le> n")
    case True
    then show ?thesis using d le1 ge assms(2,3) by (auto simp: do_lookup_def from_chars_to_string Let_def)
  next
    case False
    have ne: "(of_nat n :: u64) \<noteq> ROOT_NODEID" using False u by auto
    then have nn: "num_of srv (of_nat n) = of_nat n" by (simp add: num_of_def)
    have "is_dir srv (of_nat n) = Some (\<not> prime_nat n)"
      using is_dir_Some [of srv "of_nat n"] nn u ne False assms(1) by simp
    then show ?thesis using False d le1 ge assms
      by (simp add: do_lookup_def from_chars_to_string Let_def reply_ok_def node_size_def u)
  qed
qed

theorem lookup_listed_witness:
  "do_lookup 4096 sample_server (sample_slot FUSE_LOOKUP 1 ''7'') = Some ((sample_slot FUSE_LOOKUP 1 ''7'')
     \<lparr>sl_out_error := 0, sl_payload := P_entry 7 (fill_attr sample_server 7 (\<not> prime_nat 7)
        (if prime_nat 7 then 2 else 4096)), sl_out_len := 144, sl_payload_sz := 128\<rparr>)"
proof -
  have "to_string 7 = ''7''" by code_simp
  then show ?thesis
    using lookup_listed [of sample_server "sample_slot FUSE_LOOKUP 1 ''7''" 7 4096]
    by (simp add: sample_server_def sample_slot_def is_dir_def num_of_def)
qed

section \<open>Reads and the request loop\<close>

text \<open>A read of a file returns the bytes of the range that lie in the content.\<close>

lemma do_read_content:
  assumes "is_dir srv (sl_nodeid r) = Some False" and "sl_read_size r \<le> mp"
  shows "\<exists>r1. do_read mp srv r = Some r1 \<and> sl_out_error r1 = 0 \<and> sl_payload r1 =
    P_data (take (sl_read_size r) (drop (unat (sl_read_off r)) (to_string (unat (num_of srv (sl_nodeid r))) @ [CHR 0x0A])))"
  using assms by (auto simp: do_read_def Let_def reply_ok_def min_def)

text \<open>
  Every request is answered once: if the kernel registers a slot and fills it with requests, the
  loop commits, in order, each request under its own identifier together with the reply of the
  handler, and it ends only when the kernel says that the connection is gone or fails.\<close>

theorem io_loop_answers:
  assumes "list_all (\<lambda>e. 0 \<le> fst e) es" and "list_all (\<lambda>e. fuse_handle mp srv (snd e) \<noteq> None) es"
  shows "io_loop mp srv qid es = Some (Fuse_register qid #
    map (\<lambda>e. Fuse_commit qid (sl_commit_id (snd e)) (the (fuse_handle mp srv (snd e)))) es, Waiting)"
proof -
  have serve: "0 \<le> res \<Longrightarrow> list_all (\<lambda>e. 0 \<le> fst e) es \<Longrightarrow> fuse_handle mp srv r \<noteq> None \<Longrightarrow>
    list_all (\<lambda>e. fuse_handle mp srv (snd e) \<noteq> None) es \<Longrightarrow>
    io_serve mp srv qid r es = Some (map (\<lambda>e. Fuse_commit qid (sl_commit_id (snd e)) (the (fuse_handle mp srv (snd e))))
      ((res, r) # es), Waiting)" for res r es
    by (induction es arbitrary: res r) auto
  show ?thesis
  proof (cases es)
    case (Cons e es')
    then show ?thesis using assms serve [of "fst e" es' "snd e"] by (cases e) auto
  qed simp
qed

theorem io_loop_answers_witness:
  "io_loop 4096 sample_server 0 [(0, sample_slot FUSE_OPEN 1 []), (0, sample_slot FUSE_FLUSH 1 [])] =
     Some ([Fuse_register 0,
       Fuse_commit 0 3 (the (fuse_handle 4096 sample_server (sample_slot FUSE_OPEN 1 []))),
       Fuse_commit 0 3 (the (fuse_handle 4096 sample_server (sample_slot FUSE_FLUSH 1 [])))], Waiting)"
  using io_loop_answers [of "[(0, sample_slot FUSE_OPEN 1 []), (0, sample_slot FUSE_FLUSH 1 [])]" 4096 sample_server 0]
  by (simp add: fuse_handle_def do_open_def reply_ok_def sample_slot_def)

end
