(* ===== verification/Ex_Ublk_Loop.thy ===== *)
theory Ex_Ublk_Loop
  imports Condy_Prelude Co_Script
begin

text \<open>
  \<open>examples/ublk-loop.cpp\<close>: a block device that is served from a file. One coroutine per tag fetches
  requests from the kernel, performs them on the file and commits their results; the main coroutine
  creates the device, starts it, waits for a signal and takes it down again.
\<close>

section \<open>Serving a tag\<close>

abbreviation ENODEV :: i32 where "ENODEV \<equiv> 19"
abbreviation SECTOR_SIZE :: u64 where "SECTOR_SIZE \<equiv> 512"
abbreviation MAX_SECTORS :: u64 where "MAX_SECTORS \<equiv> 128"
abbreviation BUF_SIZE :: u64 where "BUF_SIZE \<equiv> 65536"

text \<open>\<open>UBLK_IO_RES_ABORT\<close>\<close>

abbreviation UBLK_ABORT :: i32 where "UBLK_ABORT \<equiv> - ENODEV"

datatype ublk_op = UBLK_READ | UBLK_WRITE | UBLK_FLUSH | UBLK_OTHER u8

record io_desc =
  io_op :: ublk_op
  io_start_sector :: u64
  io_nr_sectors :: u32

datatype ublk_cmd =
    Ub_fetch u64 u64 ptr             \<comment> \<open>queue, tag, buffer\<close>
  | Ub_commit u64 u64 i32 ptr        \<comment> \<open>queue, tag, result, buffer\<close>
  | Ub_read ptr u64 u64              \<comment> \<open>buffer, size, position in the file\<close>
  | Ub_write ptr u64 u64
  | Ub_fsync

definition tag_buffer :: "ptr \<Rightarrow> u64 \<Rightarrow> u64 \<Rightarrow> u64 \<Rightarrow> ptr" where
  "tag_buffer bufs_base queue_depth q_id tag = bufs_base + q_id * (queue_depth * BUF_SIZE) + tag * BUF_SIZE"

text \<open>
  The operation of a request: the command on the file, or the result when there is none.
\<close>

definition perform :: "ptr \<Rightarrow> io_desc \<Rightarrow> ublk_cmd + i32" where
  "perform buf d =
     (let start = io_start_sector d * SECTOR_SIZE;
          sz = ucast (io_nr_sectors d) * SECTOR_SIZE
      in case io_op d of
           UBLK_READ \<Rightarrow> Inl (Ub_read buf sz start)
         | UBLK_WRITE \<Rightarrow> Inl (Ub_write buf sz start)
         | UBLK_FLUSH \<Rightarrow> Inl Ub_fsync
         | UBLK_OTHER n \<Rightarrow> Inr (- EINVAL))"

text \<open>
  The loop of \<open>io_loop\<close>. An event is the result of the command that was awaited, with the descriptor
  that the kernel has written by then: \<open>serve_tag\<close> awaits the file, \<open>commit_tag\<close> the commit.
\<close>

fun serve_tag :: "u64 \<Rightarrow> u64 \<Rightarrow> ptr \<Rightarrow> io_desc \<Rightarrow> (i32 \<times> io_desc) list \<Rightarrow> ublk_cmd list \<times> unit outcome"
  and commit_tag :: "u64 \<Rightarrow> u64 \<Rightarrow> ptr \<Rightarrow> i32 \<Rightarrow> (i32 \<times> io_desc) list \<Rightarrow> ublk_cmd list \<times> unit outcome" where
  "serve_tag q tag buf d es =
     (case perform buf d of
        Inl c \<Rightarrow> (case es of
            [] \<Rightarrow> ([c], Waiting)
          | (r, _) # es1 \<Rightarrow> (case commit_tag q tag buf r es1 of (cs, y) \<Rightarrow> (c # cs, y)))
      | Inr r \<Rightarrow> commit_tag q tag buf r es)"
| "commit_tag q tag buf r [] = ([Ub_commit q tag r buf], Waiting)"
| "commit_tag q tag buf r ((res, d) # es) =
     (if res = UBLK_ABORT then ([Ub_commit q tag r buf], Returned ())
      else if res < 0 then ([Ub_commit q tag r buf], Exited 1)
      else case serve_tag q tag buf d es of (cs, y) \<Rightarrow> (Ub_commit q tag r buf # cs, y))"

definition ublk_io_loop :: "ptr \<Rightarrow> u64 \<Rightarrow> u64 \<Rightarrow> u64 \<Rightarrow> (i32 \<times> io_desc) list \<Rightarrow> ublk_cmd list \<times> unit outcome" where
  "ublk_io_loop bufs_base queue_depth q_id tag es =
     (let buf = tag_buffer bufs_base queue_depth q_id tag in
      case es of
        [] \<Rightarrow> ([Ub_fetch q_id tag buf], Waiting)
      | (r, d) # es1 \<Rightarrow>
          if r = UBLK_ABORT then ([Ub_fetch q_id tag buf], Returned ())
          else if r < 0 then ([Ub_fetch q_id tag buf], Exited 1)
          else case serve_tag q_id tag buf d es1 of (cs, y) \<Rightarrow> (Ub_fetch q_id tag buf # cs, y))"

section \<open>Life of the device\<close>

datatype ub_ctrl =
    Ct_open string
  | Ct_add_dev u32 nat nat    \<comment> \<open>device, queues, depth of a queue\<close>
  | Ct_set_params u32 u64     \<comment> \<open>device, number of sectors\<close>
  | Ct_spawn_queue nat
  | Ct_start_dev u32
  | Ct_read_signal
  | Ct_stop_dev u32
  | Ct_join_queue nat
  | Ct_munmap
  | Ct_close int
  | Ct_del_dev u32

definition require :: "('o, int) script \<Rightarrow> ('o, int) script" where
  "require m = andthen m (\<lambda>r. if r < 0 then quit 1 else ret r)"

text \<open>
  \<open>actual\<close> is the device number that the kernel writes back. The limits and block sizes that the
  commands carry are constants of the source.
\<close>

definition setup_device :: "nat \<Rightarrow> nat \<Rightarrow> u32 \<Rightarrow> u32 \<Rightarrow> u64 \<Rightarrow> (ub_ctrl, int \<times> int) script" where
  "setup_device num_queues queue_depth dev_id actual dev_sectors =
     andthen (require (await (Ct_open ''/dev/ublk-control''))) (\<lambda>ctrl_fd.
     andthen (require (await (Ct_add_dev dev_id num_queues queue_depth))) (\<lambda>_.
     andthen (require (await (Ct_open (''/dev/ublkc'' @ to_string (unat actual))))) (\<lambda>ublkc_fd.
     andthen (require (await (Ct_set_params actual dev_sectors))) (\<lambda>_.
     ret (ctrl_fd, ublkc_fd)))))"

fun each :: "('a \<Rightarrow> ('o, 'b) script) \<Rightarrow> 'a list \<Rightarrow> ('o, unit) script" where
  "each f [] = ret ()"
| "each f (x # xs) = andthen (f x) (\<lambda>_. each f xs)"

text \<open>Whether \<open>mmap\<close> yields the buffers is an argument.\<close>

definition ublk_main :: "nat \<Rightarrow> nat \<Rightarrow> bool \<Rightarrow> u32 \<Rightarrow> u32 \<Rightarrow> u64 \<Rightarrow> (ub_ctrl, unit) script" where
  "ublk_main num_queues queue_depth mapped dev_id actual dev_sectors =
     (let queues = (if 1 < num_queues then [0..<num_queues] else [0]) in
     andthen (setup_device num_queues queue_depth dev_id actual dev_sectors) (\<lambda>(ctrl_fd, ublkc_fd).
     if \<not> mapped then quit 1 else
     andthen (each (\<lambda>q. emit (Ct_spawn_queue q)) queues) (\<lambda>_.
     andthen (require (await (Ct_start_dev actual))) (\<lambda>_.
     andthen (await Ct_read_signal) (\<lambda>_.
     andthen (require (await (Ct_stop_dev actual))) (\<lambda>_.
     andthen (each (\<lambda>q. await (Ct_join_queue q)) queues) (\<lambda>_.
     andthen (emit Ct_munmap) (\<lambda>_.
     andthen (await (Ct_close ublkc_fd)) (\<lambda>_.
     andthen (await (Ct_del_dev actual)) (\<lambda>_.
     andthen (await (Ct_close ctrl_fd)) (\<lambda>_. ret ())))))))))))"

section \<open>Requests are answered once\<close>

text \<open>
  A history of one tag: the requests that the kernel hands out, each with the result that the file
  gives if it is asked. The events are the results in the order in which the coroutine awaits them.
\<close>

definition ub_asks :: "io_desc \<Rightarrow> bool" where
  "ub_asks d \<longleftrightarrow> (case io_op d of UBLK_OTHER n \<Rightarrow> False | _ \<Rightarrow> True)"

definition ub_result :: "io_desc \<times> i32 \<Rightarrow> i32" where
  "ub_result x = (if ub_asks (fst x) then snd x else - EINVAL)"

fun ub_events :: "(io_desc \<times> i32) list \<Rightarrow> (i32 \<times> io_desc) list" where
  "ub_events [] = []"
| "ub_events ((d, r) # xs) = (0, d) # (if ub_asks d then [(r, d)] else []) @ ub_events xs"

definition ub_answer :: "u64 \<Rightarrow> u64 \<Rightarrow> ptr \<Rightarrow> io_desc \<times> i32 \<Rightarrow> ublk_cmd list" where
  "ub_answer q tag buf x =
     (case perform buf (fst x) of Inl c \<Rightarrow> [c] | Inr r \<Rightarrow> []) @ [Ub_commit q tag (ub_result x) buf]"

lemma serve_tag_answers:
  "serve_tag q tag buf d ((if ub_asks d then [(r, d)] else []) @ ub_events xs) =
     (concat (map (ub_answer q tag buf) ((d, r) # xs)), Waiting)"
proof (induction xs arbitrary: d r)
  case Nil
  show ?case by (cases "io_op d") (auto simp: perform_def ub_asks_def ub_answer_def ub_result_def Let_def)
next
  case (Cons x xs)
  obtain d1 r1 where x: "x = (d1, r1)" by (cases x)
  show ?case using Cons.IH [of d1 r1] x
    by (cases "io_op d") (auto simp: perform_def ub_asks_def ub_answer_def ub_result_def Let_def simp del: serve_tag.simps(1)
        simp: serve_tag.simps(1) [of q tag buf d])
qed

text \<open>
  Every request of a tag is answered exactly once and in order: a read, write or flush is first
  performed on the file, at the position and with the length of the request, and committed with the
  result of the file; an unknown operation is committed as \<open>-EINVAL\<close> without touching the file.\<close>

theorem ublk_io_loop_answers:
  "ublk_io_loop bufs_base queue_depth q tag (ub_events xs) =
     (let buf = tag_buffer bufs_base queue_depth q tag
      in (Ub_fetch q tag buf # concat (map (ub_answer q tag buf) xs), Waiting))"
proof (cases xs)
  case Nil
  then show ?thesis by (simp add: ublk_io_loop_def Let_def)
next
  case (Cons x ys)
  obtain d r where x: "x = (d, r)" by (cases x)
  show ?thesis
    using serve_tag_answers [of q tag "tag_buffer bufs_base queue_depth q tag" d r ys]
    by (simp add: ublk_io_loop_def Let_def Cons x del: serve_tag.simps)
qed

text \<open>The buffers of different tags do not overlap, and a request of the announced size fits.\<close>

lemma tag_buffers_disjoint:
  assumes "unat tag < unat depth" and "unat tag' < unat depth"
    and "unat base + nq * (unat depth * 65536) < 2 ^ 64" and "unat q < nq" and "unat q' < nq"
    and "(q, tag) \<noteq> (q', tag')"
  shows "unat (tag_buffer base depth q tag) + 65536 \<le> unat (tag_buffer base depth q' tag') \<or>
         unat (tag_buffer base depth q' tag') + 65536 \<le> unat (tag_buffer base depth q tag)"
proof -
  have addr: "unat (tag_buffer base depth q tag) = unat base + (unat q * unat depth + unat tag) * 65536"
    if t: "unat tag < unat depth" and q: "unat q < nq" for q tag
  proof -
    let ?n = "unat base + (unat q * unat depth + unat tag) * 65536"
    have "unat q * unat depth + unat tag < (unat q + 1) * unat depth" using t by simp
    also have "\<dots> \<le> nq * unat depth" using q by (intro mult_le_mono1) simp
    finally have "?n < 2 ^ LENGTH(64)" using assms(3) by (simp add: mult.assoc [symmetric])
    moreover have "tag_buffer base depth q tag = of_nat ?n"
      by (simp add: tag_buffer_def algebra_simps)
    ultimately show ?thesis using unat_of_nat_lt by metis
  qed
  have ne: "unat q * unat depth + unat tag \<noteq> unat q' * unat depth + unat tag'"
  proof
    assume eq: "unat q * unat depth + unat tag = unat q' * unat depth + unat tag'"
    have "(unat q * unat depth + unat tag) div unat depth = unat q" "(unat q' * unat depth + unat tag') div unat depth = unat q'"
      using assms(1,2) by (simp_all add: div_mult_self3)
    with eq have "unat q = unat q'" by simp
    with eq have "unat tag = unat tag'" by simp
    with \<open>unat q = unat q'\<close> assms(6) show False by (simp add: word_unat_eq_iff)
  qed
  have apart: "a + x * 65536 + 65536 \<le> a + y * 65536 \<or> a + y * 65536 + 65536 \<le> a + x * 65536"
    if "x \<noteq> y" for a x y :: nat using that by (cases "x < y") auto
  show ?thesis unfolding addr [OF assms(1,4)] addr [OF assms(2,5)] by (rule apart [OF ne])
qed

end
