(* ===== verification/Interleaving.thy ===== *)
theory Interleaving
  imports Condy_Prelude
begin

text \<open>
  Counting the threads or coroutines of an interleaving that are at certain places of their programs:
  \<open>ps\<close> names them, and \<open>f\<close> says where each of them is.
\<close>

definition cnt :: "'p list \<Rightarrow> ('c \<Rightarrow> bool) \<Rightarrow> ('p \<Rightarrow> 'c) \<Rightarrow> nat" where
  "cnt ps P f = length (filter (\<lambda>p. P (f p)) ps)"

text \<open>One of them moves.\<close>

lemma cnt_upd:
  assumes "distinct ps" and "p \<in> set ps"
  shows "cnt ps P (f(p := pc)) + of_bool (P (f p)) = cnt ps P f + of_bool (P pc)"
proof -
  have "length (filter (\<lambda>q. P ((f(p := pc)) q)) qs) = length (filter (\<lambda>q. P (f q)) qs)" if "p \<notin> set qs" for qs
    using that by (intro arg_cong [where f = length] filter_cong) auto
  moreover obtain as bs where "ps = as @ p # bs" using split_list [OF assms(2)] by blast
  ultimately show ?thesis using assms(1) by (simp add: cnt_def)
qed

lemma filter_length_mono: "(\<And>x. x \<in> set xs \<Longrightarrow> P x \<Longrightarrow> Q x) \<Longrightarrow> length (filter P xs) \<le> length (filter Q xs)"
  by (induction xs) (auto intro: le_SucI)

lemma cnt_mono: "(\<And>p. p \<in> set ps \<Longrightarrow> P (f p) \<Longrightarrow> Q (g p)) \<Longrightarrow> cnt ps P f \<le> cnt ps Q g"
  unfolding cnt_def by (rule filter_length_mono)

lemma cnt_pos: "p \<in> set ps \<Longrightarrow> P (f p) \<Longrightarrow> 0 < cnt ps P f"
  by (auto simp: cnt_def filter_empty_conv)

lemma cnt_zero: "(\<And>p. p \<in> set ps \<Longrightarrow> \<not> P (f p)) \<Longrightarrow> cnt ps P f = 0"
  by (simp add: cnt_def filter_empty_conv)

lemma cnt_unique:
  assumes "cnt ps P f \<le> 1" and "p \<in> set ps" "q \<in> set ps" "P (f p)" "P (f q)"
  shows "p = q"
proof (rule ccontr)
  assume ne: "p \<noteq> q"
  have "{p, q} \<subseteq> set (filter (\<lambda>p. P (f p)) ps)" using assms by auto
  then have "card {p, q} \<le> length (filter (\<lambda>p. P (f p)) ps)"
    by (meson List.finite_set card_length card_mono le_trans)
  with ne assms(1) show False by (simp add: cnt_def)
qed

text \<open>Several of them move at once, each from a place in \<open>A\<close> by the function \<open>g\<close>.\<close>

lemma cnt_moves:
  assumes "distinct ps" and "distinct qs" and "set qs \<subseteq> set ps"
    and "\<And>q. q \<in> set qs \<Longrightarrow> P (f q) = a \<and> P (g (f q)) = b"
  shows "cnt ps P (\<lambda>q. if q \<in> set qs then g (f q) else f q) + of_bool a * length qs = cnt ps P f + of_bool b * length qs"
  using assms(2-4)
proof (induction qs)
  case (Cons x xs)
  let ?f = "\<lambda>q. if q \<in> set xs then g (f q) else f q"
  have "(\<lambda>q. if q \<in> set (x # xs) then g (f q) else f q) = ?f(x := g (f x))" by auto
  then show ?case using Cons cnt_upd [OF assms(1), of x P ?f "g (f x)"] by simp
qed simp

section \<open>Counted loops over a queue\<close>

text \<open>
  Producers and consumers whose loops have a number of rounds, and a queue between them. \<open>todo s p\<close> are
  the rounds of \<open>p\<close> whose access to the queue is still to come, \<open>made\<close> and \<open>taken\<close> count the accesses. A
  step of \<open>p\<close> leaves the others alone, and either no access happens or one of the kind of \<open>p\<close>.
\<close>

locale counted_loops =
  fixes todo :: "'s \<Rightarrow> 'p \<Rightarrow> nat" and made taken :: "'s \<Rightarrow> nat" and step :: "'p \<Rightarrow> 's \<Rightarrow> 's \<Rightarrow> bool"
    and prods cons :: "'p set"
  assumes finite_loops: "finite prods" "finite cons"
    and disjoint: "prods \<inter> cons = {}"
    and others: "step p s t \<Longrightarrow> q \<noteq> p \<Longrightarrow> todo t q = todo s q"
    and access: "step p s t \<Longrightarrow> p \<in> prods \<union> cons \<Longrightarrow>
      todo t p = todo s p \<and> made t = made s \<and> taken t = taken s \<or>
      p \<in> prods \<and> todo s p = todo t p + 1 \<and> made t = made s + 1 \<and> taken t = taken s \<or>
      p \<in> cons \<and> todo s p = todo t p + 1 \<and> made t = made s \<and> taken t = taken s + 1"
begin

lemma sum_moved:
  assumes "step p s t" and "finite A"
  shows "sum (todo t) A + (if p \<in> A then todo s p else 0) = sum (todo s) A + (if p \<in> A then todo t p else 0)"
proof (cases "p \<in> A")
  case True
  have "sum (todo t) (A - {p}) = sum (todo s) (A - {p})" using others [OF assms(1)] by (intro sum.cong) auto
  then show ?thesis using True sum.remove [OF assms(2) True, of "todo s"] sum.remove [OF assms(2) True, of "todo t"] by simp
next
  case False
  then have "sum (todo t) A = sum (todo s) A" by (intro sum.cong refl others [OF assms(1)]) auto
  with False show ?thesis by simp
qed

lemma balance:
  assumes "step p s t" and "p \<in> prods \<union> cons"
  shows "sum (todo t) prods + made t = sum (todo s) prods + made s"
    and "sum (todo t) cons + taken t = sum (todo s) cons + taken s"
  using access [OF assms] sum_moved [OF assms(1) finite_loops(1)] sum_moved [OF assms(1) finite_loops(2)] disjoint
  by (auto split: if_splits)

text \<open>When one side has finished and there is nothing for the other to wait for, the other has finished too.\<close>

lemma all_taken:
  assumes "sum (todo s) prods + made s = n" and "sum (todo s) cons + taken s = n" and "made s = taken s"
    and "\<And>p. p \<in> prods \<Longrightarrow> todo s p = 0" and "q \<in> cons"
  shows "todo s q = 0"
  using assms finite_loops by simp

lemma all_made:
  assumes "sum (todo s) prods + made s = n" and "sum (todo s) cons + taken s = n" and "taken s \<le> made s"
    and "\<And>p. p \<in> cons \<Longrightarrow> todo s p = 0"
  shows "made s = taken s" and "q \<in> prods \<Longrightarrow> todo s q = 0"
proof -
  have "sum (todo s) prods + made s = taken s" using assms by simp
  then have "made s = taken s" "sum (todo s) prods = 0" using assms(3) by linarith+
  then show "made s = taken s" "q \<in> prods \<Longrightarrow> todo s q = 0" using finite_loops by auto
qed

end

end
