(* ===== verification/Ex_Queue_Futex.thy ===== *)
theory Ex_Queue_Futex
  imports Futex Interleaving
begin

text \<open>
  \<open>examples/queue-condy-futex.cpp\<close>: a bounded queue between coroutines of two runtimes, with a mutex
  and two condition variables made of futexes. A futex is what its contract in \<open>Futex\<close> says
  (\<open>af_step\<close>). A step is one access to an atomic, one call of a futex, or one access to the queue, so
  the interleavings of the steps are those of the two threads. A coroutine is named by the handle
  with which it waits; \<open>rt\<close> gives its runtime.
\<close>

section \<open>State\<close>

datatype 'a qop = Enqueue 'a | Dequeue

text \<open>Where a coroutine is in \<open>enqueue\<close> or \<open>dequeue\<close>; \<open>gen\<close> is the local variable of \<open>wait\<close>.\<close>

datatype 'a qpc =
    Q_idle
  | Q_lock "'a qop"           \<comment> \<open>before the exchange in \<open>lock\<close>\<close>
  | Q_lock_wait "'a qop"      \<comment> \<open>before \<open>futex_.wait(true)\<close>\<close>
  | Q_lock_sleep "'a qop"     \<comment> \<open>in the list of the mutex\<close>
  | Q_test "'a qop"           \<comment> \<open>at the loop condition, with the mutex\<close>
  | Q_load "'a qop"           \<comment> \<open>before the first load in \<open>wait\<close>\<close>
  | Q_release "'a qop" u32    \<comment> \<open>before the store of \<open>unlock\<close> in \<open>wait\<close>\<close>
  | Q_released "'a qop" u32   \<comment> \<open>before the notification of \<open>unlock\<close> in \<open>wait\<close>\<close>
  | Q_check "'a qop" u32      \<comment> \<open>at the loop condition of \<open>wait\<close>\<close>
  | Q_wait "'a qop" u32       \<comment> \<open>before \<open>futex_.wait(gen)\<close>\<close>
  | Q_sleep "'a qop" u32      \<comment> \<open>in the list of the condition variable\<close>
  | Q_unlock "'a qop"         \<comment> \<open>the queue is changed, before the store of \<open>unlock\<close>\<close>
  | Q_unlocked "'a qop"       \<comment> \<open>before the notification of \<open>unlock\<close>\<close>
  | Q_signal "'a qop"         \<comment> \<open>before the addition in \<open>notify_one\<close>\<close>
  | Q_signalled "'a qop"      \<comment> \<open>before the notification in \<open>notify_one\<close>\<close>

datatype side = Not_empty | Not_full

text \<open>\<open>qf_in\<close> and \<open>qf_out\<close> record the items that were pushed and popped.\<close>

record 'a qf =
  qf_queue :: "'a list"
  qf_capacity :: nat
  qf_mutex :: "bool afutex"
  qf_cv :: "side \<Rightarrow> u32 afutex"
  qf_procs :: "ptr \<Rightarrow> 'a qpc"
  qf_in :: "'a list"
  qf_out :: "'a list"

definition qf_new :: "nat \<Rightarrow> 'a qf" where
  "qf_new capacity = \<lparr>qf_queue = [], qf_capacity = capacity, qf_mutex = \<lparr>af_waiters = [], af_value = False\<rparr>,
     qf_cv = \<lambda>_. \<lparr>af_waiters = [], af_value = 0\<rparr>, qf_procs = \<lambda>_. Q_idle, qf_in = [], qf_out = []\<rparr>"

definition goto :: "ptr \<Rightarrow> 'a qpc \<Rightarrow> 'a qf \<Rightarrow> 'a qf" where
  "goto p pc s = s\<lparr>qf_procs := (qf_procs s)(p := pc)\<rparr>"

fun resume :: "'a qpc \<Rightarrow> 'a qpc" where
  "resume (Q_lock_sleep op) = Q_lock op"
| "resume (Q_sleep op gen) = Q_check op gen"
| "resume pc = pc"

definition wake :: "(ptr \<times> ptr \<times> i32) list \<Rightarrow> 'a qf \<Rightarrow> 'a qf" where
  "wake ws s = foldl (\<lambda>s (q, _, _). goto q (resume (qf_procs s q)) s) s ws"

section \<open>The mutex\<close>

text \<open>\<open>weak\<close> is a spurious failure of \<open>compare_exchange_weak\<close>.\<close>

definition mutex_exchange :: "bool \<Rightarrow> ptr \<Rightarrow> 'a qop \<Rightarrow> 'a qf \<Rightarrow> 'a qf" where
  "mutex_exchange weak p op s =
     (if \<not> af_value (qf_mutex s) \<and> \<not> weak
      then goto p (Q_test op) (s\<lparr>qf_mutex := fst (af_step (Fx_store True) (qf_mutex s))\<rparr>)
      else goto p (Q_lock_wait op) s)"

definition mutex_wait :: "ptr \<Rightarrow> ptr \<Rightarrow> 'a qop \<Rightarrow> 'a qf \<Rightarrow> 'a qf" where
  "mutex_wait rt p op s =
     goto p (if af_value (qf_mutex s) = True then Q_lock_sleep op else Q_lock op)
       (s\<lparr>qf_mutex := fst (af_step (Fx_wait False False rt True p) (qf_mutex s))\<rparr>)"

definition mutex_store :: "'a qf \<Rightarrow> 'a qf" where
  "mutex_store s = s\<lparr>qf_mutex := fst (af_step (Fx_store False) (qf_mutex s))\<rparr>"

definition mutex_notify :: "'a qf \<Rightarrow> 'a qf" where
  "mutex_notify s = (case af_step Fx_notify_one (qf_mutex s) of (m, ws) \<Rightarrow> wake ws (s\<lparr>qf_mutex := m\<rparr>))"

section \<open>The condition variables\<close>

definition cv_upd :: "side \<Rightarrow> u32 afutex \<Rightarrow> 'a qf \<Rightarrow> 'a qf" where
  "cv_upd c f s = s\<lparr>qf_cv := (qf_cv s)(c := f)\<rparr>"

definition cv_wait :: "ptr \<Rightarrow> ptr \<Rightarrow> side \<Rightarrow> 'a qop \<Rightarrow> u32 \<Rightarrow> 'a qf \<Rightarrow> 'a qf" where
  "cv_wait rt p c op gen s =
     goto p (if af_value (qf_cv s c) = gen then Q_sleep op gen else Q_check op gen)
       (cv_upd c (fst (af_step (Fx_wait False False rt gen p) (qf_cv s c))) s)"

definition cv_add :: "side \<Rightarrow> 'a qf \<Rightarrow> 'a qf" where
  "cv_add c s = cv_upd c (fst (af_step (Fx_store (af_value (qf_cv s c) + 1)) (qf_cv s c))) s"

definition cv_notify :: "side \<Rightarrow> 'a qf \<Rightarrow> 'a qf" where
  "cv_notify c s = (case af_step Fx_notify_one (qf_cv s c) of (f, ws) \<Rightarrow> wake ws (cv_upd c f s))"

section \<open>The queue\<close>

text \<open>The condition variable that an operation waits for, and the one that it notifies.\<close>

fun waits :: "'a qop \<Rightarrow> side" where
  "waits (Enqueue x) = Not_full"
| "waits Dequeue = Not_empty"

fun signals :: "'a qop \<Rightarrow> side" where
  "signals (Enqueue x) = Not_empty"
| "signals Dequeue = Not_full"

fun q_blocked :: "'a qop \<Rightarrow> 'a qf \<Rightarrow> bool" where
  "q_blocked (Enqueue x) s \<longleftrightarrow> qf_capacity s \<le> length (qf_queue s)"
| "q_blocked Dequeue s \<longleftrightarrow> qf_queue s = []"

text \<open>\<open>front\<close> and \<open>pop\<close> of an empty queue are undefined.\<close>

fun q_apply :: "'a qop \<Rightarrow> 'a qf \<Rightarrow> 'a qf option" where
  "q_apply (Enqueue x) s = Some (s\<lparr>qf_queue := qf_queue s @ [x], qf_in := qf_in s @ [x]\<rparr>)"
| "q_apply Dequeue s =
     (case qf_queue s of [] \<Rightarrow> None | x # xs \<Rightarrow> Some (s\<lparr>qf_queue := xs, qf_out := qf_out s @ [x]\<rparr>))"

text \<open>One step of the coroutine \<open>p\<close> in \<open>enqueue\<close> or \<open>dequeue\<close>; \<open>None\<close> if it cannot move.\<close>

definition qf_step :: "(ptr \<Rightarrow> ptr) \<Rightarrow> bool \<Rightarrow> ptr \<Rightarrow> 'a qf \<Rightarrow> 'a qf option" where
  "qf_step rt weak p s = (case qf_procs s p of
       Q_idle \<Rightarrow> None
     | Q_lock op \<Rightarrow> Some (mutex_exchange weak p op s)
     | Q_lock_wait op \<Rightarrow> Some (mutex_wait (rt p) p op s)
     | Q_lock_sleep op \<Rightarrow> None
     | Q_test op \<Rightarrow>
         if q_blocked op s then Some (goto p (Q_load op) s)
         else map_option (goto p (Q_unlock op)) (q_apply op s)
     | Q_load op \<Rightarrow> Some (goto p (Q_release op (af_value (qf_cv s (waits op)))) s)
     | Q_release op gen \<Rightarrow> Some (goto p (Q_released op gen) (mutex_store s))
     | Q_released op gen \<Rightarrow> Some (goto p (Q_check op gen) (mutex_notify s))
     | Q_check op gen \<Rightarrow>
         Some (goto p (if af_value (qf_cv s (waits op)) = gen then Q_wait op gen else Q_lock op) s)
     | Q_wait op gen \<Rightarrow> Some (cv_wait (rt p) p (waits op) op gen s)
     | Q_sleep op gen \<Rightarrow> None
     | Q_unlock op \<Rightarrow> Some (goto p (Q_unlocked op) (mutex_store s))
     | Q_unlocked op \<Rightarrow> Some (goto p (Q_signal op) (mutex_notify s))
     | Q_signal op \<Rightarrow> Some (goto p (Q_signalled op) (cv_add (signals op) s))
     | Q_signalled op \<Rightarrow> Some (goto p Q_idle (cv_notify (signals op) s)))"

text \<open>The coroutines \<open>ps\<close> call operations in any order and move in any order.\<close>

inductive qf_sys :: "(ptr \<Rightarrow> ptr) \<Rightarrow> ptr list \<Rightarrow> 'a qf \<Rightarrow> 'a qf \<Rightarrow> bool" for rt ps where
  call: "p \<in> set ps \<Longrightarrow> qf_procs s p = Q_idle \<Longrightarrow> qf_sys rt ps s (goto p (Q_lock op) s)"
| move: "p \<in> set ps \<Longrightarrow> qf_step rt weak p s = Some s' \<Longrightarrow> qf_sys rt ps s s'"

section \<open>Invariants\<close>

definition qn :: "ptr list \<Rightarrow> ('a qpc \<Rightarrow> bool) \<Rightarrow> 'a qf \<Rightarrow> nat" where
  "qn ps P s = cnt ps P (qf_procs s)"

fun holds :: "'a qpc \<Rightarrow> bool" where
  "holds (Q_test op) = True"
| "holds (Q_load op) = True"
| "holds (Q_release op gen) = True"
| "holds (Q_unlock op) = True"
| "holds pc = False"

fun lock_sleeps :: "'a qpc \<Rightarrow> bool" where
  "lock_sleeps (Q_lock_sleep op) = True"
| "lock_sleeps pc = False"

fun cv_sleeps :: "side \<Rightarrow> 'a qpc \<Rightarrow> bool" where
  "cv_sleeps c (Q_sleep op gen) = (waits op = c)"
| "cv_sleeps c pc = False"

definition listed :: "ptr list \<Rightarrow> ('a qpc \<Rightarrow> bool) \<Rightarrow> 'v afutex \<Rightarrow> 'a qf \<Rightarrow> bool" where
  "listed ps P f s \<longleftrightarrow> distinct (map fst (af_waiters f)) \<and>
     fst ` set (af_waiters f) = {p \<in> set ps. P (qf_procs s p)}"

definition lists_ok :: "ptr list \<Rightarrow> 'a qf \<Rightarrow> bool" where
  "lists_ok ps s \<longleftrightarrow> listed ps lock_sleeps (qf_mutex s) s \<and> (\<forall>c. listed ps (cv_sleeps c) (qf_cv s c) s)"

definition qmutex_ok :: "ptr list \<Rightarrow> 'a qf \<Rightarrow> bool" where
  "qmutex_ok ps s \<longleftrightarrow> qn ps holds s = (if af_value (qf_mutex s) then 1 else 0)"

definition queue_ok :: "'a qf \<Rightarrow> bool" where
  "queue_ok s \<longleftrightarrow> qf_in s = qf_out s @ qf_queue s \<and> length (qf_queue s) \<le> qf_capacity s"

lemma goto_sel [simp]:
  "qf_procs (goto p pc s) = (qf_procs s)(p := pc)" "qf_queue (goto p pc s) = qf_queue s"
  "qf_capacity (goto p pc s) = qf_capacity s" "qf_mutex (goto p pc s) = qf_mutex s"
  "qf_cv (goto p pc s) = qf_cv s" "qf_in (goto p pc s) = qf_in s" "qf_out (goto p pc s) = qf_out s"
  by (simp_all add: goto_def)

lemma cv_upd_sel [simp]:
  "qf_procs (cv_upd c f s) = qf_procs s" "qf_queue (cv_upd c f s) = qf_queue s"
  "qf_capacity (cv_upd c f s) = qf_capacity s" "qf_mutex (cv_upd c f s) = qf_mutex s"
  "qf_cv (cv_upd c f s) = (qf_cv s)(c := f)" "qf_in (cv_upd c f s) = qf_in s" "qf_out (cv_upd c f s) = qf_out s"
  by (simp_all add: cv_upd_def)

lemma mutex_store_sel [simp]:
  "qf_procs (mutex_store s) = qf_procs s" "qf_queue (mutex_store s) = qf_queue s"
  "qf_capacity (mutex_store s) = qf_capacity s" "qf_mutex (mutex_store s) = (qf_mutex s)\<lparr>af_value := False\<rparr>"
  "qf_cv (mutex_store s) = qf_cv s" "qf_in (mutex_store s) = qf_in s" "qf_out (mutex_store s) = qf_out s"
  by (simp_all add: mutex_store_def)

text \<open>Counting after one coroutine has moved.\<close>

lemma qn_goto:
  assumes "distinct ps" and "p \<in> set ps"
  shows "qn ps P (goto p pc s) + of_bool (P (qf_procs s p)) = qn ps P s + of_bool (P pc)"
  unfolding qn_def goto_sel by (rule cnt_upd [OF assms])

lemma qn_frame: "qf_procs s' = qf_procs s \<Longrightarrow> qn ps P s' = qn ps P s"
  by (simp add: qn_def)

lemma qn_mono: "(\<And>pc. P pc \<Longrightarrow> Q pc) \<Longrightarrow> qn ps P s \<le> qn ps Q s"
  unfolding qn_def by (rule cnt_mono)

lemma qn_pos: "p \<in> set ps \<Longrightarrow> P (qf_procs s p) \<Longrightarrow> 0 < qn ps P s"
  unfolding qn_def by (rule cnt_pos)

text \<open>Waking changes where the woken coroutines are, and nothing else.\<close>

lemma wake_sel [simp]:
  "qf_queue (wake ws s) = qf_queue s" "qf_capacity (wake ws s) = qf_capacity s" "qf_mutex (wake ws s) = qf_mutex s"
  "qf_cv (wake ws s) = qf_cv s" "qf_in (wake ws s) = qf_in s" "qf_out (wake ws s) = qf_out s"
  unfolding wake_def by (induction ws arbitrary: s) (simp_all add: case_prod_beta)

lemma wake_procs:
  assumes "\<And>pc. P (resume pc) = P pc"
  shows "P (qf_procs (wake ws s) p) = P (qf_procs s p)"
  unfolding wake_def by (induction ws arbitrary: s) (simp_all add: case_prod_beta assms)

lemma qn_wake: "(\<And>pc. P (resume pc) = P pc) \<Longrightarrow> qn ps P (wake ws s) = qn ps P s"
  by (simp add: qn_def cnt_def wake_procs)

lemma holds_resume [simp]: "holds (resume pc) = holds pc"
  by (cases pc) simp_all

lemma mutex_notify_sel [simp]:
  "qf_queue (mutex_notify s) = qf_queue s" "qf_capacity (mutex_notify s) = qf_capacity s"
  "af_value (qf_mutex (mutex_notify s)) = af_value (qf_mutex s)" "af_waiters (qf_mutex (mutex_notify s)) = tl (af_waiters (qf_mutex s))"
  "qf_cv (mutex_notify s) = qf_cv s" "qf_in (mutex_notify s) = qf_in s" "qf_out (mutex_notify s) = qf_out s"
  by (simp_all add: mutex_notify_def split: list.splits prod.splits)

lemma cv_notify_sel [simp]:
  "qf_queue (cv_notify c s) = qf_queue s" "qf_capacity (cv_notify c s) = qf_capacity s"
  "qf_mutex (cv_notify c s) = qf_mutex s" "qf_in (cv_notify c s) = qf_in s" "qf_out (cv_notify c s) = qf_out s"
  "af_value (qf_cv (cv_notify c s) d) = af_value (qf_cv s d)"
  "af_waiters (qf_cv (cv_notify c s) d) = (if d = c then tl (af_waiters (qf_cv s d)) else af_waiters (qf_cv s d))"
  by (simp_all add: cv_notify_def split: list.splits prod.splits)

lemma notify_procs:
  assumes "\<And>pc. P (resume pc) = P pc"
  shows "P (qf_procs (mutex_notify s) p) = P (qf_procs s p)" and "P (qf_procs (cv_notify c s) p) = P (qf_procs s p)"
  by (simp_all add: mutex_notify_def cv_notify_def wake_procs [of P, OF assms] split: prod.splits)

lemma qn_notify:
  assumes "\<And>pc. P (resume pc) = P pc"
  shows "qn ps P (mutex_notify s) = qn ps P s" and "qn ps P (cv_notify c s) = qn ps P s"
  by (simp_all add: qn_def cnt_def notify_procs [of P, OF assms])

lemma cv_add_sel [simp]:
  "qf_procs (cv_add c s) = qf_procs s" "qf_queue (cv_add c s) = qf_queue s" "qf_capacity (cv_add c s) = qf_capacity s"
  "qf_mutex (cv_add c s) = qf_mutex s" "qf_in (cv_add c s) = qf_in s" "qf_out (cv_add c s) = qf_out s"
  "qf_cv (cv_add c s) = (qf_cv s)(c := (qf_cv s c)\<lparr>af_value := af_value (qf_cv s c) + 1\<rparr>)"
  by (simp_all add: cv_add_def)

lemma q_apply_sel:
  assumes "q_apply op s = Some s1"
  shows "qf_procs s1 = qf_procs s" "qf_mutex s1 = qf_mutex s" "qf_cv s1 = qf_cv s" "qf_capacity s1 = qf_capacity s"
  using assms by (cases op; auto split: list.splits)+

lemma q_apply_enabled: "\<not> q_blocked op s \<Longrightarrow> \<exists>s1. q_apply op s = Some s1"
  by (cases op) (auto simp: neq_Nil_conv)

lemmas step_defs = qf_step_def mutex_exchange_def mutex_wait_def cv_wait_def

text \<open>A step is a change of the shared state, which may wake others, and a move of the coroutine.\<close>

inductive moves :: "ptr \<Rightarrow> 'a qf \<Rightarrow> 'a qf \<Rightarrow> bool" where
  alone: "qf_procs s1 = qf_procs s \<Longrightarrow> moves p s (goto p pc s1)"
| unlocks: "moves p s (goto p pc (mutex_notify s))"
| notifies: "moves p s (goto p pc (cv_notify c s))"

lemma step_moves:
  assumes "qf_step rt weak p s = Some s'"
  shows "moves p s s'"
  using assms by (cases "qf_procs s p")
    (auto simp: step_defs split: if_splits intro!: moves.intros(2,3) moves.alone dest: q_apply_sel(1))

lemma step_others:
  assumes "qf_step rt weak p s = Some s'" and "\<And>pc. P (resume pc) = P pc" and "q \<noteq> p"
  shows "P (qf_procs s' q) = P (qf_procs s q)"
  using step_moves [OF assms(1)] assms(3) notify_procs [of P, OF assms(2)] by cases auto

lemma qn_step:
  assumes "qf_step rt weak p s = Some s'" and "\<And>pc. P (resume pc) = P pc" and "distinct ps" and "p \<in> set ps"
  shows "qn ps P s' + of_bool (P (qf_procs s p)) = qn ps P s + of_bool (P (qf_procs s' p))"
  using step_moves [OF assms(1)]
proof cases
  case (alone s1 pc)
  then show ?thesis using qn_goto [OF assms(3,4), of P pc s1] qn_frame [OF alone(2), of ps P] by simp
next
  case (unlocks pc)
  then show ?thesis using qn_goto [OF assms(3,4), of P pc "mutex_notify s"]
    by (simp add: notify_procs [of P, OF assms(2)] qn_notify [of P, OF assms(2)])
next
  case (notifies pc c)
  then show ?thesis using qn_goto [OF assms(3,4), of P pc "cv_notify c s"]
    by (simp add: notify_procs [of P, OF assms(2)] qn_notify [of P, OF assms(2)])
qed

lemma step_mutex:
  assumes "qf_step rt weak p s = Some s'" and "distinct ps" and "p \<in> set ps" and inv: "qmutex_ok ps s"
  shows "qmutex_ok ps s'"
proof -
  have pos: "holds (qf_procs s p) \<Longrightarrow> af_value (qf_mutex s)"
    using qn_pos [OF assms(3), of holds s] inv by (auto simp: qmutex_ok_def split: if_splits)
  note count = qn_step [where P = holds, OF assms(1) holds_resume assms(2,3)]
  show ?thesis
    using assms(1) count pos inv unfolding qmutex_ok_def
    by (cases "qf_procs s p") (auto simp: step_defs q_apply_sel split: if_splits)
qed

lemma step_queue:
  assumes "qf_step rt weak p s = Some s'" and "queue_ok s"
  shows "queue_ok s'"
proof (cases "qf_procs s p")
  case (Q_test op)
  then show ?thesis using assms
    by (cases op) (auto simp: step_defs queue_ok_def split: if_splits list.splits)
qed (use assms in \<open>auto simp: step_defs queue_ok_def split: if_splits\<close>)

text \<open>The lists of the futexes hold the coroutines that sleep.\<close>

lemma listed_goto:
  "listed ps P f s \<Longrightarrow> \<not> P (qf_procs s p) \<Longrightarrow> \<not> P pc \<Longrightarrow> listed ps P f (goto p pc s)"
  by (auto simp: listed_def)

lemma listed_frame:
  "listed ps P f s \<Longrightarrow> qf_procs s' = qf_procs s \<Longrightarrow> af_waiters f' = af_waiters f \<Longrightarrow> listed ps P f' s'"
  by (auto simp: listed_def)

lemma listed_enlist:
  assumes "listed ps P f s" and "\<not> P (qf_procs s p)" and "P pc" and "p \<in> set ps"
    and "qf_procs s' = qf_procs s" and "af_waiters f' = af_waiters f @ [(p, r)]"
  shows "listed ps P f' (goto p pc s')"
  using assms by (auto simp: listed_def)

lemma mutex_notify_cases:
  assumes "lists_ok ps s"
  obtains (none) "af_waiters (qf_mutex s) = []" "qf_procs (mutex_notify s) = qf_procs s"
  | (one) q r ws op where "af_waiters (qf_mutex s) = (q, r) # ws" "q \<in> set ps" "qf_procs s q = Q_lock_sleep op"
      "qf_procs (mutex_notify s) = (qf_procs s)(q := Q_lock op)"
proof (cases "af_waiters (qf_mutex s)")
  case Nil
  then show ?thesis using none by (simp add: mutex_notify_def wake_def)
next
  case (Cons w ws)
  obtain q r where w: "w = (q, r)" by (cases w)
  have "q \<in> set ps" "lock_sleeps (qf_procs s q)"
    using assms Cons w by (auto simp: lists_ok_def listed_def)
  moreover from this obtain op where "qf_procs s q = Q_lock_sleep op" by (cases "qf_procs s q") auto
  ultimately show ?thesis using one Cons w by (simp add: mutex_notify_def wake_def)
qed

lemma cv_notify_cases:
  assumes "lists_ok ps s"
  obtains (none) "af_waiters (qf_cv s c) = []" "qf_procs (cv_notify c s) = qf_procs s"
  | (one) q r ws op gen where "af_waiters (qf_cv s c) = (q, r) # ws" "q \<in> set ps" "qf_procs s q = Q_sleep op gen"
      "waits op = c" "qf_procs (cv_notify c s) = (qf_procs s)(q := Q_check op gen)"
proof (cases "af_waiters (qf_cv s c)")
  case Nil
  then show ?thesis using none by (simp add: cv_notify_def wake_def)
next
  case (Cons w ws)
  obtain q r where w: "w = (q, r)" by (cases w)
  have "listed ps (cv_sleeps c) (qf_cv s c) s" using assms by (simp add: lists_ok_def)
  then have "q \<in> set ps" "cv_sleeps c (qf_procs s q)" using Cons w by (auto simp: listed_def)
  moreover from this obtain op gen where "qf_procs s q = Q_sleep op gen" "waits op = c" by (cases "qf_procs s q") auto
  ultimately show ?thesis using one Cons w by (simp add: cv_notify_def wake_def)
qed

lemma listed_pop:
  assumes "listed ps P f s" and "af_waiters f = (q, r) # ws" and "af_waiters f' = ws"
    and "qf_procs s' = (qf_procs s)(q := pc)" and "\<not> P pc"
  shows "listed ps P f' s'"
proof -
  have "fst ` set ws = {p \<in> set ps. P (qf_procs s p)} - {q}"
    using assms(1,2) by (force simp: listed_def)
  with assms show ?thesis by (auto simp: listed_def)
qed

lemma listed_other:
  "listed ps P f s \<Longrightarrow> qf_procs s' = (qf_procs s)(q := pc) \<Longrightarrow> \<not> P (qf_procs s q) \<Longrightarrow> \<not> P pc \<Longrightarrow>
   af_waiters f' = af_waiters f \<Longrightarrow> listed ps P f' s'"
  by (auto simp: listed_def)

lemma mutex_notify_lists:
  assumes "lists_ok ps s"
  shows "lists_ok ps (mutex_notify s)"
  using assms
proof (cases rule: mutex_notify_cases)
  case none
  then show ?thesis using assms unfolding lists_ok_def by (auto intro: listed_frame)
next
  case (one q r ws op)
  then show ?thesis using assms unfolding lists_ok_def
    by (auto intro: listed_pop [OF _ one(1) _ one(4)] listed_other [OF _ one(4)])
qed

lemma cv_notify_lists:
  assumes "lists_ok ps s"
  shows "lists_ok ps (cv_notify c s)"
  using assms
proof (cases rule: cv_notify_cases [where c = c])
  case none
  then show ?thesis using assms unfolding lists_ok_def by (auto intro: listed_frame)
next
  case (one q r ws op gen)
  have "listed ps (cv_sleeps d) (qf_cv (cv_notify c s) d) (cv_notify c s)" for d
  proof (cases "d = c")
    case True
    then show ?thesis using assms one unfolding lists_ok_def
      by (intro listed_pop [OF _ one(1) _ one(5)]) auto
  next
    case False
    then show ?thesis using assms one unfolding lists_ok_def
      by (intro listed_other [where f = "qf_cv s d", OF _ one(5)]) auto
  qed
  moreover have "listed ps lock_sleeps (qf_mutex (cv_notify c s)) (cv_notify c s)"
    using assms one unfolding lists_ok_def by (intro listed_other [where f = "qf_mutex s", OF _ one(5)]) auto
  ultimately show ?thesis by (simp add: lists_ok_def)
qed

lemma lists_goto:
  assumes "lists_ok ps s" and "qf_procs s p = pc0" and "\<not> lock_sleeps pc0" "\<not> lock_sleeps pc"
    and "\<And>c. \<not> cv_sleeps c pc0" "\<And>c. \<not> cv_sleeps c pc"
  shows "lists_ok ps (goto p pc s)"
  using assms by (auto simp: lists_ok_def intro!: listed_goto)

lemma lists_frame:
  assumes "lists_ok ps s" and "qf_procs s' = qf_procs s" and "af_waiters (qf_mutex s') = af_waiters (qf_mutex s)"
    and "\<And>c. af_waiters (qf_cv s' c) = af_waiters (qf_cv s c)"
  shows "lists_ok ps s'"
  using assms by (auto simp: lists_ok_def intro: listed_frame)

lemma awake_notified:
  assumes "lists_ok ps s" and "\<not> lock_sleeps (qf_procs s p)" and "\<And>c. \<not> cv_sleeps c (qf_procs s p)"
  shows "qf_procs (mutex_notify s) p = qf_procs s p" and "qf_procs (cv_notify c s) p = qf_procs s p"
proof -
  show "qf_procs (mutex_notify s) p = qf_procs s p"
    using assms(1) by (cases rule: mutex_notify_cases) (use assms(2) in auto)
  show "qf_procs (cv_notify c s) p = qf_procs s p"
    using assms(1) by (cases rule: cv_notify_cases [where c = c]) (use assms(3) [of c] in auto)
qed

lemma step_lists:
  assumes "qf_step rt weak p s = Some s'" and "p \<in> set ps" and inv: "lists_ok ps s"
  shows "lists_ok ps s'"
proof (cases "qf_procs s p")
  case (Q_lock_wait op)
  show ?thesis
  proof (cases "af_value (qf_mutex s)")
    case True
    then have s': "s' = goto p (Q_lock_sleep op) (s\<lparr>qf_mutex := (qf_mutex s)\<lparr>af_waiters := af_waiters (qf_mutex s) @ [(p, rt p)]\<rparr>\<rparr>)"
      using assms(1) Q_lock_wait by (simp add: step_defs)
    have "listed ps lock_sleeps (qf_mutex s') s'"
      unfolding s' using inv Q_lock_wait assms(2)
      by (intro listed_enlist [where f = "qf_mutex s" and s = s]) (auto simp: lists_ok_def)
    moreover have "listed ps (cv_sleeps c) (qf_cv s' c) s'" for c
      unfolding s' using inv Q_lock_wait by (intro listed_goto) (auto simp: lists_ok_def intro: listed_frame)
    ultimately show ?thesis by (simp add: lists_ok_def)
  next
    case False
    then show ?thesis using assms(1) inv Q_lock_wait by (auto simp: step_defs intro!: lists_goto intro: lists_frame)
  qed
next
  case (Q_wait op gen)
  show ?thesis
  proof (cases "af_value (qf_cv s (waits op)) = gen")
    case True
    let ?f = "(qf_cv s (waits op))\<lparr>af_waiters := af_waiters (qf_cv s (waits op)) @ [(p, rt p)]\<rparr>"
    from True have s': "s' = goto p (Q_sleep op gen) (cv_upd (waits op) ?f s)"
      using assms(1) Q_wait by (auto simp: step_defs)
    have "listed ps lock_sleeps (qf_mutex s') s'"
      unfolding s' using inv Q_wait by (intro listed_goto) (auto simp: lists_ok_def intro: listed_frame)
    moreover have "listed ps (cv_sleeps c) (qf_cv s' c) s'" for c
    proof (cases "c = waits op")
      case True
      then show ?thesis unfolding s' using inv Q_wait assms(2)
        by (intro listed_enlist [where f = "qf_cv s c" and s = s]) (auto simp: lists_ok_def)
    next
      case False
      then show ?thesis unfolding s' using inv Q_wait by (intro listed_goto) (auto simp: lists_ok_def intro: listed_frame)
    qed
    ultimately show ?thesis by (simp add: lists_ok_def)
  next
    case False
    then show ?thesis using assms(1) inv Q_wait by (auto simp: step_defs intro!: lists_goto intro: lists_frame)
  qed
next
  case (Q_lock op)
  then show ?thesis using assms(1) inv
    by (auto simp: step_defs intro!: lists_goto intro: lists_frame split: if_splits)
next
  case (Q_test op)
  then show ?thesis using assms(1) inv
    by (auto simp: step_defs q_apply_sel intro!: lists_goto intro: lists_frame split: if_splits)
next
  case (Q_released op gen)
  then show ?thesis using assms(1) inv awake_notified(1) [OF inv, of p]
    by (auto simp: step_defs intro!: lists_goto mutex_notify_lists)
next
  case (Q_unlocked op)
  then show ?thesis using assms(1) inv awake_notified(1) [OF inv, of p]
    by (auto simp: step_defs intro!: lists_goto mutex_notify_lists)
next
  case (Q_signalled op)
  then show ?thesis using assms(1) inv awake_notified(2) [OF inv, of p]
    by (auto simp: step_defs intro!: lists_goto cv_notify_lists)
qed (use assms(1) inv in \<open>auto simp: step_defs intro!: lists_goto intro: lists_frame split: if_splits\<close>)

text \<open>Only the holder of the mutex changes the queue, so a blocked holder stays blocked.\<close>

definition loads_ok :: "ptr list \<Rightarrow> 'a qf \<Rightarrow> bool" where
  "loads_ok ps s \<longleftrightarrow> (\<forall>p op. p \<in> set ps \<longrightarrow> qf_procs s p = Q_load op \<longrightarrow> q_blocked op s)"

lemma step_same_queue:
  assumes "qf_step rt weak p s = Some s'" and "\<not> holds (qf_procs s p)"
  shows "qf_queue s' = qf_queue s" and "qf_capacity s' = qf_capacity s" and "qf_in s' = qf_in s" and "qf_out s' = qf_out s"
  using assms by (cases "qf_procs s p"; auto simp: step_defs split: if_splits)+

lemma step_to_load:
  assumes "qf_step rt weak p s = Some s'" and "qf_procs s' p = Q_load op"
  shows "q_blocked op s \<and> s' = goto p (Q_load op) s"
  using assms by (cases "qf_procs s p") (auto simp: step_defs split: if_splits)

lemma blocked_cong: "qf_queue s' = qf_queue s \<Longrightarrow> qf_capacity s' = qf_capacity s \<Longrightarrow> q_blocked op s' = q_blocked op s"
  by (cases op) simp_all

lemma step_loads:
  assumes "qf_step rt weak p s = Some s'" and "distinct ps" and "p \<in> set ps" and "qmutex_ok ps s" and inv: "loads_ok ps s"
  shows "loads_ok ps s'"
  unfolding loads_ok_def
proof (intro allI impI)
  fix q op assume q: "q \<in> set ps" "qf_procs s' q = Q_load op"
  show "q_blocked op s'"
  proof (cases "q = p")
    case True
    from step_to_load [OF assms(1)] q(2) True have "q_blocked op s" "s' = goto p (Q_load op) s" by auto
    then show ?thesis using blocked_cong [of s' s op] by simp
  next
    case False
    have resume: "(resume pc = Q_load op) = (pc = Q_load op)" for pc by (cases pc) auto
    have load: "qf_procs s q = Q_load op"
      using step_others [where P = "\<lambda>pc. pc = Q_load op", OF assms(1) resume False] q(2) by simp
    have "\<not> holds (qf_procs s p)"
    proof
      assume h: "holds (qf_procs s p)"
      have "cnt ps holds (qf_procs s) \<le> 1" using assms(4) by (simp add: qmutex_ok_def qn_def)
      from cnt_unique [of ps holds, OF this assms(3) q(1) h] load False show False by simp
    qed
    note same = step_same_queue [OF assms(1) this]
    have "q_blocked op s" using inv load q(1) by (simp add: loads_ok_def)
    then show ?thesis using blocked_cong [OF same(1,2)] by simp
  qed
qed

section \<open>Wake-ups\<close>

text \<open>
  A coroutine that sleeps for the mutex while it is free: somebody is about to notify it or to try
  the exchange.
\<close>

fun seeks :: "'a qpc \<Rightarrow> bool" where
  "seeks (Q_lock op) = True"
| "seeks (Q_lock_wait op) = True"
| "seeks (Q_released op gen) = True"
| "seeks (Q_unlocked op) = True"
| "seeks pc = False"

definition seeks_ok :: "ptr list \<Rightarrow> 'a qf \<Rightarrow> bool" where
  "seeks_ok ps s \<longleftrightarrow> (\<not> af_value (qf_mutex s) \<longrightarrow> af_waiters (qf_mutex s) \<noteq> [] \<longrightarrow> (\<exists>p \<in> set ps. seeks (qf_procs s p)))"

text \<open>What an operation waits for: items or free places. \<open>hist\<close> counts the changes that are notified.\<close>

fun avail :: "side \<Rightarrow> 'a qf \<Rightarrow> nat" where
  "avail Not_empty s = length (qf_queue s)"
| "avail Not_full s = qf_capacity s - length (qf_queue s)"

fun hist :: "side \<Rightarrow> 'a qf \<Rightarrow> nat" where
  "hist Not_empty s = length (qf_in s)"
| "hist Not_full s = length (qf_out s)"

text \<open>The generation that a coroutine waits to change.\<close>

fun cv_gen :: "side \<Rightarrow> 'a qpc \<Rightarrow> u32 option" where
  "cv_gen c (Q_release op gen) = (if waits op = c then Some gen else None)"
| "cv_gen c (Q_released op gen) = (if waits op = c then Some gen else None)"
| "cv_gen c (Q_check op gen) = (if waits op = c then Some gen else None)"
| "cv_gen c (Q_wait op gen) = (if waits op = c then Some gen else None)"
| "cv_gen c (Q_sleep op gen) = (if waits op = c then Some gen else None)"
| "cv_gen c pc = None"

text \<open>Changes of the queue before the addition to the generation, and before the notification.\<close>

fun unsignalled :: "side \<Rightarrow> 'a qpc \<Rightarrow> bool" where
  "unsignalled c (Q_unlock op) = (signals op = c)"
| "unsignalled c (Q_unlocked op) = (signals op = c)"
| "unsignalled c (Q_signal op) = (signals op = c)"
| "unsignalled c pc = False"

fun pending :: "side \<Rightarrow> 'a qpc \<Rightarrow> bool" where
  "pending c (Q_signalled op) = (signals op = c)"
| "pending c pc = unsignalled c pc"

text \<open>Coroutines that will look at the queue again without being notified.\<close>

fun awake :: "side \<Rightarrow> u32 \<Rightarrow> 'a qpc \<Rightarrow> bool" where
  "awake c g (Q_lock op) = (waits op = c)"
| "awake c g (Q_lock_wait op) = (waits op = c)"
| "awake c g (Q_lock_sleep op) = (waits op = c)"
| "awake c g (Q_test op) = (waits op = c)"
| "awake c g (Q_sleep op gen) = False"
| "awake c g pc = (\<exists>gen. cv_gen c pc = Some gen \<and> gen \<noteq> g)"

abbreviation cv_value :: "side \<Rightarrow> 'a qf \<Rightarrow> u32" where
  "cv_value c s \<equiv> af_value (qf_cv s c)"

definition signalled :: "ptr list \<Rightarrow> side \<Rightarrow> 'a qf \<Rightarrow> nat" where
  "signalled ps c s = hist c s - qn ps (unsignalled c) s"

definition gens_ok :: "ptr list \<Rightarrow> 'a qf \<Rightarrow> bool" where
  "gens_ok ps s \<longleftrightarrow> (\<forall>c. qn ps (unsignalled c) s \<le> hist c s \<and> cv_value c s = of_nat (signalled ps c s) \<and>
     (\<forall>p gen. p \<in> set ps \<longrightarrow> cv_gen c (qf_procs s p) = Some gen \<longrightarrow> (\<exists>m \<le> signalled ps c s. gen = of_nat m)))"

definition fresh_ok :: "ptr list \<Rightarrow> side \<Rightarrow> 'a qf \<Rightarrow> bool" where
  "fresh_ok ps c s \<longleftrightarrow> (\<forall>p. p \<in> set ps \<longrightarrow> cv_gen c (qf_procs s p) = Some (cv_value c s) \<longrightarrow>
     avail c s \<le> qn ps (unsignalled c) s)"

definition wakes_ok :: "ptr list \<Rightarrow> side \<Rightarrow> 'a qf \<Rightarrow> bool" where
  "wakes_ok ps c s \<longleftrightarrow> (af_waiters (qf_cv s c) \<noteq> [] \<longrightarrow>
     avail c s \<le> qn ps (pending c) s + qn ps (awake c (cv_value c s)) s)"

lemma resume_simps [simp]:
  "cv_gen c (resume pc) = cv_gen c pc" "unsignalled c (resume pc) = unsignalled c pc" "pending c (resume pc) = pending c pc"
  by (cases pc; simp)+

lemma sides [simp]: "(waits op = c) = (signals op \<noteq> c)"
  by (cases op; cases c) auto

lemma blocked_avail: "q_blocked op s \<longleftrightarrow> avail (waits op) s = 0"
  by (cases op) auto

lemma apply_avail:
  assumes "q_apply op s = Some s1" and "\<not> q_blocked op s" and room: "length (qf_queue s) \<le> qf_capacity s"
  shows "avail c s1 + of_bool (signals op \<noteq> c) = avail c s + of_bool (signals op = c)"
    and "hist c s1 = hist c s + of_bool (signals op = c)"
proof -
  have "avail c s1 + of_bool (signals op \<noteq> c) = avail c s + of_bool (signals op = c) \<and>
      hist c s1 = hist c s + of_bool (signals op = c)"
  proof (cases op)
    case (Enqueue x)
    then have "s1 = s\<lparr>qf_queue := qf_queue s @ [x], qf_in := qf_in s @ [x]\<rparr>" using assms(1) by simp
    then show ?thesis using Enqueue assms(2) by (cases c) simp_all
  next
    case Dequeue
    then obtain x xs where "qf_queue s = x # xs" using assms(2) by (cases "qf_queue s") simp_all
    moreover from this have "s1 = s\<lparr>qf_queue := xs, qf_out := qf_out s @ [x]\<rparr>" using assms(1) Dequeue by simp
    ultimately show ?thesis using Dequeue room by (cases c) simp_all
  qed
  then show "avail c s1 + of_bool (signals op \<noteq> c) = avail c s + of_bool (signals op = c)"
    "hist c s1 = hist c s + of_bool (signals op = c)" by simp_all
qed

lemma qn_upd:
  assumes "distinct ps" and "q \<in> set ps" and "qf_procs s' = (qf_procs s)(q := pc)"
  shows "qn ps P s' + of_bool (P (qf_procs s q)) = qn ps P s + of_bool (P pc)"
  using qn_goto [OF assms(1,2), of P pc s] qn_frame [of s' "goto q pc s" ps P] assms(3) by simp

lemma step_seeks:
  assumes "qf_step rt weak p s = Some s'" and "p \<in> set ps" and "lists_ok ps s" and inv: "seeks_ok ps s"
  shows "seeks_ok ps s'"
  unfolding seeks_ok_def
proof (intro impI)
  assume free: "\<not> af_value (qf_mutex s')" and wait: "af_waiters (qf_mutex s') \<noteq> []"
  show "\<exists>q \<in> set ps. seeks (qf_procs s' q)"
  proof (cases "seeks (qf_procs s' p)")
    case True
    then show ?thesis using assms(2) by blast
  next
    case False
    then have "(\<exists>op gen. qf_procs s p = Q_released op gen) \<or> (\<exists>op. qf_procs s p = Q_unlocked op) \<or>
        \<not> seeks (qf_procs s p) \<and> \<not> af_value (qf_mutex s) \<and> af_waiters (qf_mutex s) \<noteq> []"
      using assms(1) free wait by (cases "qf_procs s p") (auto simp: step_defs q_apply_sel split: if_splits)
    then consider (notify) pc where "s' = goto p pc (mutex_notify s)"
      | (other) "\<not> seeks (qf_procs s p)" "\<not> af_value (qf_mutex s)" "af_waiters (qf_mutex s) \<noteq> []"
      using assms(1) by (auto simp: step_defs)
    then show ?thesis
    proof cases
      case notify
      from assms(3) show ?thesis
      proof (cases rule: mutex_notify_cases)
        case none
        then show ?thesis using wait notify by simp
      next
        case (one q r ws op)
        have "q \<noteq> p"
        proof
          assume "q = p"
          with one(3) assms(1) show False by (simp add: step_defs)
        qed
        with one notify show ?thesis by (intro bexI [of _ q]) simp_all
      qed
    next
      case other
      with inv obtain q where q: "q \<in> set ps" "seeks (qf_procs s q)" by (auto simp: seeks_ok_def)
      then have "q \<noteq> p" using other by auto
      have "seeks (qf_procs s' q)" using step_moves [OF assms(1)]
      proof cases
        case (alone s1 pc)
        then show ?thesis using q \<open>q \<noteq> p\<close> by simp
      next
        case (unlocks pc)
        have "qf_procs (mutex_notify s) q = qf_procs s q"
          using awake_notified(1) [OF assms(3), of q] q(2) by (cases "qf_procs s q") simp_all
        then show ?thesis using unlocks q \<open>q \<noteq> p\<close> by simp
      next
        case (notifies pc c)
        have "qf_procs (cv_notify c s) q = qf_procs s q"
          using awake_notified(2) [OF assms(3), of q] q(2) by (cases "qf_procs s q") simp_all
        then show ?thesis using notifies q \<open>q \<noteq> p\<close> by simp
      qed
      then show ?thesis using q(1) by blast
    qed
  qed
qed

text \<open>The steps that raise a generation.\<close>

fun raises :: "side \<Rightarrow> 'a qpc \<Rightarrow> bool" where
  "raises c (Q_signal op) = (signals op = c)"
| "raises c pc = False"

lemma step_value:
  assumes "qf_step rt weak p s = Some s'"
  shows "cv_value c s' = cv_value c s + of_bool (raises c (qf_procs s p))"
  using assms by (cases "qf_procs s p") (auto simp: step_defs q_apply_sel split: if_splits)

lemma avail_cong: "qf_queue s' = qf_queue s \<Longrightarrow> qf_capacity s' = qf_capacity s \<Longrightarrow> avail c s' = avail c s"
  by (cases c) simp_all

lemma hist_cong: "qf_in s' = qf_in s \<Longrightarrow> qf_out s' = qf_out s \<Longrightarrow> hist c s' = hist c s"
  by (cases c) simp_all

lemma goto_avail [simp]: "avail c (goto p pc s) = avail c s" "hist c (goto p pc s) = hist c s"
  by (cases c; simp)+

text \<open>Only a change of the queue changes what is available.\<close>

lemma step_effect:
  assumes "qf_step rt weak p s = Some s'" and "queue_ok s"
  obtains (change) op where "qf_procs s p = Q_test op" "\<not> q_blocked op s" "qf_procs s' = (qf_procs s)(p := Q_unlock op)"
      "\<And>c. avail c s' + of_bool (signals op \<noteq> c) = avail c s + of_bool (signals op = c)"
      "\<And>c. hist c s' = hist c s + of_bool (signals op = c)" "qf_cv s' = qf_cv s"
  | (keep) "\<And>c. avail c s' = avail c s" "\<And>c. hist c s' = hist c s" "\<And>c. \<not> unsignalled c (qf_procs s p) \<Longrightarrow> \<not> unsignalled c (qf_procs s' p)"
      "\<And>c. unsignalled c (qf_procs s p) \<Longrightarrow> unsignalled c (qf_procs s' p) = (\<not> raises c (qf_procs s p))"
proof (cases "\<exists>op. qf_procs s p = Q_test op \<and> \<not> q_blocked op s")
  case True
  then obtain op where op: "qf_procs s p = Q_test op" "\<not> q_blocked op s" by blast
  then obtain s1 where s1: "q_apply op s = Some s1" "s' = goto p (Q_unlock op) s1"
    using assms(1) by (auto simp: step_defs)
  have room: "length (qf_queue s) \<le> qf_capacity s" using assms(2) by (simp add: queue_ok_def)
  have a: "avail c s' = avail c s1" "hist c s' = hist c s1" for c
    using avail_cong [of s' s1] hist_cong [of s' s1] s1(2) by simp_all
  show ?thesis
    by (rule change [OF op]) (simp_all add: a apply_avail [OF s1(1) op(2) room] s1(2) q_apply_sel [OF s1(1)])
next
  case False
  have "qf_queue s' = qf_queue s" "qf_capacity s' = qf_capacity s" "qf_in s' = qf_in s" "qf_out s' = qf_out s"
    using assms(1) False by (cases "qf_procs s p"; auto simp: step_defs split: if_splits)+
  then have "avail c s' = avail c s" "hist c s' = hist c s" for c by (auto intro: avail_cong hist_cong)
  moreover have "\<not> unsignalled c (qf_procs s' p)" if "\<not> unsignalled c (qf_procs s p)" for c
    using assms(1) that False by (cases "qf_procs s p") (auto simp: step_defs split: if_splits)
  moreover have "unsignalled c (qf_procs s' p) = (\<not> raises c (qf_procs s p))" if "unsignalled c (qf_procs s p)" for c
    using assms(1) that by (cases "qf_procs s p") (auto simp: step_defs split: if_splits)
  ultimately show ?thesis by (rule keep)
qed

lemma step_account:
  assumes "qf_step rt weak p s = Some s'" and "queue_ok s" and "distinct ps" and "p \<in> set ps"
  shows "qn ps (unsignalled c) s' + hist c s + of_bool (raises c (qf_procs s p)) = qn ps (unsignalled c) s + hist c s'"
    and "avail c s' + qn ps (unsignalled c) s \<le> avail c s + qn ps (unsignalled c) s' + of_bool (raises c (qf_procs s p))"
proof -
  note count = qn_step [where P = "unsignalled c", OF assms(1) resume_simps(2) assms(3,4)]
  have r: "raises c (qf_procs s p) \<Longrightarrow> unsignalled c (qf_procs s p)" by (cases "qf_procs s p") simp_all
  from assms(1,2) have "qn ps (unsignalled c) s' + hist c s + of_bool (raises c (qf_procs s p)) = qn ps (unsignalled c) s + hist c s' \<and>
      avail c s' + qn ps (unsignalled c) s \<le> avail c s + qn ps (unsignalled c) s' + of_bool (raises c (qf_procs s p))"
  proof (cases rule: step_effect)
    case (change op)
    from count change(4) [of c] change(5) [of c] change(1,3) show ?thesis by (cases "signals op = c") simp_all
  next
    case keep
    from count keep(1) [of c] keep(2) [of c] keep(3) [of c] keep(4) [of c] r show ?thesis
      by (cases "unsignalled c (qf_procs s p)"; cases "raises c (qf_procs s p)") simp_all
  qed
  then show "qn ps (unsignalled c) s' + hist c s + of_bool (raises c (qf_procs s p)) = qn ps (unsignalled c) s + hist c s'"
    "avail c s' + qn ps (unsignalled c) s \<le> avail c s + qn ps (unsignalled c) s' + of_bool (raises c (qf_procs s p))" by simp_all
qed

lemma step_gen:
  assumes "qf_step rt weak p s = Some s'" and "cv_gen c (qf_procs s' p) = Some gen"
  shows "cv_gen c (qf_procs s p) = Some gen \<or> (\<exists>op. qf_procs s p = Q_load op \<and> waits op = c) \<and> gen = cv_value c s"
  using assms by (cases "qf_procs s p") (auto simp: step_defs simp del: sides split: if_splits)

lemma gens_okD:
  "gens_ok ps s \<Longrightarrow> p \<in> set ps \<Longrightarrow> cv_gen c (qf_procs s p) = Some gen \<Longrightarrow> \<exists>m \<le> signalled ps c s. gen = of_nat m"
  unfolding gens_ok_def by blast

lemma step_gen_others:
  assumes "qf_step rt weak p s = Some s'" and "q \<noteq> p"
  shows "cv_gen c (qf_procs s' q) = cv_gen c (qf_procs s q)"
  using step_others [where P = "\<lambda>pc. cv_gen c pc = cv_gen c (qf_procs s q)", OF assms(1) _ assms(2)] by simp

lemma step_gens:
  assumes "qf_step rt weak p s = Some s'" and "queue_ok s" and "distinct ps" and "p \<in> set ps" and inv: "gens_ok ps s"
  shows "gens_ok ps s'" and "signalled ps c s' = signalled ps c s + of_bool (raises c (qf_procs s p))"
proof -
  have le: "qn ps (unsignalled c) s \<le> hist c s" and val: "cv_value c s = of_nat (signalled ps c s)" for c
    using inv by (simp_all add: gens_ok_def)
  have le': "qn ps (unsignalled c) s' \<le> hist c s'" for c
    using step_account(1) [OF assms(1-4), of c] le [of c] by linarith
  have sig: "signalled ps c s' = signalled ps c s + of_bool (raises c (qf_procs s p))" for c
    using step_account(1) [OF assms(1-4), of c] le [of c] le' [of c] unfolding signalled_def by linarith
  have val': "cv_value c s' = of_nat (signalled ps c s')" for c
    using step_value [OF assms(1), of c] val [of c] sig [of c] by simp
  have "\<exists>m \<le> signalled ps c s'. gen = of_nat m"
    if q: "q \<in> set ps" "cv_gen c (qf_procs s' q) = Some gen" for c q gen
  proof -
    have "cv_gen c (qf_procs s q) = Some gen \<or> gen = cv_value c s"
      using step_gen [OF assms(1)] step_gen_others [OF assms(1)] q(2) by (cases "q = p") auto
    then obtain m where "m \<le> signalled ps c s" "gen = of_nat m"
      using gens_okD [OF inv q(1)] val [of c] by blast
    then show ?thesis using sig [of c] by (intro exI [of _ m]) simp
  qed
  then show "gens_ok ps s'" using le' val' by (simp add: gens_ok_def)
  show "signalled ps c s' = signalled ps c s + of_bool (raises c (qf_procs s p))" by (rule sig)
qed

text \<open>As long as the generations do not wrap around, raising one makes all that wait for it stale.\<close>

lemma raised_stale:
  assumes "gens_ok ps s" and "hist c s < 2 ^ 32" and "q \<in> set ps" and "cv_gen c (qf_procs s q) = Some gen"
    and "0 < qn ps (unsignalled c) s"
  shows "gen \<noteq> cv_value c s + 1"
proof
  assume eq: "gen = cv_value c s + 1"
  obtain m where m: "m \<le> signalled ps c s" "gen = of_nat m" and val: "cv_value c s = of_nat (signalled ps c s)"
    using gens_okD [OF assms(1,3,4)] assms(1) by (auto simp: gens_ok_def)
  have "qn ps (unsignalled c) s \<le> hist c s" using assms(1) by (simp add: gens_ok_def)
  then have lt: "signalled ps c s + 1 < 2 ^ 32" using assms(2,5) by (simp add: signalled_def)
  have "(of_nat m :: u32) = of_nat (signalled ps c s + 1)" using eq m(2) val by simp
  moreover have "m < 2 ^ LENGTH(32)" "signalled ps c s + 1 < 2 ^ LENGTH(32)" using lt m(1) by simp_all
  ultimately have "m = signalled ps c s + 1" using of_nat_word_eq_iff [where 'a = 32] by blast
  with m(1) show False by simp
qed

lemma raises_pos:
  "p \<in> set ps \<Longrightarrow> raises c (qf_procs s p) \<Longrightarrow> 0 < qn ps (unsignalled c) s"
  by (rule qn_pos [of p]) (cases "qf_procs s p"; simp)+

lemma step_hist_mono:
  assumes "qf_step rt weak p s = Some s'" and "queue_ok s"
  shows "hist c s \<le> hist c s'"
  using assms by (cases rule: step_effect) simp_all

lemma step_fresh:
  assumes "qf_step rt weak p s = Some s'" and "queue_ok s" and "distinct ps" and "p \<in> set ps" and "gens_ok ps s"
    and "loads_ok ps s" and "hist c s < 2 ^ 32" and inv: "fresh_ok ps c s"
  shows "fresh_ok ps c s'"
  unfolding fresh_ok_def
proof (intro allI impI)
  fix q assume q: "q \<in> set ps" "cv_gen c (qf_procs s' q) = Some (cv_value c s')"
  have old: "cv_gen c (qf_procs s q) = Some (cv_value c s') \<or>
      (\<exists>op. qf_procs s p = Q_load op \<and> waits op = c) \<and> cv_value c s' = cv_value c s"
    using step_gen [OF assms(1)] step_gen_others [OF assms(1)] q(2) by (cases "q = p") auto
  have nr: "\<not> raises c (qf_procs s p)"
  proof
    assume r: "raises c (qf_procs s p)"
    then have "cv_value c s' = cv_value c s + 1" using step_value [OF assms(1), of c] by simp
    moreover have "cv_gen c (qf_procs s q) = Some (cv_value c s')" using old r by auto
    ultimately show False using raised_stale [OF assms(5,7) q(1) _ raises_pos [OF assms(4) r]] by simp
  qed
  then have same: "cv_value c s' = cv_value c s" using step_value [OF assms(1), of c] by simp
  have "avail c s \<le> qn ps (unsignalled c) s"
  proof (cases "cv_gen c (qf_procs s q) = Some (cv_value c s)")
    case True
    then show ?thesis using inv q(1) by (simp add: fresh_ok_def)
  next
    case False
    obtain op where op: "qf_procs s p = Q_load op" "waits op = c" using old False unfolding same by blast
    then have "q_blocked op s" using assms(4,6) by (simp add: loads_ok_def)
    then show ?thesis using op(2) blocked_avail [of op s] by simp
  qed
  then show "avail c s' \<le> qn ps (unsignalled c) s'"
    using step_account(2) [OF assms(1-4), of c] nr by simp
qed

lemma unsignalled_pending: "qn ps (unsignalled c) s \<le> qn ps (pending c) s"
proof (rule qn_mono)
  show "unsignalled c pc \<Longrightarrow> pending c pc" for pc :: "'a qpc" by (cases pc) simp_all
qed

text \<open>A notification gives the place of the notifier to the coroutine that it wakes.\<close>

lemma notified_wakes:
  assumes "qf_procs s p = Q_signalled op" and "s' = goto p Q_idle (cv_notify (signals op) s)" and "distinct ps" and "p \<in> set ps"
    and "lists_ok ps s" and "fresh_ok ps (signals op) s" and inv: "wakes_ok ps (signals op) s"
  shows "wakes_ok ps (signals op) s'"
  using assms(5)
proof (cases rule: cv_notify_cases [where c = "signals op"])
  case none
  then show ?thesis using assms(2) by (simp add: wakes_ok_def)
next
  case (one q r ws op1 gen)
  let ?c = "signals op" let ?t = "cv_notify (signals op) s"
  have ne: "q \<noteq> p" using one(3) assms(1) by auto
  then have p: "qf_procs ?t p = Q_signalled op" using one(5) assms(1) by simp
  have count: "qn ps P s' + of_bool (P (Q_signalled op)) = qn ps P ?t + of_bool (P Q_idle)"
    "qn ps P ?t + of_bool (P (Q_sleep op1 gen)) = qn ps P s + of_bool (P (Q_check op1 gen))" for P
    using qn_goto [OF assms(3,4), of P Q_idle ?t] p assms(2) qn_upd [OF assms(3) one(2) one(5), of P] one(3) by simp_all
  have val: "cv_value ?c s' = cv_value ?c s" "avail ?c s' = avail ?c s"
    using assms(2) avail_cong [of ?t s ?c] by simp_all
  have "avail ?c s \<le> qn ps (pending ?c) s' + qn ps (awake ?c (cv_value ?c s)) s'"
  proof (cases "gen = cv_value ?c s")
    case True
    then have "cv_gen ?c (qf_procs s q) = Some (cv_value ?c s)" using one(3,4) by simp
    then have "avail ?c s \<le> qn ps (unsignalled ?c) s" using assms(6) one(2) by (simp add: fresh_ok_def)
    also have "\<dots> = qn ps (unsignalled ?c) s'" using count [of "unsignalled ?c"] by simp
    also have "\<dots> \<le> qn ps (pending ?c) s'" by (rule unsignalled_pending)
    finally show ?thesis by simp
  next
    case False
    have "avail ?c s \<le> qn ps (pending ?c) s + qn ps (awake ?c (cv_value ?c s)) s"
      using inv one(1) by (simp add: wakes_ok_def)
    then show ?thesis using count [of "pending ?c"] count [of "awake ?c (cv_value ?c s)"] False one(4) by simp
  qed
  then show ?thesis by (simp add: wakes_ok_def val)
qed

lemma quiet_wakes:
  assumes "wakes_ok ps c s" and "af_waiters (qf_cv s' c) = af_waiters (qf_cv s c)"
    and "avail c s' = 0 \<or> avail c s' + qn ps (pending c) s + qn ps (awake c (cv_value c s)) s \<le>
      avail c s + qn ps (pending c) s' + qn ps (awake c (cv_value c s')) s'"
  shows "wakes_ok ps c s'"
  using assms by (auto simp: wakes_ok_def)

lemma qn_awake_notify:
  assumes "lists_ok ps s" and "distinct ps"
  shows "qn ps (awake c g) (mutex_notify s) = qn ps (awake c g) s"
    and "d \<noteq> c \<Longrightarrow> qn ps (awake c g) (cv_notify d s) = qn ps (awake c g) s"
proof -
  show "qn ps (awake c g) (mutex_notify s) = qn ps (awake c g) s"
    using assms(1)
  proof (cases rule: mutex_notify_cases)
    case (one q r ws op)
    then show ?thesis using qn_upd [OF assms(2) one(2) one(4), of "awake c g"] by simp
  qed (auto intro: qn_frame)
  assume "d \<noteq> c"
  show "qn ps (awake c g) (cv_notify d s) = qn ps (awake c g) s"
    using assms(1)
  proof (cases rule: cv_notify_cases [where c = d])
    case (one q r ws op gen)
    have "\<not> awake c g (Q_check op gen)" using one(4) \<open>d \<noteq> c\<close> by (auto simp del: sides)
    then show ?thesis using qn_upd [OF assms(2) one(2) one(5), of "awake c g"] one(3) by simp
  qed (auto intro: qn_frame)
qed

lemma raised_wakes:
  assumes "qf_step rt weak p s = Some s'" and "raises c (qf_procs s p)" and "p \<in> set ps" and "distinct ps"
    and "gens_ok ps s" and "hist c s < 2 ^ 32" and inv: "wakes_ok ps c s"
  shows "wakes_ok ps c s'"
proof -
  obtain op where op: "qf_procs s p = Q_signal op" "signals op = c" using assms(2) by (cases "qf_procs s p") auto
  then have s': "s' = goto p (Q_signalled op) (cv_add c s)" using assms(1) by (simp add: step_defs)
  have procs: "qf_procs s' = (qf_procs s)(p := Q_signalled op)" by (simp add: s')
  have val: "cv_value c s' = cv_value c s + 1" by (simp add: s')
  have av: "avail c s' = avail c s" using avail_cong [of "cv_add c s" s c] by (simp add: s')
  have "awake c (cv_value c s') (qf_procs s' q)" if "q \<in> set ps" "awake c (cv_value c s) (qf_procs s q)" for q
  proof -
    have "q \<noteq> p" using that(2) op by auto
    moreover have "gen \<noteq> cv_value c s + 1" if "cv_gen c (qf_procs s q) = Some gen" for gen
      by (rule raised_stale [OF assms(5,6) \<open>q \<in> set ps\<close> that raises_pos [OF assms(3,2)]])
    ultimately show ?thesis using that(2) by (cases "qf_procs s q") (auto simp: procs val split: if_splits)
  qed
  then have "qn ps (awake c (cv_value c s)) s \<le> qn ps (awake c (cv_value c s')) s'"
    unfolding qn_def by (intro cnt_mono)
  moreover have "qn ps (pending c) s' = qn ps (pending c) s"
    using qn_upd [OF assms(4,3) procs, of "pending c"] op by simp
  ultimately have "avail c s' + qn ps (pending c) s + qn ps (awake c (cv_value c s)) s \<le>
      avail c s + qn ps (pending c) s' + qn ps (awake c (cv_value c s')) s'" using av by linarith
  moreover have "af_waiters (qf_cv s' c) = af_waiters (qf_cv s c)" by (simp add: s')
  ultimately show ?thesis using quiet_wakes [OF inv] by blast
qed

text \<open>A move of one coroutine alone, by what it gives and takes.\<close>

lemma alone_wakes:
  assumes "wakes_ok ps c s" and "distinct ps" and "p \<in> set ps" and procs: "qf_procs s' = (qf_procs s)(p := pc)"
    and cv: "qf_cv s' c = qf_cv s c"
    and av: "avail c s' = 0 \<or> avail c s' + of_bool (pending c (qf_procs s p)) + of_bool (awake c (cv_value c s) (qf_procs s p)) \<le>
      avail c s + of_bool (pending c pc) + of_bool (awake c (cv_value c s) pc)"
  shows "wakes_ok ps c s'"
proof (rule quiet_wakes [OF assms(1)])
  show "af_waiters (qf_cv s' c) = af_waiters (qf_cv s c)" by (simp add: cv)
  from av qn_upd [OF assms(2,3) procs, of "pending c"] qn_upd [OF assms(2,3) procs, of "awake c (cv_value c s)"]
  show "avail c s' = 0 \<or> avail c s' + qn ps (pending c) s + qn ps (awake c (cv_value c s)) s \<le>
      avail c s + qn ps (pending c) s' + qn ps (awake c (cv_value c s')) s'" unfolding cv by linarith
qed

text \<open>A notification of the mutex or of the other condition variable changes nothing that counts.\<close>

lemma elsewhere_wakes:
  assumes "wakes_ok ps c s" and "distinct ps" and "p \<in> set ps" and "lists_ok ps s"
    and t: "t = mutex_notify s \<or> (\<exists>d. d \<noteq> c \<and> t = cv_notify d s)"
    and "pending c pc = pending c (qf_procs s p)" and "awake c (cv_value c s) pc = awake c (cv_value c s) (qf_procs s p)"
    and "\<not> lock_sleeps (qf_procs s p)" and "\<And>c. \<not> cv_sleeps c (qf_procs s p)"
  shows "wakes_ok ps c (goto p pc t)"
proof (rule quiet_wakes [OF assms(1)])
  have at: "qf_procs t p = qf_procs s p" using t awake_notified [OF assms(4,8,9)] by blast
  have "af_waiters (qf_cv t c) = af_waiters (qf_cv s c)" "cv_value c t = cv_value c s" "qf_queue t = qf_queue s" "qf_capacity t = qf_capacity s"
    using t by auto
  then have t: "af_waiters (qf_cv t c) = af_waiters (qf_cv s c)" "cv_value c t = cv_value c s" "avail c t = avail c s"
    "qn ps (pending c) t = qn ps (pending c) s" "qn ps (awake c (cv_value c s)) t = qn ps (awake c (cv_value c s)) s"
    using t avail_cong [of t s c] qn_notify [of "pending c", OF resume_simps(3)] qn_awake_notify [OF assms(4,2)] by auto
  show "af_waiters (qf_cv (goto p pc t) c) = af_waiters (qf_cv s c)" by (simp add: t)
  show "avail c (goto p pc t) = 0 \<or> avail c (goto p pc t) + qn ps (pending c) s + qn ps (awake c (cv_value c s)) s \<le>
      avail c s + qn ps (pending c) (goto p pc t) + qn ps (awake c (cv_value c (goto p pc t))) (goto p pc t)"
    using qn_goto [OF assms(2,3), of "pending c" pc t] qn_goto [OF assms(2,3), of "awake c (cv_value c s)" pc t]
    by (simp add: t at assms(6,7))
qed

lemma test_wakes:
  assumes "qf_step rt weak p s = Some s'" and "qf_procs s p = Q_test op" and "queue_ok s" and "distinct ps" and "p \<in> set ps"
    and "wakes_ok ps c s"
  shows "wakes_ok ps c s'"
proof (cases "q_blocked op s")
  case True
  then have s': "s' = goto p (Q_load op) s" using assms(1,2) by (simp add: step_defs)
  have "signals op \<noteq> c \<Longrightarrow> avail c s = 0" using True blocked_avail [of op s] by (metis sides)
  then show ?thesis using assms(2) by (intro alone_wakes [OF assms(6,4,5), of _ "Q_load op"]) (auto simp: s')
next
  case False
  from assms(1,3) show ?thesis
  proof (cases rule: step_effect)
    case (change op')
    then have "op' = op" using assms(2) by simp
    with change(4) [of c] assms(2) have "avail c s' + of_bool (signals op \<noteq> c) = avail c s + of_bool (signals op = c)" by simp
    then show ?thesis using assms(2) change(3,6) \<open>op' = op\<close>
      by (intro alone_wakes [OF assms(6,4,5), of _ "Q_unlock op"]) (auto split: if_splits)
  next
    case keep
    obtain s1 where "q_apply op s = Some s1" "s' = goto p (Q_unlock op) s1" using assms(1,2) False by (auto simp: step_defs)
    with apply_avail(2) [of op s s1 "signals op"] False assms(3) keep(2) [of "signals op"] show ?thesis
      by (simp add: queue_ok_def)
  qed
qed

lemma wait_wakes:
  assumes "qf_step rt weak p s = Some s'" and "qf_procs s p = Q_wait op gen" and "distinct ps" and "p \<in> set ps"
    and "fresh_ok ps c s" and "wakes_ok ps c s"
  shows "wakes_ok ps c s'"
proof -
  let ?pc = "if cv_value (waits op) s = gen then Q_sleep op gen else Q_check op gen"
  have procs: "qf_procs s' = (qf_procs s)(p := ?pc)" using assms(1,2) by (auto simp: step_defs)
  have av: "avail c s' = avail c s" using assms(1,2) avail_cong [of s' s c] by (auto simp: step_defs)
  show ?thesis
  proof (cases "cv_value (waits op) s = gen \<and> waits op = c")
    case True
    then have "cv_gen c (qf_procs s p) = Some (cv_value c s)" using assms(2) by (auto simp del: sides)
    then have "avail c s \<le> qn ps (unsignalled c) s" using assms(4,5) by (simp add: fresh_ok_def)
    also have "\<dots> \<le> qn ps (pending c) s" by (rule unsignalled_pending)
    also have "qn ps (pending c) s = qn ps (pending c) s'"
      using qn_upd [OF assms(3,4) procs, of "pending c"] assms(2) by simp
    finally show ?thesis using av by (simp add: wakes_ok_def)
  next
    case False
    have "qf_cv s' c = qf_cv s c" using assms(1,2) False by (auto simp: step_defs simp del: sides)
    moreover have "awake c (cv_value c s) ?pc = awake c (cv_value c s) (qf_procs s p)"
      using assms(2) False by (auto simp del: sides)
    ultimately show ?thesis using av assms(2) by (intro alone_wakes [OF assms(6,3,4) procs]) auto
  qed
qed

lemma step_wakes:
  assumes step: "qf_step rt weak p s = Some s'" and q: "queue_ok s" and d: "distinct ps" and p: "p \<in> set ps"
    and l: "lists_ok ps s" and "gens_ok ps s" and "hist c s < 2 ^ 32" and f: "fresh_ok ps c s" and inv: "wakes_ok ps c s"
  shows "wakes_ok ps c s'"
proof (cases "qf_procs s p")
  case (Q_test op)
  then show ?thesis using test_wakes [OF step _ q d p inv] by blast
next
  case (Q_wait op gen)
  then show ?thesis using wait_wakes [OF step _ d p f inv] by blast
next
  case (Q_signal op)
  show ?thesis
  proof (cases "signals op = c")
    case True
    then show ?thesis using raised_wakes [OF step _ p d assms(6,7) inv] Q_signal by simp
  next
    case False
    then show ?thesis using step Q_signal avail_cong [of "cv_add (signals op) s" s c]
      by (intro alone_wakes [OF inv d p, of _ "Q_signalled op"]) (auto simp: step_defs)
  qed
next
  case (Q_signalled op)
  then have s': "s' = goto p Q_idle (cv_notify (signals op) s)" using step by (simp add: step_defs)
  then show ?thesis using notified_wakes [OF Q_signalled s' d p l] f inv Q_signalled
    by (cases "signals op = c") (auto intro!: elsewhere_wakes [OF inv d p l])
next
  case (Q_released op gen)
  then show ?thesis using step by (auto simp: step_defs intro!: elsewhere_wakes [OF inv d p l])
next
  case (Q_unlocked op)
  then show ?thesis using step by (auto simp: step_defs intro!: elsewhere_wakes [OF inv d p l])
next
  case (Q_load op)
  have "\<not> awake c (cv_value c s) (Q_release op (cv_value (waits op) s))" by (auto simp del: sides)
  moreover have "s' = goto p (Q_release op (cv_value (waits op) s)) s" using step Q_load by (simp add: step_defs)
  ultimately show ?thesis using Q_load
    by (intro alone_wakes [OF inv d p, of _ "Q_release op (cv_value (waits op) s)"]) auto
next
  case (Q_check op gen)
  let ?pc = "if cv_value (waits op) s = gen then Q_wait op gen else Q_lock op"
  have "awake c (cv_value c s) ?pc = awake c (cv_value c s) (Q_check op gen)" by (auto simp del: sides)
  moreover have "s' = goto p ?pc s" using step Q_check by (simp add: step_defs)
  ultimately show ?thesis using Q_check by (intro alone_wakes [OF inv d p, of _ ?pc]) auto
next
  case (Q_lock op)
  then show ?thesis using step avail_cong [of s' s c]
    by (intro alone_wakes [OF inv d p, of _ "qf_procs s' p"]) (auto simp: step_defs split: if_splits)
next
  case (Q_lock_wait op)
  then show ?thesis using step avail_cong [of s' s c]
    by (intro alone_wakes [OF inv d p, of _ "qf_procs s' p"]) (auto simp: step_defs split: if_splits)
next
  case (Q_release op gen)
  then show ?thesis using step avail_cong [of s' s c]
    by (intro alone_wakes [OF inv d p, of _ "Q_released op gen"]) (auto simp: step_defs)
next
  case (Q_unlock op)
  then show ?thesis using step avail_cong [of s' s c]
    by (intro alone_wakes [OF inv d p, of _ "Q_unlocked op"]) (auto simp: step_defs)
qed (use step in \<open>simp_all add: step_defs\<close>)

section \<open>The queue under every interleaving\<close>

definition qf_inv :: "ptr list \<Rightarrow> 'a qf \<Rightarrow> bool" where
  "qf_inv ps s \<longleftrightarrow> qmutex_ok ps s \<and> queue_ok s \<and> lists_ok ps s \<and> loads_ok ps s \<and> seeks_ok ps s \<and> gens_ok ps s \<and>
     (\<forall>c. hist c s < 2 ^ 32 \<longrightarrow> fresh_ok ps c s \<and> wakes_ok ps c s)"

lemma qf_inv_new: "qf_inv ps (qf_new capacity)"
proof -
  have h: "hist c (qf_new capacity) = 0" for c by (cases c) (simp_all add: qf_new_def)
  show ?thesis
    by (auto simp: h [unfolded qf_new_def] qf_inv_def qf_new_def qmutex_ok_def queue_ok_def lists_ok_def listed_def loads_ok_def seeks_ok_def gens_ok_def
        fresh_ok_def wakes_ok_def signalled_def qn_def cnt_def)
qed

lemma qf_inv_step:
  assumes "qf_step rt weak p s = Some s'" and "distinct ps" and "p \<in> set ps" and "qf_inv ps s"
  shows "qf_inv ps s'"
proof -
  have inv: "qmutex_ok ps s" "queue_ok s" "lists_ok ps s" "loads_ok ps s" "seeks_ok ps s" "gens_ok ps s"
    using assms(4) by (simp_all add: qf_inv_def)
  have "fresh_ok ps c s' \<and> wakes_ok ps c s'" if "hist c s' < 2 ^ 32" for c
  proof -
    have lt: "hist c s < 2 ^ 32" using that step_hist_mono [OF assms(1) inv(2), of c] by simp
    then have "fresh_ok ps c s" "wakes_ok ps c s" using assms(4) by (simp_all add: qf_inv_def)
    then show ?thesis
      using step_fresh [OF assms(1) inv(2) assms(2,3) inv(6,4) lt]
        step_wakes [OF assms(1) inv(2) assms(2,3) inv(3,6) lt] by blast
  qed
  then show ?thesis
    using step_mutex [OF assms(1-3) inv(1)] step_queue [OF assms(1) inv(2)] step_lists [OF assms(1,3) inv(3)]
      step_loads [OF assms(1-3) inv(1,4)] step_seeks [OF assms(1,3) inv(3,5)] step_gens(1) [OF assms(1) inv(2) assms(2,3) inv(6)]
    by (simp add: qf_inv_def)
qed

lemma qf_inv_call:
  assumes "qf_procs s p = Q_idle" and "distinct ps" and p: "p \<in> set ps" and inv: "qf_inv ps s"
  shows "qf_inv ps (goto p (Q_lock op) s)"
proof -
  let ?s = "goto p (Q_lock op) s"
  have same: "qn ps P ?s = qn ps P s" if "\<not> P Q_idle" "\<not> P (Q_lock op)" for P
    using qn_goto [OF assms(2) p, of P "Q_lock op" s] assms(1) that by simp
  have "lists_ok ps ?s" using inv assms(1) by (intro lists_goto [OF _ assms(1)]) (simp_all add: qf_inv_def)
  moreover have "seeks_ok ps ?s" using p by (auto simp: seeks_ok_def intro!: bexI [of _ p])
  moreover have "gens_ok ps ?s"
    using inv unfolding qf_inv_def gens_ok_def signalled_def by (simp add: same)
  moreover have "fresh_ok ps c ?s" if "fresh_ok ps c s" for c
    using that by (simp add: fresh_ok_def same)
  moreover have "wakes_ok ps c ?s" if "wakes_ok ps c s" for c
    using that assms(1) by (intro alone_wakes [OF that assms(2) p, of _ "Q_lock op"]) simp_all
  moreover have "queue_ok ?s" "qmutex_ok ps ?s" using inv by (simp_all add: qf_inv_def queue_ok_def qmutex_ok_def same)
  moreover have "loads_ok ps ?s"
    using inv blocked_cong [of ?s s] by (simp add: qf_inv_def loads_ok_def)
  ultimately show ?thesis using inv by (simp add: qf_inv_def)
qed

lemma qf_reachable_inv:
  assumes "(qf_sys rt ps)\<^sup>*\<^sup>* (qf_new capacity) s" and "distinct ps"
  shows "qf_inv ps s"
  using assms(1)
proof (induction rule: rtranclp_induct)
  case base
  show ?case by (rule qf_inv_new)
next
  case (step s s')
  from step.hyps(2) show ?case
    using step.IH by cases (auto intro: qf_inv_call qf_inv_step assms(2))
qed

text \<open>Runs of given events, for evaluation.\<close>

datatype 'a qevent = Call ptr "'a qop" | Move bool ptr

fun qf_run :: "(ptr \<Rightarrow> ptr) \<Rightarrow> 'a qevent list \<Rightarrow> 'a qf \<Rightarrow> 'a qf option" where
  "qf_run rt [] s = Some s"
| "qf_run rt (Call p op # es) s = (if qf_procs s p = Q_idle then qf_run rt es (goto p (Q_lock op) s) else None)"
| "qf_run rt (Move weak p # es) s = (case qf_step rt weak p s of None \<Rightarrow> None | Some s1 \<Rightarrow> qf_run rt es s1)"

fun event_proc :: "'a qevent \<Rightarrow> ptr" where
  "event_proc (Call p op) = p"
| "event_proc (Move weak p) = p"

lemma qf_run_reachable:
  "qf_run rt es s = Some s' \<Longrightarrow> event_proc ` set es \<subseteq> set ps \<Longrightarrow> (qf_sys rt ps)\<^sup>*\<^sup>* s s'"
  by (induction rt es s rule: qf_run.induct)
    (auto split: if_splits option.splits intro: converse_rtranclp_into_rtranclp qf_sys.intros)

text \<open>
  The queue over futexes is a bounded FIFO under every interleaving: at most one coroutine holds the
  mutex, the items that were taken followed by those in the queue are the items that were put in, in
  this order, and the capacity is kept.\<close>

theorem queue_exclusive_fifo:
  assumes "(qf_sys rt ps)\<^sup>*\<^sup>* (qf_new capacity) s" and "distinct ps"
  shows "qn ps holds s \<le> 1 \<and> qf_in s = qf_out s @ qf_queue s \<and> length (qf_queue s) \<le> qf_capacity s"
  using qf_reachable_inv [OF assms] by (simp add: qf_inv_def qmutex_ok_def queue_ok_def)

text \<open>When no coroutine can move: where they are, and what is left to do.\<close>

lemma stuck_rest:
  assumes "qf_step rt False q s = None"
  shows "qf_procs s q = Q_idle \<or> (\<exists>op. qf_procs s q = Q_lock_sleep op) \<or> (\<exists>op gen. qf_procs s q = Q_sleep op gen)"
  using assms by (cases "qf_procs s q") (auto simp: qf_step_def split: if_splits dest!: q_apply_enabled)

lemma stuck_mutex:
  assumes "qf_inv ps s" and "\<forall>p \<in> set ps. qf_step rt False p s = None" and "q \<in> set ps"
  shows "\<not> lock_sleeps (qf_procs s q)"
proof -
  have "\<not> holds (qf_procs s p) \<and> \<not> seeks (qf_procs s p)" if "p \<in> set ps" for p
    using stuck_rest [of rt p s] assms(2) that by auto
  then have "qn ps holds s = 0" "\<not> (\<exists>p \<in> set ps. seeks (qf_procs s p))" by (auto simp: qn_def cnt_def filter_empty_conv)
  then have "af_waiters (qf_mutex s) = []"
    using assms(1) by (auto simp: qf_inv_def qmutex_ok_def seeks_ok_def split: if_splits)
  then show ?thesis using assms(1,3) by (auto simp: qf_inv_def lists_ok_def listed_def)
qed

lemma stuck_sleeps:
  assumes "qf_inv ps s" and stuck: "\<forall>p \<in> set ps. qf_step rt False p s = None" and "hist (waits op) s < 2 ^ 32"
    and "p \<in> set ps" and "qf_procs s p = Q_sleep op gen"
  shows "q_blocked op s"
proof -
  let ?c = "waits op"
  have "\<not> pending ?c (qf_procs s q) \<and> \<not> awake ?c (cv_value ?c s) (qf_procs s q)" if "q \<in> set ps" for q
    using stuck_rest [of rt q s] stuck_mutex [OF assms(1,2) that] stuck that by auto
  then have "qn ps (pending ?c) s = 0" "qn ps (awake ?c (cv_value ?c s)) s = 0" by (simp_all add: qn_def cnt_def filter_empty_conv)
  moreover have "listed ps (cv_sleeps ?c) (qf_cv s ?c) s" using assms(1) by (simp add: qf_inv_def lists_ok_def)
  then have "af_waiters (qf_cv s ?c) \<noteq> []" using assms(4,5) by (auto simp: listed_def simp del: sides)
  moreover have "wakes_ok ps ?c s" using assms(1,3) unfolding qf_inv_def by blast
  ultimately have "avail ?c s = 0" by (simp add: wakes_ok_def)
  then show ?thesis by (simp add: blocked_avail)
qed

text \<open>
  No wake-up is lost in the queue over futexes: for any number of coroutines and every interleaving
  of their accesses, when no coroutine can move, each of them is outside of the queue or waits for a
  good reason, an empty queue in \<open>dequeue\<close> or a full one in \<open>enqueue\<close>; none is left waiting for the
  mutex. This needs fewer than \<open>2 ^ 32\<close> enqueued items, so that the 32-bit generations of the condition
  variables do not wrap around.\<close>

theorem queue_no_lost_wakeup:
  assumes "(qf_sys rt ps)\<^sup>*\<^sup>* (qf_new capacity) s" and "distinct ps" and "length (qf_in s) < 2 ^ 32"
    and "\<forall>p \<in> set ps. qf_step rt False p s = None"
  shows "\<forall>p \<in> set ps. qf_procs s p = Q_idle \<or> (\<exists>op gen. qf_procs s p = Q_sleep op gen \<and> q_blocked op s)"
proof
  fix p assume p: "p \<in> set ps"
  have inv: "qf_inv ps s" by (rule qf_reachable_inv [OF assms(1,2)])
  then have "hist c s < 2 ^ 32" for c using assms(3) by (cases c) (auto simp: qf_inv_def queue_ok_def)
  then show "qf_procs s p = Q_idle \<or> (\<exists>op gen. qf_procs s p = Q_sleep op gen \<and> q_blocked op s)"
    using stuck_rest [of rt p s] stuck_mutex [OF inv assms(4) p] stuck_sleeps [OF inv assms(4) _ p] assms(4) p by auto
qed

theorem queue_no_lost_wakeup_witness:
  "\<exists>s. qf_run (\<lambda>_. 0x10) [Call 0x200 Dequeue, Move True 0x200, Move False 0x200, Move False 0x200, Move False 0x200, Move False 0x200,
       Move False 0x200, Move False 0x200, Move False 0x200, Move False 0x200] (qf_new 1 :: nat qf) = Some s \<and>
     qf_procs s 0x200 = Q_sleep Dequeue 0 \<and> q_blocked Dequeue s"
proof -
  let ?es = "[Call 0x200 Dequeue, Move True 0x200, Move False 0x200, Move False 0x200, Move False 0x200, Move False 0x200,
       Move False 0x200, Move False 0x200, Move False 0x200, Move False 0x200] :: nat qevent list"
  obtain s where s: "qf_run (\<lambda>_. 0x10) ?es (qf_new 1) = Some s" and sl: "qf_procs s 0x200 = Q_sleep Dequeue 0"
    and i: "qf_in s = []" "qf_procs s 0x100 = Q_idle"
    by (simp add: step_defs qf_new_def mutex_notify_def wake_def)
  from qf_run_reachable [OF s, of "[0x100, 0x200]"] have r: "(qf_sys (\<lambda>_. 0x10) [0x100, 0x200])\<^sup>*\<^sup>* (qf_new 1) s" by simp
  have "qf_procs s 0x200 = Q_idle \<or> (\<exists>op gen. qf_procs s 0x200 = Q_sleep op gen \<and> q_blocked op s)"
    using queue_no_lost_wakeup [OF r] sl i by (simp add: qf_step_def)
  with s sl show ?thesis by auto
qed

end
