(* ===== verification/Ex_Queue_Program.thy ===== *)
theory Ex_Queue_Program
  imports Ex_Queue_Futex
begin

text \<open>
  The program of \<open>examples/queue-condy-futex.cpp\<close>: \<open>main\<close> spawns producers and consumers, which use the queue of
  \<open>Ex_Queue_Futex\<close> in loops with a given number of rounds. The frames of the producers are \<open>ps\<close> and those of
  the consumers \<open>cs\<close>; the \<open>co_switch\<close> between two rounds only gives other coroutines their turn.
\<close>

section \<open>The loops and main\<close>

record prog =
  pg_queue :: "i32 qf"
  pg_round :: "ptr \<Rightarrow> nat"    \<comment> \<open>how many rounds of its loop a coroutine has begun\<close>

text \<open>The loop variable is the item, converted to \<open>int\<close>.\<close>

definition round_qop :: "ptr list \<Rightarrow> ptr \<Rightarrow> nat \<Rightarrow> i32 qop" where
  "round_qop ps p i = (if p \<in> set ps then Enqueue (sint (of_nat i :: 32 word)) else Dequeue)"

definition pg_begin :: "ptr list \<Rightarrow> ptr \<Rightarrow> prog \<Rightarrow> prog" where
  "pg_begin ps p s = s\<lparr>pg_queue := goto p (Q_lock (round_qop ps p (pg_round s p))) (pg_queue s),
     pg_round := (pg_round s)(p := pg_round s p + 1)\<rparr>"

definition pg_step :: "(ptr \<Rightarrow> ptr) \<Rightarrow> ptr list \<Rightarrow> (ptr \<Rightarrow> nat) \<Rightarrow> bool \<Rightarrow> ptr \<Rightarrow> prog \<Rightarrow> prog option" where
  "pg_step rt ps limit weak p s =
     (if qf_procs (pg_queue s) p = Q_idle then if pg_round s p < limit p then Some (pg_begin ps p s) else None
      else map_option (\<lambda>q. s\<lparr>pg_queue := q\<rparr>) (qf_step rt weak p (pg_queue s)))"

inductive pg_sys :: "(ptr \<Rightarrow> ptr) \<Rightarrow> ptr list \<Rightarrow> ptr list \<Rightarrow> (ptr \<Rightarrow> nat) \<Rightarrow> prog \<Rightarrow> prog \<Rightarrow> bool" for rt ps cs limit where
  "p \<in> set (ps @ cs) \<Longrightarrow> pg_step rt ps limit weak p s = Some s' \<Longrightarrow> pg_sys rt ps cs limit s s'"

text \<open>
  \<open>main\<close> after its options: the arithmetic is that of \<open>size_t\<close>, the remainder by zero is undefined, and a
  total that does not divide ends the program with status 1.
\<close>

record pconfig =
  pf_limit :: "ptr \<Rightarrow> nat"
  pf_state :: prog

definition main_futex :: "nat \<Rightarrow> ptr list \<Rightarrow> ptr list \<Rightarrow> nat \<Rightarrow> (i32 + pconfig) option" where
  "main_futex queue_size ps cs items_per_producer =
     (let total_items = unat (of_nat (length ps * items_per_producer) :: u64)
      in if length cs = 0 then None
         else if total_items mod length cs \<noteq> 0 then Some (Inl 1)
         else Some (Inr \<lparr>pf_limit = (\<lambda>p. if p \<in> set ps then items_per_producer else total_items div length cs),
                pf_state = \<lparr>pg_queue = qf_new queue_size, pg_round = \<lambda>_. 0\<rparr>\<rparr>))"

section \<open>Rounds and roles\<close>

fun before_change :: "'a qpc \<Rightarrow> bool" where
  "before_change Q_idle = False"
| "before_change (Q_unlock op) = False"
| "before_change (Q_unlocked op) = False"
| "before_change (Q_signal op) = False"
| "before_change (Q_signalled op) = False"
| "before_change pc = True"

fun pc_op :: "'a qpc \<Rightarrow> 'a qop option" where
  "pc_op Q_idle = None"
| "pc_op (Q_lock op) = Some op"
| "pc_op (Q_lock_wait op) = Some op"
| "pc_op (Q_lock_sleep op) = Some op"
| "pc_op (Q_test op) = Some op"
| "pc_op (Q_load op) = Some op"
| "pc_op (Q_release op gen) = Some op"
| "pc_op (Q_released op gen) = Some op"
| "pc_op (Q_check op gen) = Some op"
| "pc_op (Q_wait op gen) = Some op"
| "pc_op (Q_sleep op gen) = Some op"
| "pc_op (Q_unlock op) = Some op"
| "pc_op (Q_unlocked op) = Some op"
| "pc_op (Q_signal op) = Some op"
| "pc_op (Q_signalled op) = Some op"

definition role_ok :: "ptr list \<Rightarrow> ptr \<Rightarrow> 'a qpc \<Rightarrow> bool" where
  "role_ok ps p pc \<longleftrightarrow> (case pc_op pc of None \<Rightarrow> True | Some (Enqueue x) \<Rightarrow> p \<in> set ps | Some Dequeue \<Rightarrow> p \<notin> set ps)"

definition left :: "(ptr \<Rightarrow> nat) \<Rightarrow> prog \<Rightarrow> ptr \<Rightarrow> nat" where
  "left limit s p = limit p - pg_round s p + of_bool (before_change (qf_procs (pg_queue s) p))"

lemma resume_roles [simp]: "before_change (resume pc) = before_change pc" "pc_op (resume pc) = pc_op pc" "role_ok ps p (resume pc) = role_ok ps p pc"
  by (cases pc; simp add: role_ok_def)+

lemma step_pc_op:
  "qf_step rt weak p s = Some s' \<Longrightarrow> pc_op (qf_procs s' p) = pc_op (qf_procs s p) \<or> qf_procs s' p = Q_idle"
  by (cases "qf_procs s p") (auto simp: step_defs q_apply_sel split: if_splits)

lemma step_change:
  assumes "qf_step rt weak p s = Some s'"
  shows "before_change (qf_procs s p) = before_change (qf_procs s' p) \<and> qf_in s' = qf_in s \<and> qf_out s' = qf_out s \<or>
    (\<exists>op s1. qf_procs s p = Q_test op \<and> q_apply op s = Some s1 \<and> s' = goto p (Q_unlock op) s1)"
proof (cases "\<exists>op. qf_procs s p = Q_test op \<and> \<not> q_blocked op s")
  case True
  then show ?thesis using assms by (auto simp: step_defs)
next
  case False
  then show ?thesis using assms by (cases "qf_procs s p") (auto simp: step_defs split: if_splits)
qed

text \<open>A step of the program is a step of the queue.\<close>

lemma pg_sys_qf: "pg_sys rt ps cs limit s s' \<Longrightarrow> qf_sys rt (ps @ cs) (pg_queue s) (pg_queue s')"
proof (erule pg_sys.cases, goal_cases)
  case (1 p weak)
  then show ?case
  proof (cases "qf_procs (pg_queue s) p = Q_idle")
    case True
    then show ?thesis using 1 qf_sys.call [OF 1(3) True]
      by (auto simp: pg_step_def pg_begin_def split: if_splits)
  next
    case False
    then show ?thesis using 1 qf_sys.move [OF 1(3)] by (auto simp: pg_step_def)
  qed
qed

lemma pg_reach_qf: "(pg_sys rt ps cs limit)\<^sup>*\<^sup>* s s' \<Longrightarrow> (qf_sys rt (ps @ cs))\<^sup>*\<^sup>* (pg_queue s) (pg_queue s')"
  by (induction rule: rtranclp_induct) (auto intro: rtranclp.rtrancl_into_rtrancl pg_sys_qf)

lemma pg_step_others:
  assumes "pg_step rt ps limit weak p s = Some s'" and "\<And>pc. P (resume pc) = P pc" and "q \<noteq> p"
  shows "P (qf_procs (pg_queue s') q) = P (qf_procs (pg_queue s) q)" and "pg_round s' q = pg_round s q"
proof -
  show "P (qf_procs (pg_queue s') q) = P (qf_procs (pg_queue s) q)"
    using assms(1,3) step_others [where P = P, OF _ assms(2,3)] by (auto simp: pg_step_def pg_begin_def split: if_splits)
  show "pg_round s' q = pg_round s q" using assms(1,3) by (auto simp: pg_step_def pg_begin_def split: if_splits)
qed

lemma pg_step_roles:
  assumes "pg_step rt ps limit weak p s = Some s'" and "role_ok ps q (qf_procs (pg_queue s) q)"
  shows "role_ok ps q (qf_procs (pg_queue s') q)"
proof (cases "q = p")
  case True
  then show ?thesis using assms
    by (auto simp: pg_step_def pg_begin_def round_qop_def role_ok_def dest!: step_pc_op split: if_splits)
next
  case False
  then show ?thesis using pg_step_others(1) [OF assms(1), of "role_ok ps q" q] assms(2) by simp
qed

interpretation qp: counted_loops "left limit" "\<lambda>s. length (qf_in (pg_queue s))" "\<lambda>s. length (qf_out (pg_queue s))"
  "\<lambda>p s t. role_ok ps p (qf_procs (pg_queue s) p) \<and> (\<exists>rt weak. pg_step rt ps limit weak p s = Some t)"
  "set ps" "set cs - set ps" for limit ps cs
proof (unfold_locales, goal_cases)
  case (4 p s t q)
  then show ?case using pg_step_others [of _ ps limit _ p s t before_change q] by (auto simp: left_def)
next
  case (5 p s t)
  then obtain rt weak where step: "pg_step rt ps limit weak p s = Some t" and role: "role_ok ps p (qf_procs (pg_queue s) p)" by blast
  show ?case
  proof (cases "qf_procs (pg_queue s) p = Q_idle")
    case True
    then show ?thesis using step by (auto simp: pg_step_def pg_begin_def left_def split: if_splits)
  next
    case False
    then obtain q where q: "qf_step rt weak p (pg_queue s) = Some q" "t = s\<lparr>pg_queue := q\<rparr>"
      using step by (auto simp: pg_step_def)
    from step_change [OF q(1)] show ?thesis
    proof (elim disjE exE conjE)
      fix op s1 assume "qf_procs (pg_queue s) p = Q_test op" "q_apply op (pg_queue s) = Some s1" "q = goto p (Q_unlock op) s1"
      then show ?thesis using q(2) role 5(2)
        by (cases op) (auto simp: left_def role_ok_def split: list.splits)
    qed (use q(2) in \<open>simp add: left_def\<close>)
  qed
qed auto

section \<open>Completion\<close>

definition pg_inv :: "(ptr \<Rightarrow> nat) \<Rightarrow> ptr list \<Rightarrow> ptr list \<Rightarrow> prog \<Rightarrow> bool" where
  "pg_inv limit ps cs s \<longleftrightarrow> qf_inv (ps @ cs) (pg_queue s) \<and> (\<forall>p \<in> set (ps @ cs). role_ok ps p (qf_procs (pg_queue s) p)) \<and>
     sum (left limit s) (set ps) + length (qf_in (pg_queue s)) = sum limit (set ps) \<and>
     sum (left limit s) (set cs - set ps) + length (qf_out (pg_queue s)) = sum limit (set cs - set ps)"

lemma pg_reach_inv:
  assumes "(pg_sys rt ps cs limit)\<^sup>*\<^sup>* \<lparr>pg_queue = qf_new queue_size, pg_round = \<lambda>_. 0\<rparr> s" and "distinct (ps @ cs)"
  shows "pg_inv limit ps cs s"
  using assms(1)
proof (induction rule: rtranclp_induct)
  case base
  have "qf_inv (ps @ cs) (qf_new queue_size :: i32 qf)" by (rule qf_inv_new)
  then show ?case by (simp add: pg_inv_def role_ok_def left_def) (simp add: qf_new_def)
next
  case (step s t)
  from step.hyps(2) obtain p weak where p: "p \<in> set (ps @ cs)" and st: "pg_step rt ps limit weak p s = Some t" by cases
  have "qf_inv (ps @ cs) (pg_queue t)"
    using qf_reachable_inv [of rt "ps @ cs" queue_size "pg_queue t"] assms(2)
      pg_reach_qf [OF rtranclp.rtrancl_into_rtrancl [OF step.hyps]] by simp
  moreover have "role_ok ps q (qf_procs (pg_queue t) q)" if "q \<in> set (ps @ cs)" for q
    using pg_step_roles [OF st] step.IH that by (simp add: pg_inv_def)
  moreover have "p \<in> set ps \<union> (set cs - set ps)" using p by auto
  ultimately show ?case
    using qp.balance [of ps p s limit t cs] st step.IH p by (auto simp: pg_inv_def)
qed

lemma step_capacity: "qf_step rt weak p s = Some s' \<Longrightarrow> qf_capacity s' = qf_capacity s"
  by (cases "qf_procs s p") (auto simp: step_defs q_apply_sel split: if_splits)

lemma qf_reach_capacity: "(qf_sys rt ps)\<^sup>*\<^sup>* s s' \<Longrightarrow> qf_capacity s' = qf_capacity s"
  by (induction rule: rtranclp_induct) (auto simp: qf_sys.simps dest: step_capacity)

lemma pg_invD:
  assumes "pg_inv limit ps cs s"
  shows "sum (left limit s) (set ps) + length (qf_in (pg_queue s)) = sum limit (set ps)"
    and "sum (left limit s) (set cs - set ps) + length (qf_out (pg_queue s)) = sum limit (set cs - set ps)"
    and "qf_in (pg_queue s) = qf_out (pg_queue s) @ qf_queue (pg_queue s)"
  using assms unfolding pg_inv_def qf_inv_def queue_ok_def by blast+

text \<open>Where a coroutine is when nobody can move.\<close>

lemma pg_stuck_place:
  assumes stuck: "\<forall>q \<in> set (ps @ cs). pg_step rt ps limit False q s = None" and inv: "pg_inv limit ps cs s"
    and small: "sum limit (set ps) < 2 ^ 32" and p: "p \<in> set (ps @ cs)"
  obtains (finished) "qf_procs (pg_queue s) p = Q_idle" "limit p \<le> pg_round s p"
  | (asleep) op gen where "qf_procs (pg_queue s) p = Q_sleep op gen" "q_blocked op (pg_queue s)" "role_ok ps p (Q_sleep op gen)"
proof -
  let ?s = "pg_queue s"
  have qinv: "qf_inv (ps @ cs) ?s" and role: "role_ok ps p (qf_procs ?s p)" using inv p by (simp_all add: pg_inv_def)
  have "qf_step rt False q ?s = None" if "q \<in> set (ps @ cs)" for q
    using bspec [OF stuck that] by (cases "qf_procs ?s q = Q_idle") (simp_all add: pg_step_def qf_step_def)
  then have qstuck: "\<forall>q \<in> set (ps @ cs). qf_step rt False q ?s = None" by blast
  have "length (qf_in ?s) < 2 ^ 32" using inv small by (simp add: pg_inv_def)
  then have hist: "hist c ?s < 2 ^ 32" for c
    using qinv by (cases c) (auto simp: qf_inv_def queue_ok_def)
  consider "qf_procs ?s p = Q_idle" | op where "qf_procs ?s p = Q_lock_sleep op" | op gen where "qf_procs ?s p = Q_sleep op gen"
    using stuck_rest [OF bspec [OF qstuck p]] by blast
  then show thesis
  proof cases
    case 1
    then show thesis using bspec [OF stuck p] finished by (auto simp: pg_step_def split: if_splits)
  next
    case 2
    then show thesis using stuck_mutex [OF qinv qstuck p] by simp
  next
    case (3 op gen)
    then show thesis using asleep [of op gen] stuck_sleeps [OF qinv qstuck hist p 3] role by simp
  qed
qed

lemma left_finished: "qf_procs (pg_queue s) p = Q_idle \<Longrightarrow> limit p \<le> pg_round s p \<Longrightarrow> left limit s p = 0"
  by (simp add: left_def)

lemma pg_stuck_finished:
  assumes stuck: "\<forall>q \<in> set (ps @ cs). pg_step rt ps limit False q s = None" and inv: "pg_inv limit ps cs s"
    and small: "sum limit (set ps) < 2 ^ 32" and p: "p \<in> set (ps @ cs)"
    and cap: "0 < qf_capacity (pg_queue s)" and equal: "sum limit (set ps) = sum limit (set cs - set ps)"
  shows "qf_procs (pg_queue s) p = Q_idle \<and> limit p \<le> pg_round s p"
  using stuck inv small p
proof (cases rule: pg_stuck_place)
  case (asleep op gen)
  note place = pg_stuck_place [OF stuck inv small]
  note sums = pg_invD [OF inv, unfolded equal]
  have le: "length (qf_out (pg_queue s)) \<le> length (qf_in (pg_queue s))" by (simp add: sums(3))
  have "left limit s p = 0"
  proof (cases "p \<in> set ps")
    case True
    then have full: "qf_queue (pg_queue s) \<noteq> []" using asleep cap by (cases op) (auto simp: role_ok_def)
    have "left limit s q = 0" if q: "q \<in> set cs - set ps" for q
    proof -
      have "q \<in> set (ps @ cs)" using q by simp
      then show ?thesis
        by (cases rule: place) (use full q in \<open>auto simp: left_finished role_ok_def split: qop.splits\<close>)
    qed
    then show ?thesis by (rule qp.all_made(2) [OF sums(1,2) le _ True])
  next
    case False
    then have empty: "qf_queue (pg_queue s) = []" using asleep by (cases op) (auto simp: role_ok_def)
    have "left limit s q = 0" if q: "q \<in> set ps" for q
    proof -
      have "q \<in> set (ps @ cs)" using q by simp
      then show ?thesis
        by (cases rule: place) (use empty q cap in \<open>auto simp: left_finished role_ok_def split: qop.splits\<close>)
    qed
    moreover have "length (qf_in (pg_queue s)) = length (qf_out (pg_queue s))" by (simp add: sums(3) empty)
    moreover have "p \<in> set cs - set ps" using False p by simp
    ultimately show ?thesis using qp.all_taken [OF sums(1,2)] by blast
  qed
  then show ?thesis using asleep(1) by (simp add: left_def)
qed simp

text \<open>
  C9. The producers and consumers of the queue over futexes cannot deadlock. With a positive capacity and fewer
  than \<open>2 ^ 32\<close> items, for every interleaving and every spurious failure of the exchange of the mutex: when
  no coroutine can move, all of them have finished their loops, every item that was enqueued has been
  dequeued, in the order in which it was enqueued, and none is left.
\<close>

theorem queue_program_completes:
  assumes "main_futex queue_size ps cs items = Some (Inr cfg)" and "distinct (ps @ cs)" and "0 < queue_size"
    and "length ps * items < 2 ^ 32" and "(pg_sys rt ps cs (pf_limit cfg))\<^sup>*\<^sup>* (pf_state cfg) s"
    and "\<forall>p \<in> set (ps @ cs). pg_step rt ps (pf_limit cfg) False p s = None"
  shows "(\<forall>p \<in> set (ps @ cs). qf_procs (pg_queue s) p = Q_idle \<and> pf_limit cfg p \<le> pg_round s p) \<and>
    qf_queue (pg_queue s) = [] \<and> qf_out (pg_queue s) = qf_in (pg_queue s) \<and> length (qf_out (pg_queue s)) = length ps * items"
proof -
  let ?l = "pf_limit cfg" and ?n = "length ps * items" and ?q = "pg_queue s"
  have "?n < 2 ^ 64" using assms(4) by simp
  then have u: "unat (of_nat ?n :: u64) = ?n" by (simp add: unat_of_nat del: of_nat_mult)
  have cfg: "pf_state cfg = \<lparr>pg_queue = qf_new queue_size, pg_round = \<lambda>_. 0\<rparr>" "?l = (\<lambda>p. if p \<in> set ps then items else ?n div length cs)"
    "?n mod length cs = 0"
    using assms(1) by (auto simp: main_futex_def Let_def u simp del: of_nat_mult split: if_splits)
  have disj: "set cs - set ps = set cs" using assms(2) by auto
  have made: "sum ?l (set ps) = ?n" using assms(2) by (simp add: cfg(2) distinct_card)
  have "sum ?l (set cs) = (\<Sum>p \<in> set cs. ?n div length cs)" using disj by (intro sum.cong) (auto simp: cfg(2))
  then have taken: "sum ?l (set cs - set ps) = ?n"
    using assms(2) cfg(3) by (simp add: disj distinct_card dvd_eq_mod_eq_0 [symmetric])
  have reach: "(pg_sys rt ps cs ?l)\<^sup>*\<^sup>* \<lparr>pg_queue = qf_new queue_size, pg_round = \<lambda>_. 0\<rparr> s" using assms(5) cfg(1) by simp
  note inv = pg_reach_inv [OF reach assms(2)]
  have "qf_capacity ?q = queue_size" using qf_reach_capacity [OF pg_reach_qf [OF reach]] by (simp add: qf_new_def)
  then have fin: "qf_procs ?q p = Q_idle \<and> ?l p \<le> pg_round s p" if "p \<in> set (ps @ cs)" for p
    using pg_stuck_finished [OF assms(6) inv _ that] assms(3,4) made taken by simp
  then have zero: "left ?l s p = 0" if "p \<in> set ps \<union> set cs" for p using that by (intro left_finished) simp_all
  then have "length (qf_in ?q) = ?n" "length (qf_out ?q) = ?n" using pg_invD(1,2) [OF inv] made taken by simp_all
  then show ?thesis using fin pg_invD(3) [OF inv] by auto
qed

text \<open>A run of given steps, for evaluation; a step that cannot be made is skipped.\<close>

fun pg_run :: "(ptr \<Rightarrow> ptr) \<Rightarrow> ptr list \<Rightarrow> (ptr \<Rightarrow> nat) \<Rightarrow> ptr list \<Rightarrow> prog \<Rightarrow> prog" where
  "pg_run rt ps limit [] s = s"
| "pg_run rt ps limit (p # xs) s = pg_run rt ps limit xs (case pg_step rt ps limit False p s of None \<Rightarrow> s | Some s' \<Rightarrow> s')"

lemma pg_run_sys: "set xs \<subseteq> set (ps @ cs) \<Longrightarrow> (pg_sys rt ps cs limit)\<^sup>*\<^sup>* s (pg_run rt ps limit xs s)"
proof (induction rt ps limit xs s rule: pg_run.induct)
  case (2 rt ps limit p xs s)
  then have "(pg_sys rt ps cs limit)\<^sup>*\<^sup>* s (case pg_step rt ps limit False p s of None \<Rightarrow> s | Some s' \<Rightarrow> s')"
    using pg_sys.intros [of p ps cs rt limit False s] by (cases "pg_step rt ps limit False p s") auto
  with 2 show ?case by (auto elim: rtranclp_trans)
qed simp

text \<open>One producer and one consumer, which sleeps until the item comes.\<close>

definition sample_prog :: pconfig where
  "sample_prog = (case main_futex 1 [0x100] [0x200] 1 of Some (Inr cfg) \<Rightarrow> cfg | _ \<Rightarrow> \<lparr>pf_limit = \<lambda>_. 0, pf_state = \<lparr>pg_queue = qf_new 0, pg_round = \<lambda>_. 0\<rparr>\<rparr>)"

definition sample_final :: prog where
  "sample_final = pg_run (\<lambda>_. 0x10) [0x100] (pf_limit sample_prog) (replicate 8 0x200 @ replicate 7 0x100 @ replicate 7 0x200) (pf_state sample_prog)"

lemma sample_prog_main: "main_futex 1 [0x100] [0x200] 1 = Some (Inr sample_prog)"
  by (simp add: sample_prog_def main_futex_def Let_def)

lemma sample_final_stuck:
  "qf_procs (pg_queue sample_final) 0x100 = Q_idle" "qf_procs (pg_queue sample_final) 0x200 = Q_idle"
  "\<not> pg_round sample_final 0x100 < pf_limit sample_prog 0x100" "\<not> pg_round sample_final 0x200 < pf_limit sample_prog 0x200"
  by code_simp+

theorem queue_program_completes_witness:
  "qf_queue (pg_queue sample_final) = [] \<and> length (qf_out (pg_queue sample_final)) = 1 \<and> qf_procs (pg_queue sample_final) 0x200 = Q_idle"
proof -
  have "(pg_sys (\<lambda>_. 0x10) [0x100] [0x200] (pf_limit sample_prog))\<^sup>*\<^sup>* (pf_state sample_prog) sample_final"
    unfolding sample_final_def by (rule pg_run_sys) auto
  from queue_program_completes [OF sample_prog_main _ _ _ this] sample_final_stuck show ?thesis by (auto simp: pg_step_def)
qed

end
