(* ===== verification/Ex_Queue_Kernel.thy ===== *)
theory Ex_Queue_Kernel
  imports Interleaving "HOL-Library.Multiset"
begin

text \<open>
  \<open>examples/queue-kernel-futex.cpp\<close>: a bounded queue between threads that produce and coroutines that
  consume, with semaphores over the futexes of the kernel. A step is one access to an atomic, one
  system call, or one access to the queue. The threads block in the system call and the coroutines in
  the asynchronous operation; both are entries of the list of waiters of a futex.

  The kernel is outside of the program. A wait compares the value and enlists the caller, as it is
  documented; which waiters a wake takes is the parameter \<open>kw\<close>, of which \<open>wake_contract\<close> says that it
  takes as many as were asked for, or all.
\<close>

section \<open>State\<close>

datatype sem = Empty | Full | Mutex

text \<open>The threads that produce and the coroutines that consume, numbered as in \<open>main\<close>.\<close>

datatype agent = Producer nat | Consumer nat

datatype kop = Produce i32 | Consume

text \<open>Where a producer or consumer is; \<open>c\<close> is the local variable of \<open>acquire\<close>.\<close>

datatype kpc =
    K_idle
  | K_load sem kop       \<comment> \<open>at the load in \<open>acquire\<close>\<close>
  | K_cas sem kop u32    \<comment> \<open>before the exchange\<close>
  | K_wait sem kop       \<comment> \<open>before the wait\<close>
  | K_sleep sem kop      \<comment> \<open>in the list of the futex\<close>
  | K_access kop         \<comment> \<open>before the access to the queue\<close>
  | K_add sem kop        \<comment> \<open>before the addition in \<open>release\<close>\<close>
  | K_wake sem kop       \<comment> \<open>before the wake\<close>

record ks =
  ks_queue :: "i32 list"
  ks_count :: "sem \<Rightarrow> u32"
  ks_waiters :: "sem \<Rightarrow> agent list"
  ks_procs :: "agent \<Rightarrow> kpc"
  ks_round :: "agent \<Rightarrow> nat"     \<comment> \<open>how many rounds of its loop it has begun\<close>
  ks_in :: "i32 list"           \<comment> \<open>everything pushed so far\<close>
  ks_out :: "i32 list"          \<comment> \<open>everything popped so far\<close>

text \<open>\<open>State(queue_size)\<close>: the count of a semaphore has 32 bits, so the size is truncated.\<close>

definition ks_new :: "nat \<Rightarrow> ks" where
  "ks_new queue_size =
     \<lparr>ks_queue = [], ks_count = (\<lambda>x. case x of Empty \<Rightarrow> of_nat queue_size | Full \<Rightarrow> 0 | Mutex \<Rightarrow> 1),
      ks_waiters = \<lambda>_. [], ks_procs = \<lambda>_. K_idle, ks_round = \<lambda>_. 0, ks_in = [], ks_out = []\<rparr>"

definition kgoto :: "agent \<Rightarrow> kpc \<Rightarrow> ks \<Rightarrow> ks" where
  "kgoto p pc s = s\<lparr>ks_procs := (ks_procs s)(p := pc)\<rparr>"

section \<open>Semaphores\<close>

text \<open>The two orders in which the semaphores are used.\<close>

fun first_sem :: "kop \<Rightarrow> sem" where
  "first_sem (Produce x) = Empty"
| "first_sem Consume = Full"

fun last_sem :: "kop \<Rightarrow> sem" where
  "last_sem (Produce x) = Full"
| "last_sem Consume = Empty"

fun acquired :: "sem \<Rightarrow> kop \<Rightarrow> kpc" where
  "acquired Mutex op = K_access op"
| "acquired x op = K_load Mutex op"

fun released :: "sem \<Rightarrow> kop \<Rightarrow> kpc" where
  "released Mutex op = K_add (last_sem op) op"
| "released x op = K_idle"

text \<open>\<open>acquire\<close>; the load is relaxed, so it may return any earlier value \<open>c\<close>.\<close>

definition sem_load :: "u32 \<Rightarrow> agent \<Rightarrow> sem \<Rightarrow> kop \<Rightarrow> ks \<Rightarrow> ks" where
  "sem_load c p x op s = kgoto p (if 0 < c then K_cas x op c else K_wait x op) s"

definition sem_exchange :: "agent \<Rightarrow> sem \<Rightarrow> kop \<Rightarrow> u32 \<Rightarrow> ks \<Rightarrow> ks" where
  "sem_exchange p x op c s =
     (if ks_count s x = c then kgoto p (acquired x op) (s\<lparr>ks_count := (ks_count s)(x := c - 1)\<rparr>)
      else kgoto p (K_load x op) s)"

definition sem_wait :: "agent \<Rightarrow> sem \<Rightarrow> kop \<Rightarrow> ks \<Rightarrow> ks" where
  "sem_wait p x op s =
     (if ks_count s x = 0 then kgoto p (K_sleep x op) (s\<lparr>ks_waiters := (ks_waiters s)(x := ks_waiters s x @ [p])\<rparr>)
      else kgoto p (K_load x op) s)"

text \<open>\<open>release\<close>, with \<open>n = 1\<close> as in every call. The woken waiters return from their wait.\<close>

definition sem_add :: "sem \<Rightarrow> ks \<Rightarrow> ks" where
  "sem_add x s = s\<lparr>ks_count := (ks_count s)(x := ks_count s x + 1)\<rparr>"

fun kresume :: "kpc \<Rightarrow> kpc" where
  "kresume (K_sleep x op) = K_load x op"
| "kresume pc = pc"

definition sem_wake :: "(nat \<Rightarrow> agent list \<Rightarrow> agent list \<times> agent list) \<Rightarrow> sem \<Rightarrow> ks \<Rightarrow> ks" where
  "sem_wake kw x s = (case kw 1 (ks_waiters s x) of
     (ws, rest) \<Rightarrow> s\<lparr>ks_waiters := (ks_waiters s)(x := rest),
        ks_procs := (\<lambda>q. if q \<in> set ws then kresume (ks_procs s q) else ks_procs s q)\<rparr>)"

definition wake_contract :: "(nat \<Rightarrow> agent list \<Rightarrow> agent list \<times> agent list) \<Rightarrow> bool" where
  "wake_contract kw \<longleftrightarrow> (\<forall>n ws. mset (fst (kw n ws)) + mset (snd (kw n ws)) = mset ws \<and>
     length (fst (kw n ws)) = min n (length ws))"

section \<open>Producers and consumers\<close>

text \<open>\<open>front\<close> and \<open>pop\<close> of an empty queue are undefined.\<close>

fun k_access :: "kop \<Rightarrow> ks \<Rightarrow> ks option" where
  "k_access (Produce x) s = Some (s\<lparr>ks_queue := ks_queue s @ [x], ks_in := ks_in s @ [x]\<rparr>)"
| "k_access Consume s =
     (case ks_queue s of [] \<Rightarrow> None | x # xs \<Rightarrow> Some (s\<lparr>ks_queue := xs, ks_out := ks_out s @ [x]\<rparr>))"

datatype 'b kresult = Blocked | Undefined | Stepped 'b

text \<open>
  The head of the loops of \<open>producer\<close> and \<open>async_consumer\<close>: the item is the loop variable, converted to
  \<open>int\<close>.
\<close>

fun round_op :: "agent \<Rightarrow> nat \<Rightarrow> kop" where
  "round_op (Producer j) i = Produce (sint (of_nat i :: 32 word))"
| "round_op (Consumer j) i = Consume"

definition k_begin :: "agent \<Rightarrow> ks \<Rightarrow> ks" where
  "k_begin p s = (let op = round_op p (ks_round s p) in
     kgoto p (K_load (first_sem op) op) (s\<lparr>ks_round := (ks_round s)(p := ks_round s p + 1)\<rparr>))"

text \<open>One step of \<open>p\<close>, whose loop has \<open>limit p\<close> rounds.\<close>

definition ks_step ::
  "(nat \<Rightarrow> agent list \<Rightarrow> agent list \<times> agent list) \<Rightarrow> (agent \<Rightarrow> nat) \<Rightarrow> u32 \<Rightarrow> agent \<Rightarrow> ks \<Rightarrow> ks kresult" where
  "ks_step kw limit c p s = (case ks_procs s p of
       K_idle \<Rightarrow> if ks_round s p < limit p then Stepped (k_begin p s) else Blocked
     | K_load x op \<Rightarrow> Stepped (sem_load c p x op s)
     | K_cas x op c \<Rightarrow> Stepped (sem_exchange p x op c s)
     | K_wait x op \<Rightarrow> Stepped (sem_wait p x op s)
     | K_sleep x op \<Rightarrow> Blocked
     | K_access op \<Rightarrow> (case k_access op s of None \<Rightarrow> Undefined | Some s1 \<Rightarrow> Stepped (kgoto p (K_add Mutex op) s1))
     | K_add x op \<Rightarrow> Stepped (kgoto p (K_wake x op) (sem_add x s))
     | K_wake x op \<Rightarrow> Stepped (kgoto p (released x op) (sem_wake kw x s)))"

text \<open>
  All interleavings. The wait of a thread may also return by itself (a signal); that of a coroutine
  may not, by the assertion in \<open>async_acquire\<close>.
\<close>

inductive ks_sys ::
  "(nat \<Rightarrow> agent list \<Rightarrow> agent list \<times> agent list) \<Rightarrow> (agent \<Rightarrow> nat) \<Rightarrow> agent list \<Rightarrow> ks \<Rightarrow> ks \<Rightarrow> bool"
  for kw limit ps where
  runs: "p \<in> set ps \<Longrightarrow> ks_step kw limit c p s = Stepped s' \<Longrightarrow> ks_sys kw limit ps s s'"
| interrupted: "p \<in> set ps \<Longrightarrow> ks_procs s p = K_sleep x (Produce i) \<Longrightarrow>
    ks_sys kw limit ps s
      (kgoto p (K_load x (Produce i)) (s\<lparr>ks_waiters := (ks_waiters s)(x := remove1 p (ks_waiters s x))\<rparr>))"

text \<open>
  \<open>main\<close> after its options: the arithmetic is that of \<open>size_t\<close>, the remainder by zero is undefined, and a
  total that does not divide ends the program with status 1.
\<close>

record kconfig =
  kc_agents :: "agent list"
  kc_limit :: "agent \<Rightarrow> nat"
  kc_state :: ks

definition main_kernel :: "nat \<Rightarrow> nat \<Rightarrow> nat \<Rightarrow> nat \<Rightarrow> (i32 + kconfig) option" where
  "main_kernel queue_size num_producers num_consumers items_per_producer =
     (let total_items = unat (of_nat (num_producers * items_per_producer) :: u64)
      in if num_consumers = 0 then None
         else if total_items mod num_consumers \<noteq> 0 then Some (Inl 1)
         else Some (Inr \<lparr>kc_agents = map Producer [0..<num_producers] @ map Consumer [0..<num_consumers],
                kc_limit = case_agent (\<lambda>_. items_per_producer) (\<lambda>_. total_items div num_consumers),
                kc_state = ks_new queue_size\<rparr>))"

section \<open>Invariants\<close>

abbreviation kn :: "agent list \<Rightarrow> (kpc \<Rightarrow> bool) \<Rightarrow> ks \<Rightarrow> nat" where
  "kn ps P s \<equiv> cnt ps P (ks_procs s)"

text \<open>
  The tokens of a semaphore that are not in its count. Between its first \<open>acquire\<close> and its access to the
  queue a participant has a \<open>claim\<close>; between the access and the addition of its last \<open>release\<close> it owes a token.
\<close>

fun claims :: "sem \<Rightarrow> kpc \<Rightarrow> bool" where
  "claims x (K_load Mutex op) = (first_sem op = x)"
| "claims x (K_cas Mutex op c) = (first_sem op = x)"
| "claims x (K_wait Mutex op) = (first_sem op = x)"
| "claims x (K_sleep Mutex op) = (first_sem op = x)"
| "claims x (K_access op) = (first_sem op = x)"
| "claims x pc = False"

fun owes :: "sem \<Rightarrow> kpc \<Rightarrow> bool" where
  "owes x (K_add Mutex op) = (last_sem op = x)"
| "owes x (K_wake Mutex op) = (last_sem op = x)"
| "owes x (K_add y op) = (y = x)"
| "owes x pc = False"

fun kholds :: "kpc \<Rightarrow> bool" where
  "kholds (K_access op) = True"
| "kholds (K_add Mutex op) = True"
| "kholds pc = False"

text \<open>Producers produce, consumers consume, and an operation has its order of semaphores.\<close>

fun does :: "agent \<Rightarrow> kop \<Rightarrow> bool" where
  "does (Producer j) (Produce x) = True"
| "does (Consumer j) Consume = True"
| "does p op = False"

fun well_placed :: "agent \<Rightarrow> kpc \<Rightarrow> bool" where
  "well_placed p K_idle = True"
| "well_placed p (K_load x op) = (does p op \<and> x \<noteq> last_sem op)"
| "well_placed p (K_cas x op c) = (does p op \<and> x \<noteq> last_sem op \<and> 0 < c)"
| "well_placed p (K_wait x op) = (does p op \<and> x \<noteq> last_sem op)"
| "well_placed p (K_sleep x op) = (does p op \<and> x \<noteq> last_sem op)"
| "well_placed p (K_access op) = does p op"
| "well_placed p (K_add x op) = (does p op \<and> x \<noteq> first_sem op)"
| "well_placed p (K_wake x op) = (does p op \<and> x \<noteq> first_sem op)"

fun sleeps :: "sem \<Rightarrow> kpc \<Rightarrow> bool" where
  "sleeps x (K_sleep y op) = (y = x)"
| "sleeps x pc = False"

fun kpending :: "sem \<Rightarrow> kpc \<Rightarrow> bool" where
  "kpending x (K_wake y op) = (y = x)"
| "kpending x pc = False"

fun kawake :: "sem \<Rightarrow> kpc \<Rightarrow> bool" where
  "kawake x (K_load y op) = (y = x)"
| "kawake x (K_cas y op c) = (y = x)"
| "kawake x (K_wait y op) = (y = x)"
| "kawake x pc = False"

definition tokens_ok :: "agent list \<Rightarrow> nat \<Rightarrow> ks \<Rightarrow> bool" where
  "tokens_ok ps cap s \<longleftrightarrow>
     unat (ks_count s Full) + kn ps (claims Full) s + kn ps (owes Full) s = length (ks_queue s) \<and>
     unat (ks_count s Empty) + kn ps (claims Empty) s + kn ps (owes Empty) s + length (ks_queue s) = cap \<and>
     unat (ks_count s Mutex) + kn ps kholds s = 1"

definition places_ok :: "agent list \<Rightarrow> ks \<Rightarrow> bool" where
  "places_ok ps s \<longleftrightarrow> (\<forall>p \<in> set ps. well_placed p (ks_procs s p)) \<and>
     (\<forall>x. distinct (ks_waiters s x) \<and> set (ks_waiters s x) = {p \<in> set ps. sleeps x (ks_procs s p)})"

definition kwakes_ok :: "agent list \<Rightarrow> ks \<Rightarrow> bool" where
  "kwakes_ok ps s \<longleftrightarrow> (\<forall>x. ks_waiters s x \<noteq> [] \<longrightarrow> unat (ks_count s x) \<le> kn ps (kpending x) s + kn ps (kawake x) s)"

text \<open>The rounds of which the access to the queue is still to come.\<close>

fun before_access :: "kpc \<Rightarrow> bool" where
  "before_access (K_load x op) = True"
| "before_access (K_cas x op c) = True"
| "before_access (K_wait x op) = True"
| "before_access (K_sleep x op) = True"
| "before_access (K_access op) = True"
| "before_access pc = False"

definition todo :: "(agent \<Rightarrow> nat) \<Rightarrow> ks \<Rightarrow> agent \<Rightarrow> nat" where
  "todo limit s p = limit p - ks_round s p + of_bool (before_access (ks_procs s p))"

abbreviation prods :: "nat \<Rightarrow> agent set" where
  "prods np \<equiv> Producer ` {..<np}"

abbreviation cons :: "nat \<Rightarrow> agent set" where
  "cons nc \<equiv> Consumer ` {..<nc}"

definition rounds_ok :: "(agent \<Rightarrow> nat) \<Rightarrow> nat \<Rightarrow> nat \<Rightarrow> ks \<Rightarrow> bool" where
  "rounds_ok limit np nc s \<longleftrightarrow>
     sum (todo limit s) (prods np) + length (ks_in s) = sum limit (prods np) \<and>
     sum (todo limit s) (cons nc) + length (ks_out s) = sum limit (cons nc) \<and>
     ks_in s = ks_out s @ ks_queue s"

lemma kgoto_sel [simp]:
  "ks_queue (kgoto p pc s) = ks_queue s" "ks_count (kgoto p pc s) = ks_count s" "ks_waiters (kgoto p pc s) = ks_waiters s"
  "ks_procs (kgoto p pc s) = (ks_procs s)(p := pc)" "ks_round (kgoto p pc s) = ks_round s"
  "ks_in (kgoto p pc s) = ks_in s" "ks_out (kgoto p pc s) = ks_out s"
  by (simp_all add: kgoto_def)

lemma sem_add_sel [simp]:
  "ks_queue (sem_add x s) = ks_queue s" "ks_count (sem_add x s) = (ks_count s)(x := ks_count s x + 1)"
  "ks_waiters (sem_add x s) = ks_waiters s" "ks_procs (sem_add x s) = ks_procs s" "ks_round (sem_add x s) = ks_round s"
  "ks_in (sem_add x s) = ks_in s" "ks_out (sem_add x s) = ks_out s"
  by (simp_all add: sem_add_def)

lemma sem_wake_sel [simp]:
  "ks_queue (sem_wake kw x s) = ks_queue s" "ks_count (sem_wake kw x s) = ks_count s"
  "ks_round (sem_wake kw x s) = ks_round s" "ks_in (sem_wake kw x s) = ks_in s" "ks_out (sem_wake kw x s) = ks_out s"
  by (simp_all add: sem_wake_def split: prod.splits)

lemma k_access_sel:
  assumes "k_access op s = Some s1"
  shows "ks_procs s1 = ks_procs s" "ks_count s1 = ks_count s" "ks_waiters s1 = ks_waiters s" "ks_round s1 = ks_round s"
  using assms by (cases op; auto split: list.splits)+

lemmas kstep_defs = ks_step_def k_begin_def sem_load_def sem_exchange_def sem_wait_def Let_def

text \<open>A wake takes one waiter if there is one.\<close>

lemma sem_wake_cases:
  assumes "wake_contract kw" and "places_ok ps s"
  obtains (none) "ks_waiters s x = []" "sem_wake kw x s = s"
  | (one) q op rest where "q \<in> set (ks_waiters s x)" "q \<in> set ps" "ks_procs s q = K_sleep x op"
      "distinct rest" "set rest = set (ks_waiters s x) - {q}"
      "ks_waiters (sem_wake kw x s) = (ks_waiters s)(x := rest)"
      "ks_procs (sem_wake kw x s) = (ks_procs s)(q := K_load x op)"
proof -
  obtain woken rest where kw: "kw 1 (ks_waiters s x) = (woken, rest)" by (cases "kw 1 (ks_waiters s x)")
  have "mset (fst (kw 1 (ks_waiters s x))) + mset (snd (kw 1 (ks_waiters s x))) = mset (ks_waiters s x) \<and>
      length (fst (kw 1 (ks_waiters s x))) = min 1 (length (ks_waiters s x))"
    using assms(1) unfolding wake_contract_def by blast
  then have split: "mset woken + mset rest = mset (ks_waiters s x)" and len: "length woken = min 1 (length (ks_waiters s x))"
    by (simp_all add: kw [simplified])
  have dist: "distinct (ks_waiters s x)" and mem: "set (ks_waiters s x) = {p \<in> set ps. sleeps x (ks_procs s p)}"
    using assms(2) by (simp_all add: places_ok_def)
  show thesis
  proof (cases "ks_waiters s x")
    case Nil
    then have "woken = []" "rest = []" using split by auto
    then show thesis using none Nil kw by (simp add: sem_wake_def fun_upd_idem)
  next
    case (Cons w ws)
    then have "length woken = 1" using len by simp
    then obtain q where q: "woken = [q]" by (cases woken) auto
    have all: "mset (q # rest) = mset (ks_waiters s x)" using split q by simp
    then have rest: "distinct (q # rest)" "set (q # rest) = set (ks_waiters s x)"
      using dist by (metis mset_eq_imp_distinct_iff, metis set_mset_mset)
    then have "q \<in> {p \<in> set ps. sleeps x (ks_procs s p)}" using mem by auto
    then obtain op where op: "q \<in> set ps" "ks_procs s q = K_sleep x op" by (cases "ks_procs s q") auto
    then have "(\<lambda>r. if r \<in> set woken then kresume (ks_procs s r) else ks_procs s r) = (ks_procs s)(q := K_load x op)"
      using q by auto
    moreover have "set rest = set (ks_waiters s x) - {q}" using rest by auto
    ultimately show thesis using one [of q op rest] op rest(1) kw rest(2) [THEN equalityD1] by (simp add: sem_wake_def)
  qed
qed

text \<open>How a predicate that does not see the difference between sleeping and loading is counted.\<close>

lemma wake_procs_eq:
  assumes "\<And>pc. P (kresume pc) = P pc"
  shows "P (ks_procs (sem_wake kw x s) q) = P (ks_procs s q)"
  by (simp add: sem_wake_def assms split: prod.splits)

lemma cnt_cong: "(\<And>p. P (f p) = P (g p)) \<Longrightarrow> cnt ps P f = cnt ps P g"
  by (simp add: cnt_def)

lemma kstep_others:
  assumes "ks_step kw limit c p s = Stepped s'" and "\<And>pc. P (kresume pc) = P pc" and "q \<noteq> p"
  shows "P (ks_procs s' q) = P (ks_procs s q)"
  using assms(1,3) by (cases "ks_procs s p")
    (auto simp: kstep_defs wake_procs_eq [of P, OF assms(2)] k_access_sel split: if_splits option.splits)

lemma kn_step:
  assumes "ks_step kw limit c p s = Stepped s'" and "\<And>pc. P (kresume pc) = P pc" and "distinct ps" and "p \<in> set ps"
  shows "kn ps P s' + of_bool (P (ks_procs s p)) = kn ps P s + of_bool (P (ks_procs s' p))"
proof -
  have "cnt ps P ((ks_procs s)(p := ks_procs s' p)) = kn ps P s'"
    using kstep_others [where P = P, OF assms(1,2)] by (intro cnt_cong) simp
  then show ?thesis
    using cnt_upd [OF assms(3,4), of P "ks_procs s" "ks_procs s' p"] by simp
qed

lemma claims_kresume [simp]: "claims x (kresume pc) = claims x pc"
proof (cases pc)
  case (K_sleep y op)
  then show ?thesis by (cases y) simp_all
qed simp_all

lemma kresume_simps [simp]:
  "owes x (kresume pc) = owes x pc" "kholds (kresume pc) = kholds pc" "well_placed p (kresume pc) = well_placed p pc"
  "before_access (kresume pc) = before_access pc" "kpending x (kresume pc) = kpending x pc"
  by (cases pc; simp)+

text \<open>The tokens of each semaphore are conserved, and no count wraps.\<close>

lemma unat_dec: "0 < (c :: u32) \<Longrightarrow> Suc (unat (c - 1)) = unat c"
  by (metis Suc_pred' unat_gt_0 unat_minus_one word_greater_zero_iff)

lemma unat_inc: "unat (c :: u32) + 1 < 2 ^ 32 \<Longrightarrow> unat (c + 1) = Suc (unat c)"
  by (simp add: unat_word_ariths)

lemma step_tokens:
  assumes step: "ks_step kw limit c p s = Stepped s'" and ps: "distinct ps" "p \<in> set ps"
    and inv: "tokens_ok ps cap s" and place: "well_placed p (ks_procs s p)" and cap: "cap < 2 ^ 32"
  shows "tokens_ok ps cap s'"
proof -
  note cl = kn_step [where P = "claims y" for y, OF step claims_kresume ps]
  note ow = kn_step [where P = "owes y" for y, OF step kresume_simps(1) ps]
  note ho = kn_step [where P = kholds, OF step kresume_simps(2) ps]
  note counts = cl [of Full] cl [of Empty] ow [of Full] ow [of Empty] ho
  note inv = inv [unfolded tokens_ok_def]
  show ?thesis
  proof (cases "ks_procs s p")
    case K_idle
    then have "s' = k_begin p s" using step by (simp add: ks_step_def split: if_splits)
    then show ?thesis using K_idle inv counts by (cases p) (simp_all add: tokens_ok_def k_begin_def)
  next
    case (K_load x op)
    then have "s' = sem_load c p x op s" using step by (simp add: ks_step_def)
    then show ?thesis using inv counts by (cases x) (simp_all add: K_load tokens_ok_def sem_load_def split: if_splits)
  next
    case (K_cas x op d)
    then have "s' = sem_exchange p x op d s" using step by (simp add: ks_step_def)
    then show ?thesis using inv counts place unat_dec [of d]
      by (cases x; cases op) (simp_all add: K_cas tokens_ok_def sem_exchange_def split: if_splits)
  next
    case (K_wait x op)
    then have "s' = sem_wait p x op s" using step by (simp add: ks_step_def)
    then show ?thesis using inv counts by (cases x) (simp_all add: K_wait tokens_ok_def sem_wait_def split: if_splits)
  next
    case (K_access op)
    then show ?thesis using step inv counts
      by (cases op) (auto simp: K_access tokens_ok_def ks_step_def split: list.splits)
  next
    case (K_add x op)
    then have "s' = kgoto p (K_wake x op) (sem_add x s)" using step by (simp add: ks_step_def)
    then show ?thesis using inv counts place unat_inc [of "ks_count s x"] cap
      by (cases x; cases op) (simp_all add: K_add tokens_ok_def)
  next
    case (K_wake x op)
    then have "s' = kgoto p (released x op) (sem_wake kw x s)" using step by (simp add: ks_step_def)
    then show ?thesis using inv counts place by (cases x; cases op) (simp_all add: K_wake tokens_ok_def)
  qed (use step in \<open>simp add: ks_step_def\<close>)
qed

text \<open>The lists of the futexes hold exactly those that sleep there.\<close>

lemma step_well_placed:
  assumes "ks_step kw limit c p s = Stepped s'" and "well_placed p (ks_procs s p)"
  shows "well_placed p (ks_procs s' p)"
proof (cases "ks_procs s p")
  case K_idle
  then have "s' = k_begin p s" using assms(1) by (simp add: ks_step_def split: if_splits)
  then show ?thesis by (cases p) (simp_all add: k_begin_def)
next
  case (K_cas x op d)
  then show ?thesis using assms by (cases x; cases op) (auto simp: kstep_defs split: if_splits)
next
  case (K_wake x op)
  then show ?thesis using assms by (cases x; cases op) (auto simp: kstep_defs)
next
  case (K_access op)
  then show ?thesis using assms by (cases op) (auto simp: kstep_defs split: option.splits)
qed (use assms in \<open>auto simp: kstep_defs word_neq_0_conv split: if_splits option.splits elim: first_sem.elims last_sem.elims\<close>)

lemma not_woken_frame:
  assumes "ks_step kw limit c p s = Stepped s'" and "\<nexists>x op. ks_procs s p = K_wake x op"
  shows "ks_procs s' = (ks_procs s)(p := ks_procs s' p)"
  using assms by (cases "ks_procs s p") (auto simp: kstep_defs k_access_sel split: if_splits option.splits)

definition klisted :: "agent list \<Rightarrow> sem \<Rightarrow> agent list \<Rightarrow> (agent \<Rightarrow> kpc) \<Rightarrow> bool" where
  "klisted ps x ws f \<longleftrightarrow> distinct ws \<and> set ws = {p \<in> set ps. sleeps x (f p)}"

lemma klisted_other: "klisted ps x ws f \<Longrightarrow> \<not> sleeps x (f p) \<Longrightarrow> \<not> sleeps x pc \<Longrightarrow> klisted ps x ws (f(p := pc))"
  by (auto simp: klisted_def)

lemma klisted_enlist:
  "klisted ps x ws f \<Longrightarrow> \<not> sleeps x (f p) \<Longrightarrow> sleeps x pc \<Longrightarrow> p \<in> set ps \<Longrightarrow> klisted ps x (ws @ [p]) (f(p := pc))"
  by (auto simp: klisted_def)

lemma klisted_leave:
  "klisted ps x ws f \<Longrightarrow> distinct rest \<Longrightarrow> set rest = set ws - {p} \<Longrightarrow> \<not> sleeps x pc \<Longrightarrow> klisted ps x rest (f(p := pc))"
  by (auto simp: klisted_def)

lemma places_ok_alt:
  "places_ok ps s \<longleftrightarrow> (\<forall>p \<in> set ps. well_placed p (ks_procs s p)) \<and> (\<forall>x. klisted ps x (ks_waiters s x) (ks_procs s))"
  by (simp add: places_ok_def klisted_def)

lemma not_sleeps_released [simp]: "\<not> sleeps x (released y op)" "\<not> sleeps x (acquired y op)"
  by (cases y; simp)+

lemma wake_self: "ks_procs s p = K_wake x op \<Longrightarrow> ks_procs (sem_wake kw x s) p = K_wake x op"
  by (simp add: sem_wake_def split: prod.splits)

lemma wake_lists:
  assumes "wake_contract kw" and "places_ok ps s"
  shows "klisted ps y (ks_waiters (sem_wake kw x s) y) (ks_procs (sem_wake kw x s))"
proof -
  have inv: "klisted ps y (ks_waiters s y) (ks_procs s)" for y using assms(2) by (simp add: places_ok_alt)
  show ?thesis using assms
  proof (cases rule: sem_wake_cases [where x = x])
    case (one q op rest)
    show ?thesis
    proof (cases "y = x")
      case True
      then show ?thesis using one klisted_leave [OF inv [of x] one(4,5)] by simp
    next
      case False
      then show ?thesis using one klisted_other [OF inv [of y], of q "K_load x op"] by simp
    qed
  qed (use inv in simp)
qed

lemma kstep_lists:
  assumes step: "ks_step kw limit c p s = Stepped s'" and p: "p \<in> set ps" and kw: "wake_contract kw" and inv: "places_ok ps s"
  shows "klisted ps y (ks_waiters s' y) (ks_procs s')"
proof -
  have old: "klisted ps y (ks_waiters s y) (ks_procs s)" for y using inv by (simp add: places_ok_alt)
  show ?thesis
  proof (cases "ks_procs s p")
    case (K_wait x op)
    then have "s' = sem_wait p x op s" using step by (simp add: ks_step_def)
    then show ?thesis using p klisted_enlist [OF old [of x], of p "K_sleep x op"] klisted_other [OF old [of y], of p]
      by (cases "y = x") (simp_all add: K_wait sem_wait_def)
  next
    case (K_wake x op)
    then have "s' = kgoto p (released x op) (sem_wake kw x s)" using step by (simp add: ks_step_def)
    then show ?thesis using klisted_other [OF wake_lists [OF kw inv, of y x], of p "released x op"]
      by (simp add: wake_self [OF K_wake])
  qed (use step klisted_other [OF old [of y], of p] in
    \<open>auto simp: kstep_defs k_access_sel split: if_splits option.splits\<close>)
qed

lemma step_places:
  assumes "ks_step kw limit c p s = Stepped s'" and "p \<in> set ps" and "wake_contract kw" and "places_ok ps s"
  shows "places_ok ps s'"
proof -
  have "well_placed q (ks_procs s' q)" if "q \<in> set ps" for q
    using that step_well_placed [OF assms(1)] kstep_others [where P = "well_placed q", OF assms(1) kresume_simps(3), of q] assms(4)
    by (cases "q = p") (auto simp: places_ok_alt)
  then show ?thesis using kstep_lists [OF assms] by (simp add: places_ok_alt)
qed

text \<open>
  No wake-up is lost: as long as somebody sleeps at a semaphore, each of its tokens is covered by somebody
  who is about to wake, or is awake and will look at the count.
\<close>

abbreviation covered :: "agent list \<Rightarrow> sem \<Rightarrow> (agent \<Rightarrow> kpc) \<Rightarrow> nat" where
  "covered ps x f \<equiv> cnt ps (kpending x) f + cnt ps (kawake x) f"

lemma covered_upd:
  assumes "distinct ps" and "p \<in> set ps"
  shows "covered ps x (f(p := pc)) + (of_bool (kpending x (f p)) + of_bool (kawake x (f p))) =
    covered ps x f + (of_bool (kpending x pc) + of_bool (kawake x pc))"
  using cnt_upd [OF assms, of "kpending x" f pc] cnt_upd [OF assms, of "kawake x" f pc] by simp

lemma wake_covered:
  assumes kw: "wake_contract kw" and inv: "places_ok ps s" and "distinct ps" and waits: "ks_waiters s x \<noteq> []"
  shows "covered ps x (ks_procs (sem_wake kw x s)) = covered ps x (ks_procs s) + 1"
  using kw inv
proof (cases rule: sem_wake_cases [where x = x])
  case (one q op rest)
  then show ?thesis using covered_upd [OF assms(3), of q x "ks_procs s" "K_load x op"] by simp
qed (use waits in simp)

lemma wake_covered_other:
  assumes kw: "wake_contract kw" and inv: "places_ok ps s" and "distinct ps" and "y \<noteq> x"
  shows "covered ps y (ks_procs (sem_wake kw x s)) = covered ps y (ks_procs s)"
  using kw inv
proof (cases rule: sem_wake_cases [where x = x])
  case (one q op rest)
  then show ?thesis using covered_upd [OF assms(3), of q y "ks_procs s" "K_load x op"] assms(4) by simp
qed simp

lemma wake_waiters:
  assumes "wake_contract kw" and "places_ok ps s" and "ks_waiters (sem_wake kw x s) y \<noteq> []"
  shows "ks_waiters s y \<noteq> []"
  using assms(1,2)
proof (cases rule: sem_wake_cases [where x = x])
  case (one q op rest)
  show ?thesis using assms(3) one(1) unfolding one(6) by (cases "y = x") auto
qed (use assms(3) in simp)

lemma kstep_wakes:
  assumes step: "ks_step kw limit c p s = Stepped s'" and ps: "distinct ps" "p \<in> set ps" and kw: "wake_contract kw"
    and places: "places_ok ps s" and inv: "kwakes_ok ps s" and waits: "ks_waiters s' y \<noteq> []"
    and bound: "\<And>op. ks_procs s p = K_add y op \<Longrightarrow> unat (ks_count s y) + 1 < 2 ^ 32"
  shows "unat (ks_count s' y) \<le> covered ps y (ks_procs s')"
proof (cases "\<exists>x op. ks_procs s p = K_wake x op")
  case True
  then obtain x op where pc: "ks_procs s p = K_wake x op" by blast
  let ?s = "sem_wake kw x s"
  have s': "s' = kgoto p (released x op) ?s" using step by (simp add: ks_step_def pc)
  have old: "unat (ks_count s y) \<le> covered ps y (ks_procs s)"
    using inv wake_waiters [OF kw places] waits by (auto simp: kwakes_ok_def s')
  have "covered ps y (ks_procs ?s) = covered ps y (ks_procs s) + of_bool (y = x)"
    using wake_covered [OF kw places ps(1), of x] wake_covered_other [OF kw places ps(1), of y x]
      wake_waiters [OF kw places] waits by (cases "y = x") (auto simp: s')
  then show ?thesis
    using old covered_upd [OF ps, of y "ks_procs ?s" "released x op"] wake_self [OF pc]
    by (simp add: s' eq_commute [of x y])
next
  case False
  then have frame: "ks_procs s' = (ks_procs s)(p := ks_procs s' p)" using not_woken_frame [OF step] by blast
  note old = inv [unfolded kwakes_ok_def, rule_format, of y]
  note upd = covered_upd [OF ps, of y "ks_procs s" "ks_procs s' p", folded frame]
  have place: "well_placed p (ks_procs s p)" using places ps(2) by (simp add: places_ok_def)
  show ?thesis
  proof (cases "ks_procs s p")
    case K_idle
    then have "s' = k_begin p s" using step by (simp add: ks_step_def split: if_splits)
    then show ?thesis using waits old upd by (simp add: K_idle k_begin_def Let_def)
  next
    case (K_load x op)
    then have "s' = sem_load c p x op s" using step by (simp add: ks_step_def)
    then show ?thesis using waits old upd by (simp add: K_load sem_load_def split: if_splits)
  next
    case (K_cas x op d)
    then have s': "s' = sem_exchange p x op d s" using step by (simp add: ks_step_def)
    show ?thesis using waits old upd place unat_dec [of d] unfolding s'
      by (cases x; cases y) (simp_all add: K_cas sem_exchange_def split: if_splits)
  next
    case (K_wait x op)
    then have "s' = sem_wait p x op s" using step by (simp add: ks_step_def)
    then show ?thesis using waits old upd by (cases "y = x") (simp_all add: K_wait sem_wait_def split: if_splits)
  next
    case (K_access op)
    then obtain s1 where "k_access op s = Some s1" "s' = kgoto p (K_add Mutex op) s1"
      using step by (auto simp: ks_step_def split: option.splits)
    then show ?thesis using waits old upd by (simp add: K_access k_access_sel)
  next
    case (K_add x op)
    then have "s' = kgoto p (K_wake x op) (sem_add x s)" using step by (simp add: ks_step_def)
    then show ?thesis using waits old upd unat_inc [OF bound, of op] by (cases "y = x") (simp_all add: K_add)
  qed (use step False in \<open>simp_all add: ks_step_def\<close>)
qed

text \<open>The rounds add up to what has gone through the queue.\<close>

abbreviation agents :: "nat \<Rightarrow> nat \<Rightarrow> agent list" where
  "agents np nc \<equiv> map Producer [0..<np] @ map Consumer [0..<nc]"

lemma step_todo_others:
  assumes "ks_step kw limit c p s = Stepped s'" and "q \<noteq> p"
  shows "todo limit s' q = todo limit s q"
proof -
  have "ks_round s' q = ks_round s q" using assms
    by (cases "ks_procs s p") (auto simp: kstep_defs k_access_sel split: if_splits option.splits)
  then show ?thesis using kstep_others [where P = before_access, OF assms(1) kresume_simps(4) assms(2)] by (simp add: todo_def)
qed

lemma step_todo:
  assumes "ks_step kw limit c p s = Stepped s'" and "\<nexists>op. ks_procs s p = K_access op"
  shows "todo limit s' p = todo limit s p" and "ks_in s' = ks_in s" and "ks_out s' = ks_out s" and "ks_queue s' = ks_queue s"
proof -
  have "before_access (acquired x op)" "\<not> before_access (released x op)" for x op by (cases x; simp)+
  then show "todo limit s' p = todo limit s p" using assms
    by (cases "ks_procs s p") (auto simp: kstep_defs todo_def split: if_splits)
  show "ks_in s' = ks_in s" "ks_out s' = ks_out s" "ks_queue s' = ks_queue s"
    using assms by (cases "ks_procs s p"; auto simp: kstep_defs split: if_splits)+
qed

lemma rounds_cong:
  assumes "\<And>q. todo limit s' q = todo limit s q" "ks_in s' = ks_in s" "ks_out s' = ks_out s" "ks_queue s' = ks_queue s"
  shows "rounds_ok limit np nc s' = rounds_ok limit np nc s"
  by (simp add: rounds_ok_def assms)

lemma step_access:
  assumes step: "ks_step kw limit c p s = Stepped s'" and "well_placed p (ks_procs s p)" and op: "ks_procs s p = K_access op"
  obtains s1 where "does p op" "k_access op s = Some s1" "ks_in s' = ks_in s1" "ks_out s' = ks_out s1" "ks_queue s' = ks_queue s1"
    "todo limit s p = todo limit s' p + 1"
proof -
  obtain s1 where s1: "k_access op s = Some s1" "s' = kgoto p (K_add Mutex op) s1"
    using step op by (auto simp: ks_step_def split: option.splits)
  moreover have "todo limit s p = todo limit s' p + 1" using s1 op by (simp add: todo_def k_access_sel)
  ultimately show thesis using that assms(2) op by simp
qed

interpretation kq: counted_loops "todo limit" "\<lambda>s. length (ks_in s)" "\<lambda>s. length (ks_out s)"
  "\<lambda>p s t. well_placed p (ks_procs s p) \<and> (\<exists>kw c. ks_step kw limit c p s = Stepped t)" "prods np" "cons nc" for limit np nc
proof (unfold_locales, goal_cases)
  case (4 p s t q)
  then show ?case using step_todo_others by blast
next
  case (5 p s t)
  then obtain kw c where step: "ks_step kw limit c p s = Stepped t" and place: "well_placed p (ks_procs s p)" by blast
  show ?case
  proof (cases "\<exists>op. ks_procs s p = K_access op")
    case True
    then obtain op where op: "ks_procs s p = K_access op" by blast
    obtain s1 where "does p op" "k_access op s = Some s1" "ks_in t = ks_in s1" "ks_out t = ks_out s1" "ks_queue t = ks_queue s1"
      "todo limit s p = todo limit t p + 1" by (rule step_access [OF step place op])
    then show ?thesis using 5(2) by (cases op; cases p) (auto split: list.splits)
  next
    case False
    then show ?thesis using step_todo [OF step False] by simp
  qed
qed auto

lemma step_rounds:
  assumes step: "ks_step kw limit c p s = Stepped s'" and p: "p \<in> set (agents np nc)"
    and place: "well_placed p (ks_procs s p)" and inv: "rounds_ok limit np nc s"
  shows "rounds_ok limit np nc s'"
proof -
  have "ks_in s' = ks_out s' @ ks_queue s'"
  proof (cases "\<exists>op. ks_procs s p = K_access op")
    case True
    then obtain op where op: "ks_procs s p = K_access op" by blast
    obtain s1 where "does p op" "k_access op s = Some s1" "ks_in s' = ks_in s1" "ks_out s' = ks_out s1" "ks_queue s' = ks_queue s1"
      "todo limit s p = todo limit s' p + 1" by (rule step_access [OF step place op])
    then show ?thesis using inv by (cases op) (auto simp: rounds_ok_def split: list.splits)
  next
    case False
    then show ?thesis using step_todo(2-4) [OF step False] inv by (simp add: rounds_ok_def)
  qed
  moreover have "p \<in> prods np \<union> cons nc" using p by auto
  ultimately show ?thesis
    using kq.balance [of p s limit s' np nc] step place inv unfolding rounds_ok_def by metis
qed

section \<open>All interleavings\<close>

definition kinv :: "(agent \<Rightarrow> nat) \<Rightarrow> nat \<Rightarrow> nat \<Rightarrow> nat \<Rightarrow> ks \<Rightarrow> bool" where
  "kinv limit np nc cap s \<longleftrightarrow> tokens_ok (agents np nc) cap s \<and> places_ok (agents np nc) s \<and>
     kwakes_ok (agents np nc) s \<and> rounds_ok limit np nc s"

lemma agents_distinct: "distinct (agents np nc)"
  by (auto simp: distinct_map inj_on_def)

lemma add_bound:
  assumes "tokens_ok ps cap s" and "cap < 2 ^ 32" and "p \<in> set ps" and "ks_procs s p = K_add x op"
    and "well_placed p (ks_procs s p)"
  shows "unat (ks_count s x) + 1 < 2 ^ 32"
  using assms cnt_pos [OF assms(3), of "owes x" "ks_procs s"]
  by (cases x; cases op) (auto simp: tokens_ok_def)

lemma step_kinv:
  assumes step: "ks_step kw limit c p s = Stepped s'" and p: "p \<in> set (agents np nc)" and kw: "wake_contract kw"
    and cap: "cap < 2 ^ 32" and inv: "kinv limit np nc cap s"
  shows "kinv limit np nc cap s'"
proof -
  have tokens: "tokens_ok (agents np nc) cap s" and places: "places_ok (agents np nc) s"
    and wakes: "kwakes_ok (agents np nc) s" and rounds: "rounds_ok limit np nc s"
    using inv by (simp_all add: kinv_def)
  have place: "well_placed p (ks_procs s p)" using places p unfolding places_ok_def by blast
  have "unat (ks_count s' y) \<le> covered (agents np nc) y (ks_procs s')" if "ks_waiters s' y \<noteq> []" for y
    by (rule kstep_wakes [OF step agents_distinct p kw places wakes that add_bound [OF tokens cap p _ place]])
  then show ?thesis
    using step_tokens [OF step agents_distinct p tokens place cap] step_places [OF step p kw places]
      step_rounds [OF step p place rounds]
    unfolding kinv_def kwakes_ok_def by blast
qed

text \<open>A wait that returns by itself is like a wake of one.\<close>

lemma interrupted_kinv:
  assumes p: "p \<in> set (agents np nc)" and pc: "ks_procs s p = K_sleep x op" and inv: "kinv limit np nc cap s"
    and s': "s' = kgoto p (K_load x op) (s\<lparr>ks_waiters := (ks_waiters s)(x := remove1 p (ks_waiters s x))\<rparr>)"
  shows "kinv limit np nc cap s'"
proof -
  let ?ps = "agents np nc"
  have procs: "ks_procs s' = (ks_procs s)(p := kresume (ks_procs s p))" by (simp add: s' pc)
  have same: "P (ks_procs s' q) = P (ks_procs s q)" if "\<And>pc. P (kresume pc) = P pc" for P q
    using that by (simp add: procs)
  have kn: "kn ?ps P s' = kn ?ps P s" if "\<And>pc. P (kresume pc) = P pc" for P
    by (intro cnt_cong same that)
  have "tokens_ok ?ps cap s'"
    using inv by (simp add: kinv_def tokens_ok_def kn) (simp add: s')
  moreover have "places_ok ?ps s'"
  proof -
    have old: "klisted ?ps y (ks_waiters s y) (ks_procs s)" for y using inv by (simp add: kinv_def places_ok_alt)
    have "klisted ?ps y (ks_waiters s' y) (ks_procs s')" for y
      using klisted_leave [OF old [of x], of "remove1 p (ks_waiters s x)" p "K_load x op"] old [of x]
        klisted_other [OF old [of y], of p "K_load x op"]
      by (cases "y = x") (auto simp: s' pc klisted_def [of _ _ "ks_waiters s x"])
    moreover have "well_placed q (ks_procs s' q) = well_placed q (ks_procs s q)" for q
      by (rule same) simp
    ultimately show ?thesis using inv by (simp add: kinv_def places_ok_alt)
  qed
  moreover have "kwakes_ok ?ps s'"
  proof -
    have "covered ?ps y (ks_procs s) \<le> covered ?ps y (ks_procs s')" for y
      using covered_upd [OF agents_distinct p, of y "ks_procs s" "K_load x op"] by (simp add: s' pc)
    moreover have "ks_waiters s y \<noteq> []" if "ks_waiters s' y \<noteq> []" for y
      using that by (cases "y = x") (auto simp: s')
    ultimately show ?thesis using inv order_trans unfolding kinv_def kwakes_ok_def by (fastforce simp: s')
  qed
  moreover have "todo limit s' q = todo limit s q" for q
    using same [of before_access q] by (simp add: todo_def) (simp add: s')
  ultimately show ?thesis using inv rounds_cong [of limit s' s np nc] by (simp add: kinv_def) (simp add: s')
qed

lemma ks_new_kinv: "kinv limit np nc (queue_size mod 2 ^ 32) (ks_new queue_size)"
proof -
  have "cnt ps P (\<lambda>_. K_idle) = 0" if "\<not> P K_idle" for ps :: "agent list" and P using that by (simp add: cnt_def)
  then show ?thesis
    by (simp add: kinv_def ks_new_def tokens_ok_def places_ok_def kwakes_ok_def rounds_ok_def todo_def unat_of_nat)
qed

lemma ks_reach_kinv:
  assumes "(ks_sys kw limit (agents np nc))\<^sup>*\<^sup>* (ks_new queue_size) s" and "wake_contract kw"
  shows "kinv limit np nc (queue_size mod 2 ^ 32) s"
  using assms(1)
proof (induction rule: rtranclp_induct)
  case (step t u)
  from step(2,3) show ?case
  proof cases
    case (runs p c)
    then show ?thesis using step_kinv [OF _ _ assms(2)] step.IH by simp
  next
    case (interrupted p x i)
    then show ?thesis using interrupted_kinv step.IH by blast
  qed
qed (rule ks_new_kinv)

text \<open>What \<open>main\<close> sets up.\<close>

lemma main_kernel_cases:
  assumes "main_kernel queue_size np nc items = Some (Inr cfg)"
  shows "kc_agents cfg = agents np nc" and "kc_state cfg = ks_new queue_size"
    and "kc_limit cfg (Producer j) = items" and "nc * kc_limit cfg (Consumer j) = np * items mod 2 ^ 64" and "0 < nc"
  using assms by (auto simp: main_kernel_def Let_def unat_of_nat dvd_eq_mod_eq_0 [symmetric] simp del: of_nat_mult split: if_splits)

lemma access_defined:
  assumes "tokens_ok ps cap s" and "p \<in> set ps" and "ks_procs s p = K_access op"
  shows "k_access op s \<noteq> None"
  using assms(1,3) cnt_pos [OF assms(2), of "claims Full" "ks_procs s"]
  by (cases op) (auto simp: tokens_ok_def split: list.splits)

lemma stuck_place:
  assumes "ks_step kw limit c p s = Blocked"
  obtains (finished) "ks_procs s p = K_idle" "limit p \<le> ks_round s p" | (asleep) x op where "ks_procs s p = K_sleep x op"
  using assms by (auto simp: ks_step_def split: kpc.splits if_splits option.splits)

lemma stuck_not:
  "ks_step kw limit c p s = Blocked \<Longrightarrow>
   \<not> kholds (ks_procs s p) \<and> \<not> owes x (ks_procs s p) \<and> \<not> kpending x (ks_procs s p) \<and> \<not> kawake x (ks_procs s p)"
  by (erule stuck_place) simp_all

lemma stuck_counts:
  assumes "\<forall>p \<in> set ps. ks_step kw limit c p s = Blocked"
  shows "cnt ps kholds (ks_procs s) = 0" and "cnt ps (owes x) (ks_procs s) = 0" and "covered ps x (ks_procs s) = 0"
  using stuck_not [OF assms [rule_format]] by (simp_all add: cnt_zero)

text \<open>When nobody can move, a semaphore at which somebody sleeps has no token left.\<close>

lemma stuck_no_token:
  assumes stuck: "\<forall>p \<in> set ps. ks_step kw limit c p s = Blocked"
    and inv: "places_ok ps s" "kwakes_ok ps s" and p: "p \<in> set ps" "ks_procs s p = K_sleep x op"
  shows "ks_count s x = 0"
proof -
  have "p \<in> set (ks_waiters s x)" using inv(1) p by (auto simp: places_ok_def)
  then have "ks_waiters s x \<noteq> []" by auto
  then show ?thesis using inv(2) stuck_counts(3) [OF stuck] by (simp add: kwakes_ok_def unat_eq_zero)
qed

lemma stuck_asleep:
  assumes stuck: "\<forall>p \<in> set ps. ks_step kw limit c p s = Blocked"
    and tokens: "tokens_ok ps cap s" and inv: "places_ok ps s" "kwakes_ok ps s"
    and p: "p \<in> set ps" "ks_procs s p = K_sleep x op"
  shows "x = first_sem op" "does p op" "x = Full \<Longrightarrow> ks_queue s = []" "x = Empty \<Longrightarrow> length (ks_queue s) = cap"
proof -
  have no_mutex: "x \<noteq> Mutex" if "p \<in> set ps" "ks_procs s p = K_sleep x op" for p x op
    using stuck_no_token [OF stuck inv that] tokens stuck_counts(1) [OF stuck] by (auto simp: tokens_ok_def)
  have "cnt ps (claims y) (ks_procs s) = 0" for y
  proof (rule cnt_zero)
    fix q assume q: "q \<in> set ps"
    from bspec [OF stuck q] show "\<not> claims y (ks_procs s q)"
    proof (cases rule: stuck_place)
      case (asleep z op')
      then show ?thesis using no_mutex [OF q asleep] by (cases z) auto
    qed simp
  qed
  then show "x = Full \<Longrightarrow> ks_queue s = []" "x = Empty \<Longrightarrow> length (ks_queue s) = cap"
    using tokens stuck_no_token [OF stuck inv p] stuck_counts(2) [OF stuck] by (auto simp: tokens_ok_def)
  have "well_placed p (K_sleep x op)" using inv(1) p by (metis places_ok_def)
  then show "x = first_sem op" "does p op" using no_mutex [OF p] by (cases x; cases op; simp)+
qed

lemma todo_finished: "ks_procs s p = K_idle \<Longrightarrow> limit p \<le> ks_round s p \<Longrightarrow> todo limit s p = 0"
  by (simp add: todo_def)

lemma todo_asleep: "ks_procs s p = K_sleep x op \<Longrightarrow> 0 < todo limit s p"
  by (simp add: todo_def)

text \<open>
  Sleeping consumers mean an empty queue and sleeping producers a full one, so one side has finished;
  and then the other side has nothing left to wait for.
\<close>

lemma stuck_finished:
  assumes stuck: "\<forall>p \<in> set (agents np nc). ks_step kw limit c p s = Blocked"
    and inv: "tokens_ok (agents np nc) cap s" "places_ok (agents np nc) s" "kwakes_ok (agents np nc) s"
    and rounds: "rounds_ok limit np nc s" and cap: "0 < cap"
    and equal: "sum limit (prods np) = sum limit (cons nc)" and p: "p \<in> set (agents np nc)"
  shows "ks_procs s p = K_idle \<and> limit p \<le> ks_round s p"
  using bspec [OF stuck p]
proof (cases rule: stuck_place)
  case (asleep x op)
  note at = stuck_asleep [OF stuck inv]
  note sums = rounds [unfolded rounds_ok_def equal]
  have no_todo: "todo limit s q = 0" if q: "q \<in> set (agents np nc)" and "\<And>y op'. ks_procs s q \<noteq> K_sleep y op'" for q
    using bspec [OF stuck q] by (cases rule: stuck_place) (use that(2) in \<open>simp_all add: todo_finished\<close>)
  have "todo limit s p = 0"
  proof (cases p)
    case (Consumer j)
    then have "op = Consume" using at(2) [OF p asleep] by (cases op) simp_all
    then have empty: "ks_queue s = []" using at(1,3) [OF p asleep] by simp
    then have "ks_procs s (Producer i) \<noteq> K_sleep y op'" if "i < np" for i y op'
      using at(1,2,4) [of "Producer i" y op'] that cap by (cases op') auto
    then have "todo limit s q = 0" if "q \<in> prods np" for q using that by (intro no_todo) auto
    then show ?thesis using sums empty p Consumer
      by (intro kq.all_taken [of limit s np "sum limit (cons nc)" nc p]) auto
  next
    case (Producer j)
    then have "x = Empty" using at(1,2) [OF p asleep] by (cases op) auto
    then have full: "length (ks_queue s) = cap" using at(4) [OF p asleep] by simp
    then have "ks_procs s (Consumer i) \<noteq> K_sleep y op'" if "i < nc" for i y op'
      using at(1-3) [of "Consumer i" y op'] that cap by (cases op') auto
    then have "todo limit s q = 0" if "q \<in> cons nc" for q using that by (intro no_todo) auto
    then show ?thesis using sums p Producer
      by (intro kq.all_made(2) [of limit s np "sum limit (cons nc)" nc p]) auto
  qed
  then show ?thesis using todo_asleep [OF asleep, of limit] by simp
qed simp

text \<open>A schedule, with the values that the loads return, and its run.\<close>

fun ks_run ::
  "(nat \<Rightarrow> agent list \<Rightarrow> agent list \<times> agent list) \<Rightarrow> (agent \<Rightarrow> nat) \<Rightarrow> (agent \<times> u32) list \<Rightarrow> ks \<Rightarrow> ks" where
  "ks_run kw limit [] s = s"
| "ks_run kw limit ((p, c) # xs) s = ks_run kw limit xs (case ks_step kw limit c p s of Stepped s' \<Rightarrow> s' | _ \<Rightarrow> s)"

lemma ks_run_sys:
  "fst ` set xs \<subseteq> set ps \<Longrightarrow> (ks_sys kw limit ps)\<^sup>*\<^sup>* s (ks_run kw limit xs s)"
proof (induction kw limit xs s rule: ks_run.induct)
  case (2 kw limit p c xs s)
  then have "(ks_sys kw limit ps)\<^sup>*\<^sup>* s (case ks_step kw limit c p s of Stepped s' \<Rightarrow> s' | _ \<Rightarrow> s)"
    by (auto intro: ks_sys.runs split: kresult.splits)
  with 2 show ?case by (auto elim: rtranclp_trans)
qed simp

definition fifo_wake :: "nat \<Rightarrow> agent list \<Rightarrow> agent list \<times> agent list" where
  "fifo_wake n ws = (take n ws, drop n ws)"

lemma fifo_wake_contract: "wake_contract fifo_wake"
  by (simp add: wake_contract_def fifo_wake_def min_def flip: mset_append)

definition sample_config :: kconfig where
  "sample_config = (case main_kernel 1 1 1 1 of Some (Inr cfg) \<Rightarrow> cfg | _ \<Rightarrow> \<lparr>kc_agents = [], kc_limit = \<lambda>_. 0, kc_state = ks_new 0\<rparr>)"

text \<open>The consumer sleeps before the producer comes, and is woken by it.\<close>

definition sample_schedule :: "(agent \<times> u32) list" where
  "sample_schedule = replicate 3 (Consumer 0, 0) @ replicate 10 (Producer 0, 1) @ replicate 9 (Consumer 0, 1)"

definition sample_at :: "nat \<Rightarrow> ks" where
  "sample_at n = ks_run fifo_wake (kc_limit sample_config) (take n sample_schedule) (kc_state sample_config)"

lemma sample_main: "main_kernel 1 1 1 1 = Some (Inr sample_config)"
  by (simp add: sample_config_def main_kernel_def Let_def)

lemma sample_reach:
  "(ks_sys fifo_wake (kc_limit sample_config) (kc_agents sample_config))\<^sup>*\<^sup>*
     (kc_state sample_config) (ks_run fifo_wake (kc_limit sample_config) (take n sample_schedule) (kc_state sample_config))"
proof (rule ks_run_sys)
  have "fst ` set sample_schedule \<subseteq> set (kc_agents sample_config)"
    by (auto simp: sample_schedule_def main_kernel_cases(1) [OF sample_main])
  then show "fst ` set (take n sample_schedule) \<subseteq> set (kc_agents sample_config)"
    using set_take_subset [of n sample_schedule] by blast
qed

lemma sample_finished:
  "ks_procs (sample_at 22) (Consumer 0) = K_idle" "ks_procs (sample_at 22) (Producer 0) = K_idle"
  "\<not> ks_round (sample_at 22) (Consumer 0) < kc_limit sample_config (Consumer 0)"
  "\<not> ks_round (sample_at 22) (Producer 0) < kc_limit sample_config (Producer 0)"
  by code_simp+

text \<open>
  C11. Whatever the interleaving, whichever waiters the kernel wakes and whatever stale values the relaxed
  loads return: no \<open>front\<close> or \<open>pop\<close> meets an empty queue, at most one participant is inside of the
  critical section, the queue never has more than \<open>queue_size\<close> items, and the items leave in the order in
  which they came.
\<close>

theorem kernel_queue_safe:
  assumes "main_kernel queue_size np nc items = Some (Inr cfg)" and "wake_contract kw"
    and "(ks_sys kw (kc_limit cfg) (kc_agents cfg))\<^sup>*\<^sup>* (kc_state cfg) s"
  shows "(p \<in> set (kc_agents cfg) \<longrightarrow> ks_step kw (kc_limit cfg) c p s \<noteq> Undefined) \<and>
    length (filter (\<lambda>p. kholds (ks_procs s p)) (kc_agents cfg)) \<le> 1 \<and>
    length (ks_queue s) \<le> queue_size \<and> ks_in s = ks_out s @ ks_queue s"
proof -
  let ?ps = "agents np nc"
  note cfg = main_kernel_cases [OF assms(1)]
  have inv: "kinv (kc_limit cfg) np nc (queue_size mod 2 ^ 32) s"
    using ks_reach_kinv [OF _ assms(2)] assms(3) cfg by simp
  then have tokens: "tokens_ok ?ps (queue_size mod 2 ^ 32) s" by (simp add: kinv_def)
  have "ks_step kw (kc_limit cfg) c p s \<noteq> Undefined" if "p \<in> set ?ps"
    using access_defined [OF tokens that] by (auto simp: ks_step_def split: kpc.splits option.splits)
  moreover have "cnt ?ps kholds (ks_procs s) \<le> 1" "length (ks_queue s) \<le> queue_size mod 2 ^ 32"
    using tokens by (simp_all add: tokens_ok_def)
  ultimately show ?thesis
    using inv cfg mod_less_eq_dividend [of queue_size "2 ^ 32"] by (auto simp: kinv_def rounds_ok_def cnt_def)
qed

theorem kernel_queue_safe_witness:
  "ks_step fifo_wake (kc_limit sample_config) 1 (Consumer 0) (sample_at 17) \<noteq> Undefined \<and>
   length (ks_queue (sample_at 17)) \<le> 1 \<and> ks_procs (sample_at 17) (Consumer 0) = K_access Consume"
proof -
  have "ks_procs (sample_at 17) (Consumer 0) = K_access Consume" by code_simp
  moreover have "Consumer 0 \<in> set (kc_agents sample_config)" by (simp add: main_kernel_cases(1) [OF sample_main])
  ultimately show ?thesis
    using kernel_queue_safe [OF sample_main fifo_wake_contract sample_reach [of 17, folded sample_at_def], of "Consumer 0" 1] by simp
qed

text \<open>
  C10. The program cannot deadlock. With a queue of size between 1 and $2^{32} - 1$ and fewer than $2^{64}$
  items, when no thread and no coroutine can move, all of them have finished their loops, and every item
  that was produced has been consumed.
\<close>

theorem kernel_queue_completes:
  assumes "main_kernel queue_size np nc items = Some (Inr cfg)" and "wake_contract kw"
    and "0 < queue_size" and "queue_size < 2 ^ 32" and "np * items < 2 ^ 64"
    and "(ks_sys kw (kc_limit cfg) (kc_agents cfg))\<^sup>*\<^sup>* (kc_state cfg) s"
    and "\<forall>p \<in> set (kc_agents cfg). ks_step kw (kc_limit cfg) c p s = Blocked"
  shows "(\<forall>p \<in> set (kc_agents cfg). ks_procs s p = K_idle \<and> kc_limit cfg p \<le> ks_round s p) \<and>
    ks_queue s = [] \<and> ks_out s = ks_in s \<and> length (ks_out s) = np * items"
proof -
  let ?ps = "agents np nc" and ?l = "kc_limit cfg"
  note cfg = main_kernel_cases [OF assms(1)]
  have inv: "tokens_ok ?ps queue_size s" "places_ok ?ps s" "kwakes_ok ?ps s" and rounds: "rounds_ok ?l np nc s"
    using ks_reach_kinv [OF assms(6) [unfolded cfg(1,2)] assms(2)] assms(4) by (simp_all add: kinv_def)
  have stuck: "\<forall>p \<in> set ?ps. ks_step kw ?l c p s = Blocked" using assms(7) cfg(1) by simp
  have "sum ?l (cons nc) = nc * ?l (Consumer 0)"
    using assms(1) by (auto simp: main_kernel_def Let_def sum.reindex inj_on_def split: if_splits)
  then have made: "sum ?l (prods np) = np * items" and taken: "sum ?l (cons nc) = np * items"
    using cfg(3,4) assms(5) by (simp_all add: sum.reindex inj_on_def)
  have fin: "ks_procs s p = K_idle \<and> ?l p \<le> ks_round s p" if "p \<in> set ?ps" for p
    using stuck_finished [OF stuck inv rounds assms(3) _ that] made taken by simp
  have zero: "todo ?l s p = 0" if "p \<in> prods np \<union> cons nc" for p
    using fin [of p] that by (intro todo_finished) auto
  then have "sum (todo ?l s) (cons nc) = 0" "sum (todo ?l s) (prods np) = 0" by simp_all
  then have "length (ks_in s) = np * items" "length (ks_out s) = np * items"
    using made taken conjunct1 [OF rounds [unfolded rounds_ok_def]] conjunct1 [OF conjunct2 [OF rounds [unfolded rounds_ok_def]]]
    by linarith+
  then show ?thesis using fin rounds cfg(1) by (auto simp: rounds_ok_def)
qed

theorem kernel_queue_completes_witness:
  "ks_procs (sample_at 22) (Consumer 0) = K_idle \<and> ks_queue (sample_at 22) = [] \<and> length (ks_out (sample_at 22)) = 1"
proof -
  have "ks_step fifo_wake (kc_limit sample_config) 1 (Consumer 0) (sample_at 22) = Blocked"
    "ks_step fifo_wake (kc_limit sample_config) 1 (Producer 0) (sample_at 22) = Blocked"
    using sample_finished by (simp_all add: ks_step_def)
  then show ?thesis
    using kernel_queue_completes [OF sample_main fifo_wake_contract _ _ _ sample_reach [of 22, folded sample_at_def], of 1]
    by (auto simp: main_kernel_cases(1) [OF sample_main])
qed

end
