(* ===== verification/Sync_Wait.thy ===== *)
theory Sync_Wait
  imports Runtime Runtime_Options Task
begin

text \<open>
  \<open>include/condy/sync_wait.hpp\<close>: running one coroutine to its end, composed of \<open>co_spawn\<close> and
  \<open>Task::wait\<close> (\<open>Task\<close>, with the lifecycle of \<open>Coro\<close>) and of \<open>schedule_internal\<close>, \<open>allow_exit\<close> and
  \<open>run\<close> (\<open>Runtime\<close>). The application state of the world holds the lifecycle of the coroutine and
  whatever else the program has. What resuming a work does stays the parameter \<open>invoke\<close>.

  The runtime of the thread (\<open>detail::Context\<close>) is \<open>ctx\<close> at the call; \<open>run\<close> sets it to its own runtime
  and resets it to null when it ends, so it is null from then on.
\<close>

section \<open>Waiting for the task\<close>

type_synonym ('s, 'v, 'e, 'b) sw_world = "('s, ('v, 'e) life \<times> 'b) world"

definition sw_life :: "('s, 'v, 'e, 'b) sw_world \<Rightarrow> ('v, 'e) life" where
  "sw_life w = fst (w_app w)"

definition sw_upd :: "(('v, 'e) life \<Rightarrow> ('v, 'e) life) \<Rightarrow> ('s, 'v, 'e, 'b) sw_world \<Rightarrow> ('s, 'v, 'e, 'b) sw_world" where
  "sw_upd f w = w\<lparr>w_app := (f (sw_life w), snd (w_app w))\<rparr>"

text \<open>
  The rest of \<open>Task::wait\<close> after its guards: the owner's steps. A thread that waits for a callback which
  has not been invoked blocks, which is \<open>None\<close>: no other thread runs the coroutine.
\<close>

partial_function (option) wait_owner :: "('v, 'e) life \<Rightarrow> ('v, 'e) life option" where
  "wait_owner l =
     (if lf_fault l \<noteq> None then None
      else case lf_cons l of
          Cons_done \<Rightarrow> Some l
        | Cj_wait cb \<Rightarrow> if cb \<in> set (lf_woken l) then wait_owner (request False (lf_cons l) l) else None
        | _ \<Rightarrow> wait_owner (request False (lf_cons l) l))"

text \<open>An exception that leaves the function destroys the task \<open>t\<close> on its way.\<close>

definition unwind :: "task \<Rightarrow> failure \<Rightarrow> failure" where
  "unwind t f = (case task_destructor t of Inl g \<Rightarrow> g | Inr _ \<Rightarrow> f)"

definition wait_task ::
  "ptr \<Rightarrow> ptr \<Rightarrow> task \<Rightarrow> ('s, 'v, 'e, 'b) sw_world \<Rightarrow> (('v, 'e) outcome \<times> ('s, 'v, 'e, 'b) sw_world) result option" where
  "wait_task ctx waiter t w = (case task_wait ctx waiter t of
       (Inl f, t1) \<Rightarrow> Some (Inl (unwind t1 f))
     | (Inr pc, t1) \<Rightarrow> do {
         l \<leftarrow> wait_owner ((sw_life w)\<lparr>lf_cons := pc\<rparr>);
         oc \<leftarrow> lf_result l;
         Some (Inr (oc, sw_upd (\<lambda>_. l) w))
       })"

definition sync_wait ::
  "'s rt_uring \<Rightarrow> (sqe \<Rightarrow> i32) \<Rightarrow> (ptr \<Rightarrow> ('s, 'v, 'e, 'b) sw_world \<Rightarrow> ('s, 'v, 'e, 'b) sw_world option) \<Rightarrow>
   (ptr \<Rightarrow> cqe \<Rightarrow> ('s, 'v, 'e, 'b) sw_world \<Rightarrow> (bool \<times> ('s, 'v, 'e, 'b) sw_world) option) \<Rightarrow> ptr \<Rightarrow> nat \<Rightarrow> i32 \<Rightarrow> ptr \<Rightarrow>
   ptr \<Rightarrow> coro \<Rightarrow> ('s, 'v, 'e, 'b) sw_world \<Rightarrow> (('v, 'e) outcome \<times> ('s, 'v, 'e, 'b) sw_world) result option" where
  "sync_wait u sync invoke handle waiter tid enable ctx this c w =
     (case co_spawn this c (lf_promise (sw_life w)) of (t, c1, p1, calls) \<Rightarrow> do {
        r1 \<leftarrow> schedule_internal u sync ctx this (tk_handle t) (sw_upd (\<lambda>l. l\<lparr>lf_promise := p1\<rparr>) w);
        (case r1 of Inl f \<Rightarrow> Some (Inl f) | Inr w1 \<Rightarrow> do {
          r2 \<leftarrow> allow_exit u sync ctx this w1;
          (case r2 of Inl f \<Rightarrow> Some (Inl (unwind t f)) | Inr w2 \<Rightarrow> do {
            r3 \<leftarrow> run u invoke handle this tid enable w2;
            (case r3 of Inl f \<Rightarrow> Some (Inl (unwind t f)) | Inr w3 \<Rightarrow> wait_task nullptr waiter t w3)
          })
        })
      })"

text \<open>
  The constructor of \<open>Runtime\<close>: \<open>init\<close> is the result of \<open>io_uring_queue_init_params\<close> (or its \<open>mem\<close> variant)
  with the descriptor and the ring it sets up.
\<close>

definition runtime_new ::
  "version \<Rightarrow> i32 \<Rightarrow> (u32 \<Rightarrow> params \<Rightarrow> ptr \<times> u64 \<Rightarrow> i32 \<times> i32 \<times> 's) \<Rightarrow> options \<Rightarrow> 's runtime result option" where
  "runtime_new v wq_fd init opts = do {
     (entries, params, buf, batch) \<leftarrow> create_ring v wq_fd opts;
     Some (case init entries params buf of (r, fd, s) \<Rightarrow>
       (case ring_new r s batch of
          Inl f \<Rightarrow> Inl f
        | Inr ring \<Rightarrow> Inr (rt_new fd ring (op_event_interval opts) (op_disable_register_ring_fd opts))))
   }"

text \<open>\<open>sync_wait\<close> without a runtime: \<open>opts\<close> is what \<open>default_runtime_options\<close> refers to, and \<open>this\<close> the new runtime.\<close>

definition sync_wait_default ::
  "version \<Rightarrow> i32 \<Rightarrow> (u32 \<Rightarrow> params \<Rightarrow> ptr \<times> u64 \<Rightarrow> i32 \<times> i32 \<times> 's) \<Rightarrow> options \<Rightarrow>
   's rt_uring \<Rightarrow> (sqe \<Rightarrow> i32) \<Rightarrow> (ptr \<Rightarrow> ('s, 'v, 'e, 'b) sw_world \<Rightarrow> ('s, 'v, 'e, 'b) sw_world option) \<Rightarrow>
   (ptr \<Rightarrow> cqe \<Rightarrow> ('s, 'v, 'e, 'b) sw_world \<Rightarrow> (bool \<times> ('s, 'v, 'e, 'b) sw_world) option) \<Rightarrow> ptr \<Rightarrow> nat \<Rightarrow> i32 \<Rightarrow> ptr \<Rightarrow>
   ptr \<Rightarrow> coro \<Rightarrow> ('s, 'v, 'e, 'b) sw_world \<Rightarrow> (('v, 'e) outcome \<times> ('s, 'v, 'e, 'b) sw_world) result option" where
  "sync_wait_default v wq_fd init opts u sync invoke handle waiter tid enable ctx this c w = do {
     r \<leftarrow> runtime_new v wq_fd init opts;
     (case r of
        Inl f \<Rightarrow> Some (Inl f)
      | Inr rt \<Rightarrow> sync_wait u sync invoke handle waiter tid enable ctx this c (w_upd this (\<lambda>_. rt) w))
   }"

section \<open>A coroutine that switches and ends\<close>

text \<open>
  Resuming the coroutine \<open>h\<close>: it calls \<open>co_switch\<close> on its own runtime as often as the rest of the
  application state says, and then runs to its end, through \<open>FinalAwaiter::await_suspend\<close>.
\<close>

definition resume_coro ::
  "'s rt_uring \<Rightarrow> (sqe \<Rightarrow> i32) \<Rightarrow> ptr \<Rightarrow> ptr \<Rightarrow> ptr \<Rightarrow> ptr \<Rightarrow> ('s, 'v, 'e, nat) sw_world \<Rightarrow> ('s, 'v, 'e, nat) sw_world option" where
  "resume_coro u sync noop this h p w = do {
     massert (p = h);
     case snd (w_app w) of
       Suc n \<Rightarrow> do {
         r \<leftarrow> schedule_internal u sync this this h (w\<lparr>w_app := (sw_life w, n)\<rparr>);
         (case r of Inl f \<Rightarrow> None | Inr w1 \<Rightarrow> Some w1)
       }
     | 0 \<Rightarrow> Some (sw_upd (life_run noop (replicate 5 (Coroutine, False))) w)
   }"

definition idle_life :: "ptr \<Rightarrow> ('v, 'e) outcome \<Rightarrow> ('v, 'e) life" where
  "idle_life noop oc = (life_new noop oc Cons_done)\<lparr>lf_promise := pr_new noop\<rparr>"

text \<open>The life of the coroutine after its end, when nobody has joined it yet, and after the wait.\<close>

definition zombie_life :: "ptr \<Rightarrow> ('v, 'e) outcome \<Rightarrow> ('v, 'e) life" where
  "zombie_life noop oc = (life_new noop oc Cons_done)
     \<lparr>lf_promise := (pr_finish oc (pr_new noop))\<lparr>pr_state := Zombie\<rparr>, lf_fs := Fs_ret noop\<rparr>"

lemma coroutine_ends:
  "life_run noop (replicate 5 (Coroutine, False)) (life_new noop oc Cons_done) = zombie_life noop oc"
  by (cases oc) (simp_all add: life_run_def life_new_def zombie_life_def numeral_eq_Suc lf_access_def lf_upd_def
      pr_mark_running_def pr_new_def pr_finish_def pr_unhandled_exception_def pr_return_value_def)

lemma wait_owner_zombie:
  "\<exists>l. wait_owner ((zombie_life noop oc)\<lparr>lf_cons := Cj_load waiter\<rparr>) = Some l \<and> lf_result l = Some oc \<and>
     lf_destroyed l = 1 \<and> lf_fault l = None \<and> lf_panic l = None"
  by (cases oc) (subst wait_owner.simps, simp add: zombie_life_def life_new_def lf_access_def lf_upd_def pr_new_def pr_finish_def
      pr_unhandled_exception_def pr_return_value_def take_result_def pr_take_exception_def pr_take_value_def pr_destroy_def
      wait_owner.simps)+

lemma sw_sel [simp]:
  "w_rts (sw_upd f w) = w_rts w" "w_synced (sw_upd f w) = w_synced w" "w_app (sw_upd f w) = (f (sw_life w), snd (w_app w))"
  "sw_life (sw_upd f w) = f (sw_life w)" "sw_life (w_upd r g w) = sw_life w"
  by (simp_all add: sw_upd_def sw_life_def w_upd_def)

lemma run_loop_switches:
  assumes idle: "\<forall>s. u_peek_cqe u s = (- EAGAIN, s)"
  shows "rt_local_queue (w_rts w this) = [h] \<Longrightarrow> rt_pending_works (w_rts w this) = 0 \<Longrightarrow> rt_exit_allowed (w_rts w this) \<Longrightarrow>
    w_app w = (life_new noop oc Cons_done, n) \<Longrightarrow>
    \<exists>k. run_loop u (resume_coro u sync noop this h) handle this w =
      Some (Inr ((w_upd this (\<lambda>x. x\<lparr>rt_local_queue := [], rt_tick_count := k\<rparr>) w)\<lparr>w_app := (zombie_life noop oc, 0)\<rparr>))"
proof (induction n arbitrary: w)
  case 0
  obtain k where k: "run_tick u (resume_coro u sync noop this h) handle this w = Some (Inr (w_upd this (\<lambda>x. x\<lparr>rt_tick_count := k\<rparr>) w))"
    using run_tick_idle [OF idle] by blast
  let ?v = "(w_upd this (\<lambda>x. x\<lparr>rt_tick_count := k, rt_local_queue := []\<rparr>) w)\<lparr>w_app := (zombie_life noop oc, 0)\<rparr>"
  have it: "run_iteration u (resume_coro u sync noop this h) handle this w = Some (Inr (True, ?v))"
    using 0 k by (simp add: run_iteration_def resume_coro_def comp_def sw_upd_def sw_life_def coroutine_ends)
  obtain j where j: "run_tick u (resume_coro u sync noop this h) handle this ?v = Some (Inr (w_upd this (\<lambda>x. x\<lparr>rt_tick_count := j\<rparr>) ?v))"
    using run_tick_idle [OF idle] by blast
  have end_: "run_iteration u (resume_coro u sync noop this h) handle this ?v = Some (Inr (False, w_upd this (\<lambda>x. x\<lparr>rt_tick_count := j\<rparr>) ?v))"
    using 0 j by (simp add: run_iteration_def)
  have eq: "w_upd this (\<lambda>x. x\<lparr>rt_tick_count := j\<rparr>) ?v =
      (w_upd this (\<lambda>x. x\<lparr>rt_local_queue := [], rt_tick_count := j\<rparr>) w)\<lparr>w_app := (zombie_life noop oc, 0)\<rparr>"
    by (simp add: w_upd_def)
  have "run_loop u (resume_coro u sync noop this h) handle this ?v = Some (Inr (w_upd this (\<lambda>x. x\<lparr>rt_tick_count := j\<rparr>) ?v))"
    by (subst run_loop.simps) (simp add: end_)
  then have "run_loop u (resume_coro u sync noop this h) handle this w = Some (Inr (w_upd this (\<lambda>x. x\<lparr>rt_tick_count := j\<rparr>) ?v))"
    by (subst run_loop.simps) (simp add: it)
  then show ?case unfolding eq by blast
next
  case (Suc n)
  obtain k where k: "run_tick u (resume_coro u sync noop this h) handle this w = Some (Inr (w_upd this (\<lambda>x. x\<lparr>rt_tick_count := k\<rparr>) w))"
    using run_tick_idle [OF idle] by blast
  let ?v = "(w_upd this (\<lambda>x. x\<lparr>rt_tick_count := k, rt_local_queue := [h]\<rparr>) w)\<lparr>w_app := (life_new noop oc Cons_done, n)\<rparr>"
  have it: "run_iteration u (resume_coro u sync noop this h) handle this w = Some (Inr (True, ?v))"
    using Suc.prems k by (simp add: run_iteration_def resume_coro_def schedule_internal_def comp_def sw_life_def w_upd_def)
  obtain j where "run_loop u (resume_coro u sync noop this h) handle this ?v =
      Some (Inr ((w_upd this (\<lambda>x. x\<lparr>rt_local_queue := [], rt_tick_count := j\<rparr>) ?v)\<lparr>w_app := (zombie_life noop oc, 0)\<rparr>))"
    using Suc.IH [of ?v] Suc.prems by auto
  moreover have "(w_upd this (\<lambda>x. x\<lparr>rt_local_queue := [], rt_tick_count := j\<rparr>) ?v)\<lparr>w_app := (zombie_life noop oc, 0)\<rparr> =
      (w_upd this (\<lambda>x. x\<lparr>rt_local_queue := [], rt_tick_count := j\<rparr>) w)\<lparr>w_app := (zombie_life noop oc, 0)\<rparr>"
    by (simp add: w_upd_def)
  ultimately show ?case by (subst run_loop.simps) (auto simp: it)
qed

lemma sync_wait_runs:
  assumes "\<forall>s. u_peek_cqe u s = (- EAGAIN, s)" and "0 \<le> enable" and "ctx \<noteq> this" and "cr_handle c \<noteq> nullptr"
    and "w_rts w this = rt_new fd ring interval disable_register" and "w_app w = (idle_life noop oc, n)"
  shows "\<exists>w'. sync_wait u sync (resume_coro u sync noop this (cr_handle c)) handle waiter tid enable ctx this c w = Some (Inr (oc, w')) \<and>
    lf_destroyed (sw_life w') = 1 \<and> lf_fault (sw_life w') = None \<and> lf_panic (sw_life w') = None \<and>
    w_rts w' this = (rt_new fd ring interval disable_register)\<lparr>rt_run_thread_id := Some tid, rt_ring_enabled := True\<rparr>"
proof -
  let ?h = "cr_handle c"
  let ?start = "sw_upd (\<lambda>l. l\<lparr>lf_promise := pr_mark_running (lf_promise (sw_life w))\<rparr>) w"
  let ?queued = "w_upd this (\<lambda>x. x\<lparr>rt_global_queue := rt_global_queue x @ [?h]\<rparr>) ?start"
  let ?allowed = "w_upd this (\<lambda>x. x\<lparr>rt_exit_allowed := True\<rparr>) ?queued"
  let ?begun = "w_upd this (\<lambda>x. x\<lparr>rt_ring_enabled := True\<rparr>)
      (flush_global_queue this (w_upd this (\<lambda>x. x\<lparr>rt_run_thread_id := Some tid\<rparr>) ?allowed))"
  let ?inv = "resume_coro u sync noop this ?h"
  have s: "schedule_internal u sync ctx this ?h ?start = Some (Inr ?queued)"
    using assms(3,5) by (simp add: schedule_internal_def rt_new_def)
  have e: "allow_exit u sync ctx this ?queued = Some (Inr ?allowed)"
    using assms(3,5) by (simp add: allow_exit_def rt_wakeup_def rt_new_def)
  have b: "run_begin u ?inv handle this tid enable ?allowed = Some (Inr ?begun)"
    using assms(2,5) by (simp add: run_begin_def rt_new_def Let_def comp_def)
  have q: "rt_local_queue (w_rts ?begun this) = [?h]" "rt_pending_works (w_rts ?begun this) = 0" "rt_exit_allowed (w_rts ?begun this)"
    using assms(5) by (simp_all add: flush_global_queue_def rt_new_def)
  have a: "w_app ?begun = (life_new noop oc Cons_done, n)"
    using assms(6) by (simp add: flush_global_queue_def w_upd_def sw_upd_def sw_life_def idle_life_def life_new_def)
  obtain k where k: "run_loop u ?inv handle this ?begun = Some (Inr
      ((w_upd this (\<lambda>x. x\<lparr>rt_local_queue := [], rt_tick_count := k\<rparr>) ?begun)\<lparr>w_app := (zombie_life noop oc, 0)\<rparr>))" (is "_ = Some (Inr ?ended)")
    using run_loop_switches [OF assms(1) q a] by blast
  obtain l where l: "wait_owner ((zombie_life noop oc)\<lparr>lf_cons := Cj_load waiter\<rparr>) = Some l" "lf_result l = Some oc"
    "lf_destroyed l = 1" "lf_fault l = None" "lf_panic l = None" using wait_owner_zombie by blast
  have z: "sw_life (run_end_defers this ?ended) = zombie_life noop oc" by (simp add: sw_life_def run_end_defers_def w_upd_def)
  have "sync_wait u sync ?inv handle waiter tid enable ctx this c w = Some (Inr (oc, sw_upd (\<lambda>_. l) (run_end_defers this ?ended)))"
    using assms(4) l(1,2) z s e run_returns [OF b k]
    by (simp add: sync_wait_def co_spawn_def coro_release_def task_new_def wait_task_def task_wait_def task_wait_inner_def)
  moreover have "w_rts (run_end_defers this ?ended) this =
      (rt_new fd ring interval disable_register)\<lparr>rt_run_thread_id := Some tid, rt_ring_enabled := True\<rparr>"
    using assms(5) by (simp add: run_end_defers_def flush_global_queue_def rt_new_def)
  ultimately show ?thesis using l by auto
qed

lemma runtime_new_succeeds:
  assumes "create_ring_batch opts \<noteq> 0" and "\<forall>entries p buf. 0 \<le> fst (init entries p buf)"
  shows "\<exists>fd ring. runtime_new v wq_fd init opts =
    Some (Inr (rt_new fd ring (op_event_interval opts) (op_disable_register_ring_fd opts)))"
proof -
  obtain r fd s where i: "init (ucast (op_sq_size opts)) (create_ring_params v wq_fd opts) (create_ring_buf v opts) = (r, fd, s)"
    by (metis prod_cases3)
  then have "0 \<le> r" using assms(2) by (metis fst_conv)
  then show ?thesis using assms(1) i by (auto simp: runtime_new_def create_ring_def ring_new_def Let_def word_neq_0_conv)
qed

text \<open>
  C5. \<open>sync_wait\<close> runs a coroutine to its end and returns what it returned or threw. With the default
  runtime: the constructor sets up the ring from the default options, the coroutine is spawned, gives
  up control any number of times, and ends; the event loop returns, the task is joined, the frame is
  destroyed exactly once, and the runtime is left with nothing queued and nothing pending.\<close>

theorem sync_wait_returns:
  assumes "\<forall>s. u_peek_cqe u s = (- EAGAIN, s)" and "0 \<le> enable" and "ctx \<noteq> this" and "cr_handle c \<noteq> nullptr"
    and "create_ring_batch opts \<noteq> 0" and "\<forall>entries p buf. 0 \<le> fst (init entries p buf)" and "w_app w = (idle_life noop oc, n)"
  shows "\<exists>w'. sync_wait_default v wq_fd init opts u sync (resume_coro u sync noop this (cr_handle c)) handle waiter tid enable ctx this c w =
      Some (Inr (oc, w')) \<and>
    lf_destroyed (sw_life w') = 1 \<and> lf_fault (sw_life w') = None \<and> lf_panic (sw_life w') = None \<and>
    rt_local_queue (w_rts w' this) = [] \<and> rt_global_queue (w_rts w' this) = [] \<and> rt_pending_works (w_rts w' this) = 0"
proof -
  obtain fd ring where rt: "runtime_new v wq_fd init opts =
      Some (Inr (rt_new fd ring (op_event_interval opts) (op_disable_register_ring_fd opts)))" (is "_ = Some (Inr ?rt)")
    using runtime_new_succeeds [OF assms(5,6)] by blast
  let ?w = "w_upd this (\<lambda>_. ?rt) w"
  have "w_rts ?w this = rt_new fd ring (op_event_interval opts) (op_disable_register_ring_fd opts)" "w_app ?w = (idle_life noop oc, n)"
    using assms(7) by (simp_all add: w_upd_def)
  from sync_wait_runs [OF assms(1-4) this, of sync handle waiter tid] show ?thesis
    by (elim exE conjE, intro exI conjI) (simp_all add: sync_wait_default_def rt, simp_all add: rt_new_def)
qed

definition sw_sample :: "(u64, nat, unit, nat) sw_world" where
  "sw_sample =
     \<lparr>w_rts = (\<lambda>r. rt_new 5 \<lparr>rg_uring = 4, rg_submit_batch = 1, rg_maybe_submit_count = 0\<rparr> 61 False),
      w_synced = [], w_app = (idle_life 0x8 (Inr 42), 3)\<rparr>"

theorem sync_wait_returns_witness:
  "\<exists>w'. sync_wait_default (2, 14) 0 (\<lambda>_ _ _. (0, 5, 4)) options_new (uring_count 4) (\<lambda>_. 0) (resume_coro (uring_count 4) (\<lambda>_. 0) 0x8 0x20 0x100) done_handle 0x40 7 0 nullptr 0x20
      \<lparr>cr_handle = 0x100\<rparr> sw_sample = Some (Inr (Inr 42, w')) \<and> lf_destroyed (sw_life w') = 1"
  using sync_wait_returns [of "uring_count 4" 0 nullptr "0x20" "\<lparr>cr_handle = 0x100\<rparr>" options_new "\<lambda>_ _ _. (0, 5, 4)" sw_sample
      "0x8" "Inr 42" 3 "(2, 14)" 0 "\<lambda>_. 0" done_handle "0x40" 7]
  by (auto simp: uring_count_def sw_sample_def create_ring_batch_def options_new_def)

section \<open>When the event loop cannot start\<close>

text \<open>
  C38. When \<open>Runtime::run\<close> throws inside \<open>sync_wait\<close>, because the kernel refuses to enable the ring or
  because the runtime belongs to another thread, the exception never reaches the caller: it destroys
  the task that has not been awaited, and the destructor of the task panics.\<close>

theorem sync_wait_failure_panics:
  assumes "rt_run_thread_id (w_rts w this) = None \<and> enable < 0 \<or> rt_run_thread_id (w_rts w this) = Some owner \<and> owner \<noteq> tid"
    and "\<forall>q. 0 \<le> sync q" and "this \<noteq> nullptr" and "aligned8 (cr_handle c)" and "cr_handle c \<noteq> nullptr"
  shows "sync_wait u sync invoke handle waiter tid enable nullptr this c w = Some (Inl (Panic ''Task destroyed without being awaited''))"
proof -
  let ?start = "sw_upd (\<lambda>l. l\<lparr>lf_promise := pr_mark_running (lf_promise (sw_life w))\<rparr>) w"
  have sync: "(sync q < 0) = False" for q using assms(2) by (simp add: not_less)
  obtain w1 where s: "schedule_internal u sync nullptr this (cr_handle c) ?start = Some (Inr w1)"
    and w1: "rt_run_thread_id (w_rts w1 this) = rt_run_thread_id (w_rts w this)"
    using assms(3-5) by (cases "rt_ring_enabled (w_rts w this)")
      (auto simp: schedule_internal_def schedule_msg_ring_def prep_msg_ring_def sync Let_def)
  obtain w2 where e: "allow_exit u sync nullptr this w1 = Some (Inr w2)"
    and w2: "rt_run_thread_id (w_rts w2 this) = rt_run_thread_id (w_rts w this)"
    using assms(3) w1 by (cases "rt_ring_enabled (w_rts w1 this)")
      (auto simp: allow_exit_def rt_wakeup_def schedule_msg_ring_def prep_msg_ring_def sync Let_def)
  obtain f where "run u invoke handle this tid enable w2 = Some (Inl f)"
    using assms(1) w2 by (auto simp: run_def run_begin_def)
  then show ?thesis using s e assms(5)
    by (simp add: sync_wait_def co_spawn_def coro_release_def task_new_def unwind_def task_destructor_def)
qed

theorem sync_wait_failure_panics_witness:
  "sync_wait (uring_count 4) (\<lambda>_. 0) (resume_coro (uring_count 4) (\<lambda>_. 0) 0x8 0x20 0x100) done_handle 0x40 7 (- EINVAL) nullptr 0x20
     \<lparr>cr_handle = 0x100\<rparr> sw_sample = Some (Inl (Panic ''Task destroyed without being awaited''))"
  by (rule sync_wait_failure_panics) (simp_all add: sw_sample_def rt_new_def aligned8_def)

end
