(* ===== verification/Ring_Settings.thy ===== *)
theory Ring_Settings
  imports Condy_Prelude
begin

text \<open>
  \<open>include/condy/ring_settings.hpp\<close>: the tables of descriptors and buffers of a ring, and its settings.
  Apart from the probe, which \<open>RingSettings\<close> keeps, every operation is one call of liburing; liburing is
  the record \<open>register_ops\<close>, whose operations return a result and the ring. The widths of its parameters
  are those of its interface.
\<close>

section \<open>The interface of liburing\<close>

record 'r register_ops =
  ro_files_sparse :: "u32 \<Rightarrow> 'r \<Rightarrow> i32 \<times> 'r"
  ro_files :: "ptr \<Rightarrow> u32 \<Rightarrow> 'r \<Rightarrow> i32 \<times> 'r"
  ro_unregister_files :: "'r \<Rightarrow> i32 \<times> 'r"
  ro_update_files :: "u32 \<Rightarrow> ptr \<Rightarrow> u32 \<Rightarrow> 'r \<Rightarrow> i32 \<times> 'r"
  ro_file_alloc_range :: "u32 \<Rightarrow> u32 \<Rightarrow> 'r \<Rightarrow> i32 \<times> 'r"
  ro_buffers_sparse :: "u32 \<Rightarrow> 'r \<Rightarrow> i32 \<times> 'r"
  ro_buffers :: "ptr \<Rightarrow> u32 \<Rightarrow> 'r \<Rightarrow> i32 \<times> 'r"
  ro_unregister_buffers :: "'r \<Rightarrow> i32 \<times> 'r"
  ro_update_buffers_tag :: "u32 \<Rightarrow> ptr \<Rightarrow> ptr \<Rightarrow> u32 \<Rightarrow> 'r \<Rightarrow> i32 \<times> 'r"
  ro_clone_buffers :: "'r \<Rightarrow> u32 \<Rightarrow> u32 \<Rightarrow> u32 \<Rightarrow> u32 \<Rightarrow> 'r \<Rightarrow> i32 \<times> 'r"
  ro_iowq_aff :: "u64 \<Rightarrow> ptr \<Rightarrow> 'r \<Rightarrow> i32 \<times> 'r"
  ro_unregister_iowq_aff :: "'r \<Rightarrow> i32 \<times> 'r"
  ro_iowq_max_workers :: "ptr \<Rightarrow> 'r \<Rightarrow> i32 \<times> 'r"
  ro_get_probe :: "'r \<Rightarrow> ptr \<times> 'r"
  ro_free_probe :: "ptr \<Rightarrow> 'r \<Rightarrow> 'r"
  ro_features :: "'r \<Rightarrow> u32"
  ro_napi :: "ptr \<Rightarrow> 'r \<Rightarrow> i32 \<times> 'r"
  ro_unregister_napi :: "ptr \<Rightarrow> 'r \<Rightarrow> i32 \<times> 'r"
  ro_clock :: "ptr \<Rightarrow> 'r \<Rightarrow> i32 \<times> 'r"
  ro_resize_rings :: "ptr \<Rightarrow> 'r \<Rightarrow> i32 \<times> 'r"
  ro_iowait :: "bool \<Rightarrow> 'r \<Rightarrow> i32 \<times> 'r"

section \<open>Tables\<close>

text \<open>The capacity is a \<open>size_t\<close> and the parameter of liburing an \<open>unsigned\<close>.\<close>

definition fd_table_init_sparse :: "'r register_ops \<Rightarrow> u64 \<Rightarrow> 'r \<Rightarrow> i32 \<times> 'r" where
  "fd_table_init_sparse L capacity ring = ro_files_sparse L (ucast capacity) ring"

definition fd_table_init :: "'r register_ops \<Rightarrow> ptr \<Rightarrow> u32 \<Rightarrow> 'r \<Rightarrow> i32 \<times> 'r" where
  "fd_table_init L fds nr_fds ring = ro_files L fds nr_fds ring"

definition fd_table_destroy :: "'r register_ops \<Rightarrow> 'r \<Rightarrow> i32 \<times> 'r" where
  "fd_table_destroy L ring = ro_unregister_files L ring"

definition fd_table_update :: "'r register_ops \<Rightarrow> u32 \<Rightarrow> ptr \<Rightarrow> u32 \<Rightarrow> 'r \<Rightarrow> i32 \<times> 'r" where
  "fd_table_update L index_base fds nr_fds ring = ro_update_files L index_base fds nr_fds ring"

definition set_file_alloc_range :: "'r register_ops \<Rightarrow> u32 \<Rightarrow> u32 \<Rightarrow> 'r \<Rightarrow> i32 \<times> 'r" where
  "set_file_alloc_range L offset n ring = ro_file_alloc_range L offset n ring"

definition buffer_table_init_sparse :: "'r register_ops \<Rightarrow> u64 \<Rightarrow> 'r \<Rightarrow> i32 \<times> 'r" where
  "buffer_table_init_sparse L capacity ring = ro_buffers_sparse L (ucast capacity) ring"

definition buffer_table_init :: "'r register_ops \<Rightarrow> ptr \<Rightarrow> u32 \<Rightarrow> 'r \<Rightarrow> i32 \<times> 'r" where
  "buffer_table_init L vecs nr_vecs ring = ro_buffers L vecs nr_vecs ring"

definition buffer_table_destroy :: "'r register_ops \<Rightarrow> 'r \<Rightarrow> i32 \<times> 'r" where
  "buffer_table_destroy L ring = ro_unregister_buffers L ring"

definition buffer_table_update :: "'r register_ops \<Rightarrow> u32 \<Rightarrow> ptr \<Rightarrow> u32 \<Rightarrow> 'r \<Rightarrow> i32 \<times> 'r" where
  "buffer_table_update L index_base vecs nr_vecs ring = ro_update_buffers_tag L index_base vecs nullptr nr_vecs ring"

abbreviation IORING_REGISTER_DST_REPLACE :: u32 where "IORING_REGISTER_DST_REPLACE \<equiv> 2"

definition clone_buffers :: "'r register_ops \<Rightarrow> 'r \<Rightarrow> u32 \<Rightarrow> u32 \<Rightarrow> u32 \<Rightarrow> 'r \<Rightarrow> i32 \<times> 'r" where
  "clone_buffers L src dst_off src_off nr ring = ro_clone_buffers L src dst_off src_off nr IORING_REGISTER_DST_REPLACE ring"

section \<open>Settings\<close>

record 'r ring_settings =
  rs_ring :: 'r
  rs_probe :: ptr

definition rs_new :: "'r \<Rightarrow> 'r ring_settings" where
  "rs_new ring = \<lparr>rs_ring = ring, rs_probe = nullptr\<rparr>"

definition rs_call :: "('r \<Rightarrow> i32 \<times> 'r) \<Rightarrow> 'r ring_settings \<Rightarrow> i32 \<times> 'r ring_settings" where
  "rs_call f s = (case f (rs_ring s) of (r, ring) \<Rightarrow> (r, s\<lparr>rs_ring := ring\<rparr>))"

definition rs_destructor :: "'r register_ops \<Rightarrow> 'r ring_settings \<Rightarrow> 'r ring_settings" where
  "rs_destructor L s =
     (if rs_probe s \<noteq> nullptr then s\<lparr>rs_ring := ro_free_probe L (rs_probe s) (rs_ring s), rs_probe := nullptr\<rparr> else s)"

definition apply_iowq_aff :: "'r register_ops \<Rightarrow> u64 \<Rightarrow> ptr \<Rightarrow> 'r ring_settings \<Rightarrow> i32 \<times> 'r ring_settings" where
  "apply_iowq_aff L cpusz cpus = rs_call (ro_iowq_aff L cpusz cpus)"

definition remove_iowq_aff :: "'r register_ops \<Rightarrow> 'r ring_settings \<Rightarrow> i32 \<times> 'r ring_settings" where
  "remove_iowq_aff L = rs_call (ro_unregister_iowq_aff L)"

definition set_iowq_max_workers :: "'r register_ops \<Rightarrow> ptr \<Rightarrow> 'r ring_settings \<Rightarrow> i32 \<times> 'r ring_settings" where
  "set_iowq_max_workers L values = rs_call (ro_iowq_max_workers L values)"

definition get_probe :: "'r register_ops \<Rightarrow> 'r ring_settings \<Rightarrow> ptr \<times> 'r ring_settings" where
  "get_probe L s =
     (if rs_probe s \<noteq> nullptr then (rs_probe s, s)
      else case ro_get_probe L (rs_ring s) of (p, ring) \<Rightarrow> (p, s\<lparr>rs_ring := ring, rs_probe := p\<rparr>))"

definition get_features :: "'r register_ops \<Rightarrow> 'r ring_settings \<Rightarrow> u32" where
  "get_features L s = ro_features L (rs_ring s)"

definition apply_napi :: "'r register_ops \<Rightarrow> ptr \<Rightarrow> 'r ring_settings \<Rightarrow> i32 \<times> 'r ring_settings" where
  "apply_napi L napi = rs_call (ro_napi L napi)"

definition remove_napi :: "'r register_ops \<Rightarrow> ptr \<Rightarrow> 'r ring_settings \<Rightarrow> i32 \<times> 'r ring_settings" where
  "remove_napi L napi = rs_call (ro_unregister_napi L napi)"

definition set_clock :: "'r register_ops \<Rightarrow> ptr \<Rightarrow> 'r ring_settings \<Rightarrow> i32 \<times> 'r ring_settings" where
  "set_clock L clock_reg = rs_call (ro_clock L clock_reg)"

definition set_rings_size :: "'r register_ops \<Rightarrow> ptr \<Rightarrow> 'r ring_settings \<Rightarrow> i32 \<times> 'r ring_settings" where
  "set_rings_size L params = rs_call (ro_resize_rings L params)"

definition set_iowait :: "'r register_ops \<Rightarrow> bool \<Rightarrow> 'r ring_settings \<Rightarrow> i32 \<times> 'r ring_settings" where
  "set_iowait L enable_iowait = rs_call (ro_iowait L enable_iowait)"

text \<open>The calls a program may make between the constructor and the destructor.\<close>

datatype rs_op = Apply_aff u64 ptr | Remove_aff | Max_workers ptr | Get_probe | Apply_napi ptr | Remove_napi ptr
  | Set_clock ptr | Set_size ptr | Set_iowait bool

fun rs_step :: "'r register_ops \<Rightarrow> rs_op \<Rightarrow> 'r ring_settings \<Rightarrow> 'r ring_settings" where
  "rs_step L (Apply_aff n m) s = snd (apply_iowq_aff L n m s)"
| "rs_step L Remove_aff s = snd (remove_iowq_aff L s)"
| "rs_step L (Max_workers v) s = snd (set_iowq_max_workers L v s)"
| "rs_step L Get_probe s = snd (get_probe L s)"
| "rs_step L (Apply_napi n) s = snd (apply_napi L n s)"
| "rs_step L (Remove_napi n) s = snd (remove_napi L n s)"
| "rs_step L (Set_clock c) s = snd (set_clock L c s)"
| "rs_step L (Set_size p) s = snd (set_rings_size L p s)"
| "rs_step L (Set_iowait b) s = snd (set_iowait L b s)"

lemmas rs_defs = apply_iowq_aff_def remove_iowq_aff_def set_iowq_max_workers_def apply_napi_def remove_napi_def
  set_clock_def set_rings_size_def set_iowait_def rs_call_def

section \<open>The probe\<close>

text \<open>
  What liburing allocates and frees, as far as the probe is concerned: \<open>live\<close> are the probes of a ring that
  have been allocated and not freed.
\<close>

definition probe_contract :: "'r register_ops \<Rightarrow> ('r \<Rightarrow> ptr list) \<Rightarrow> bool" where
  "probe_contract L live \<longleftrightarrow>
     (\<forall>r. live (snd (ro_get_probe L r)) = (if fst (ro_get_probe L r) = nullptr then live r else fst (ro_get_probe L r) # live r)) \<and>
     (\<forall>p r. live (ro_free_probe L p r) = remove1 p (live r)) \<and>
     (\<forall>f \<in> {ro_unregister_iowq_aff L} \<union> range (ro_iowq_max_workers L) \<union> range (\<lambda>(n, m). ro_iowq_aff L n m) \<union> range (ro_napi L) \<union>
        range (ro_unregister_napi L) \<union> range (ro_clock L) \<union> range (ro_resize_rings L) \<union> range (ro_iowait L). \<forall>r. live (snd (f r)) = live r)"

definition probe_inv :: "('r \<Rightarrow> ptr list) \<Rightarrow> ptr list \<Rightarrow> 'r ring_settings \<Rightarrow> bool" where
  "probe_inv live ps s \<longleftrightarrow> live (rs_ring s) = (if rs_probe s = nullptr then ps else rs_probe s # ps)"

lemma rs_call_probe: "\<forall>r. live (snd (f r)) = live r \<Longrightarrow> probe_inv live ps s \<Longrightarrow> probe_inv live ps (snd (rs_call f s))"
  by (simp add: rs_call_def probe_inv_def case_prod_beta)

lemma rs_step_probe:
  assumes "probe_contract L live" and "probe_inv live ps s"
  shows "probe_inv live ps (rs_step L op s)"
proof (cases op)
  case Get_probe
  then show ?thesis using assms by (simp add: get_probe_def probe_inv_def probe_contract_def case_prod_beta)
next
  case (Apply_aff n m)
  have "\<forall>r. live (snd (ro_iowq_aff L n m r)) = live r" using assms(1) by (force simp: probe_contract_def)
  then show ?thesis using assms(2) Apply_aff by (simp add: apply_iowq_aff_def rs_call_probe)
qed (use assms in \<open>simp_all add: rs_defs probe_inv_def probe_contract_def case_prod_beta\<close>)

text \<open>
  However often the probe is asked for and whatever else is set, at most one probe is alive at any time, and
  the destructor leaves none behind; what was alive before is not touched.
\<close>

lemma probe_no_leak:
  assumes "probe_contract L live"
  shows "length (live (rs_ring (fold (rs_step L) ops (rs_new ring)))) \<le> length (live ring) + 1"
    and "live (rs_ring (rs_destructor L (fold (rs_step L) ops (rs_new ring)))) = live ring"
proof -
  have "probe_inv live (live ring) (fold (rs_step L) ops s)" if "probe_inv live (live ring) s" for s
    using that rs_step_probe [OF assms] by (induction ops arbitrary: s) auto
  moreover have "probe_inv live (live ring) (rs_new ring)" by (simp add: probe_inv_def rs_new_def)
  ultimately have inv: "probe_inv live (live ring) (fold (rs_step L) ops (rs_new ring))" by blast
  then show "length (live (rs_ring (fold (rs_step L) ops (rs_new ring)))) \<le> length (live ring) + 1"
    by (simp add: probe_inv_def)
  show "live (rs_ring (rs_destructor L (fold (rs_step L) ops (rs_new ring)))) = live ring"
    using inv assms by (auto simp: probe_inv_def rs_destructor_def probe_contract_def split: if_splits)
qed

text \<open>Once there is a probe, \<open>get_probe\<close> returns it and asks no more.\<close>

lemma get_probe_cached:
  "get_probe L s = (p, s1) \<Longrightarrow> p \<noteq> nullptr \<Longrightarrow> get_probe L s1 = (p, s1)"
  by (auto simp: get_probe_def split: prod.splits if_splits)

text \<open>A capacity of \<open>2\<^sup>32\<close> more is the same capacity.\<close>

lemma capacity_truncated:
  "fd_table_init_sparse L (capacity + 2 ^ 32) ring = fd_table_init_sparse L capacity ring"
  "buffer_table_init_sparse L (capacity + 2 ^ 32) ring = buffer_table_init_sparse L capacity ring"
proof -
  have "ucast (capacity + 2 ^ 32 :: u64) = (ucast capacity :: u32)"
    by transfer (simp add: take_bit_eq_mod mod_mod_cancel)
  then show "fd_table_init_sparse L (capacity + 2 ^ 32) ring = fd_table_init_sparse L capacity ring"
    "buffer_table_init_sparse L (capacity + 2 ^ 32) ring = buffer_table_init_sparse L capacity ring"
    by (simp_all only: fd_table_init_sparse_def buffer_table_init_sparse_def)
qed

end
