(* ===== verification/Op_Lifetime.thy ===== *)
theory Op_Lifetime
  imports Op_States Utils
begin

text \<open>
  The constructors and destructors of the parallel states of \<open>detail/op_states.hpp\<close>: the states of the
  children live in raw storage, which the constructor fills and the destructor empties. \<open>conn\<close> is the
  \<open>connect_impl\<close> of the senders. Constructing over a live object and destroying or reading raw storage
  are undefined, which is \<open>None\<close>.
\<close>

section \<open>Children\<close>

record 't child_receiver =
  cr_self :: ptr
  cr_index :: nat
  cr_stop_token :: 't

text \<open>What a child does with its result: \<open>ChildReceiver::operator()\<close>, for tuples and for vectors.\<close>

definition child_invoke :: "'t child_receiver \<Rightarrow> 'r \<Rightarrow> 'r par \<Rightarrow> 'r par option" where
  "child_invoke rcv result s = par_receive (cr_index rcv, result) s"

definition ranged_child_invoke :: "'t child_receiver \<Rightarrow> 'r \<Rightarrow> 'r par \<Rightarrow> 'r par option" where
  "ranged_child_invoke rcv result s = ranged_receive (cr_index rcv, result) s"

definition rs_accept :: "'o \<Rightarrow> 'o raw_storage \<Rightarrow> 'o raw_storage option" where
  "rs_accept x slot = do { massert (slot = rs_raw); Some (rs_construct x) }"

definition rs_end :: "'o raw_storage \<Rightarrow> 'o raw_storage option" where
  "rs_end slot = do { x \<leftarrow> rs_get slot; Some (rs_destroy slot) }"

section \<open>Construction\<close>

text \<open>\<open>connect_senders_\<close> is recursive in the index of the tuple.\<close>

function connect_senders ::
  "('s \<Rightarrow> 't child_receiver \<Rightarrow> 'o) \<Rightarrow> ptr \<Rightarrow> 't \<Rightarrow> 's list \<Rightarrow> nat \<Rightarrow> 'o raw_storage list \<Rightarrow> 'o raw_storage list option" where
  "connect_senders conn self token senders i op_states =
     (if i < length senders then do {
        massert (i < length op_states);
        x \<leftarrow> rs_accept (conn (senders ! i) \<lparr>cr_self = self, cr_index = i, cr_stop_token = token\<rparr>) (op_states ! i);
        connect_senders conn self token senders (i + 1) (op_states[i := x])
      } else Some op_states)"
  by pat_completeness auto
termination
  by (relation "measure (\<lambda>(conn, self, token, senders, i, op_states). length senders - i)") auto

declare connect_senders.simps [simp del]

text \<open>The constructor for vectors: a loop over the indices, on storage that it has just allocated.\<close>

definition ranged_connect ::
  "('s \<Rightarrow> 't child_receiver \<Rightarrow> 'o) \<Rightarrow> ptr \<Rightarrow> 't \<Rightarrow> 's list \<Rightarrow> 'o raw_storage list option" where
  "ranged_connect conn self token senders =
     foldl (\<lambda>acc i. do {
         op_states \<leftarrow> acc;
         massert (i < length op_states);
         x \<leftarrow> rs_accept (conn (senders ! i) \<lparr>cr_self = self, cr_index = i, cr_stop_token = token\<rparr>) (op_states ! i);
         Some (op_states[i := x])
       }) (Some (replicate (length senders) rs_raw)) [0..<length senders]"

section \<open>Destruction\<close>

fun par_destructor :: "'o raw_storage list \<Rightarrow> 'o raw_storage list option" where
  "par_destructor [] = Some []"
| "par_destructor (x # xs) = do { y \<leftarrow> rs_end x; ys \<leftarrow> par_destructor xs; Some (y # ys) }"

definition ranged_destructor :: "'o raw_storage list \<Rightarrow> 'o raw_storage list option" where
  "ranged_destructor op_states = par_destructor op_states"

section \<open>Every child lives once\<close>

definition connected :: "('s \<Rightarrow> 't child_receiver \<Rightarrow> 'o) \<Rightarrow> ptr \<Rightarrow> 't \<Rightarrow> 's list \<Rightarrow> nat \<Rightarrow> 'o raw_storage list" where
  "connected conn self token senders n =
     map (\<lambda>i. if i < n then Some (conn (senders ! i) \<lparr>cr_self = self, cr_index = i, cr_stop_token = token\<rparr>) else None)
       [0..<length senders]"

lemma connected_step:
  assumes "n < length senders"
  shows "(connected conn self token senders n)[n := Some (conn (senders ! n) \<lparr>cr_self = self, cr_index = n, cr_stop_token = token\<rparr>)] =
    connected conn self token senders (Suc n)" and "connected conn self token senders n ! n = None"
    and "length (connected conn self token senders n) = length senders"
  using assms by (auto simp: connected_def nth_list_update intro!: nth_equalityI)

lemma connected_0: "connected conn self token senders 0 = replicate (length senders) rs_raw"
  by (auto simp: connected_def rs_raw_def intro!: nth_equalityI)

lemma connect_senders_from:
  "n \<le> length senders \<Longrightarrow>
   connect_senders conn self token senders n (connected conn self token senders n) =
     Some (connected conn self token senders (length senders))"
proof (induction "length senders - n" arbitrary: n)
  case 0
  then show ?case by (subst connect_senders.simps) simp
next
  case (Suc k)
  then have n: "n < length senders" by simp
  show ?case
    using Suc(1) [of "Suc n"] Suc(2) n connected_step [OF n, of conn self token]
    by (subst connect_senders.simps) (simp add: rs_accept_def rs_raw_def rs_construct_def)
qed

lemma ranged_connect_to:
  "n \<le> length senders \<Longrightarrow>
   foldl (\<lambda>acc i. do {
       op_states \<leftarrow> acc;
       massert (i < length op_states);
       x \<leftarrow> rs_accept (conn (senders ! i) \<lparr>cr_self = self, cr_index = i, cr_stop_token = token\<rparr>) (op_states ! i);
       Some (op_states[i := x])
     }) (Some (replicate (length senders) rs_raw)) [0..<n] = Some (connected conn self token senders n)"
proof (induction n)
  case 0
  then show ?case by (simp add: connected_0)
next
  case (Suc n)
  then have n: "n < length senders" by simp
  show ?case using Suc n connected_step [OF n, of conn self token]
    by (simp add: rs_accept_def rs_raw_def rs_construct_def)
qed

lemma par_destructor_live: "list_all (\<lambda>x. x \<noteq> None) xs \<Longrightarrow> par_destructor xs = Some (replicate (length xs) rs_raw)"
  by (induction xs) (auto simp: rs_end_def rs_get_def rs_destroy_def rs_raw_def)

text \<open>
  The constructors of both kinds of parallel states construct the state of every child exactly once, with
  a receiver that carries the index of the child and the token of the canceller, and the destructors
  destroy each of them; destroying twice would be undefined.
\<close>

lemma children_live_once:
  assumes "xs = connected conn self token senders (length senders)"
  shows "connect_senders conn self token senders 0 (replicate (length senders) rs_raw) = Some xs"
    and "ranged_connect conn self token senders = Some xs"
    and "\<forall>i < length senders. xs ! i = Some (conn (senders ! i) \<lparr>cr_self = self, cr_index = i, cr_stop_token = token\<rparr>)"
    and "par_destructor xs = Some (replicate (length senders) rs_raw)" "ranged_destructor xs = Some (replicate (length senders) rs_raw)"
    and "senders \<noteq> [] \<Longrightarrow> par_destructor (replicate (length senders) (rs_raw :: 'o raw_storage)) = None"
proof -
  show "connect_senders conn self token senders 0 (replicate (length senders) rs_raw) = Some xs"
    using connect_senders_from [of 0 senders conn self token] assms by (simp add: connected_0)
  show "ranged_connect conn self token senders = Some xs"
    using ranged_connect_to [of "length senders" senders] assms by (simp add: ranged_connect_def)
  show "\<forall>i < length senders. xs ! i = Some (conn (senders ! i) \<lparr>cr_self = self, cr_index = i, cr_stop_token = token\<rparr>)"
    using assms by (simp add: connected_def)
  have "list_all (\<lambda>x. x \<noteq> None) xs" "length xs = length senders" using assms by (simp_all add: connected_def list_all_length)
  then show "par_destructor xs = Some (replicate (length senders) rs_raw)" "ranged_destructor xs = Some (replicate (length senders) rs_raw)"
    by (simp_all add: ranged_destructor_def par_destructor_live)
  show "par_destructor (replicate (length senders) (rs_raw :: 'o raw_storage)) = None" if "senders \<noteq> []"
    using that by (cases senders) (simp_all add: rs_end_def rs_get_def rs_raw_def)
qed

end
