(* ===== verification/Spec2Isabelle.thy ===== *)
theory Spec2Isabelle
  imports Channel_Trace Work_Type Coro Task Uring_Ring Runtime_Options Runtime_Sched Runtime_Exit
    Futex Sender_Operations Zcrx Execution Ex_File_Server Ex_Echo_Server Ex_Link_Cp_Program Ex_Fuse_Prime
    Ex_Ublk_Loop Ex_Queue_Program Ex_Queue_Kernel Sync_Wait Ring_Settings Buffers Op_Lifetime
begin

text \<open>
  A verification development of condy, a header-only C++ library of coroutines over io\_uring
  (\<open>include/condy\<close>), and of the example programs that use it (\<open>examples\<close>).

  \<^bold>\<open>The program.\<close> A coroutine awaits operations. A sender describes an operation; connected to a
  receiver it becomes an operation state, whose start takes an entry of the submission queue and stores
  a tagged pointer to a finish handle in it. The event loop of a runtime submits entries, takes
  completions, decodes the pointer and invokes the handle, which gives the result to the receiver and
  so resumes the coroutine. Work is sent between runtimes by messages over the rings. Channels and
  futexes let coroutines of different runtimes wait for each other.

  \<^bold>\<open>Theories\<close>, each with its source.

  \<^item> \<open>Condy_Prelude\<close>: machine types, errno values, failures, asserts, word arithmetic, ring views.
  \<^item> \<open>Intrusive\<close> (\<open>detail/intrusive.hpp\<close>): the intrusive lists over a store of nodes. The locale
    \<open>handle_queue\<close> is the list of waiting handles that channel and futex rely on.
  \<^item> \<open>Utils\<close> (\<open>detail/utils.hpp\<close>): identifier pool, raw storage, small array, alignment.
  \<^item> \<open>Work_Type\<close> (\<open>detail/work_type.hpp\<close>): tagging of completion pointers, with its round trip.
  \<^item> \<open>Channel\<close>, \<open>Channel_Spec\<close>, \<open>Channel_Trace\<close> (\<open>channel.hpp\<close>): the channel, its contract as a bounded
    FIFO with two queues of waiters, the refinement of every operation, and runs of operations: order
    and conservation of items, waiters completed once, closing and destruction.
  \<^item> \<open>Coro\<close>, \<open>Task\<close> (\<open>coro.hpp\<close>, \<open>task.hpp\<close> and their details): the life of a coroutine frame under
    every interleaving of its end with joining or detaching, and the awaiting of a task. The locale
    \<open>progress\<close> turns a decreasing measure into completion.
  \<^item> \<open>Uring_Ring\<close> (\<open>detail/ring.hpp\<close>), \<open>Runtime_Options\<close> (\<open>runtime_options.hpp\<close>), \<open>Runtime\<close>
    (\<open>runtime.hpp\<close>, \<open>detail/runtime.hpp\<close>): the ring wrapper, the set-up flags, the event loop.
    \<open>Runtime_Sched\<close> and \<open>Runtime_Exit\<close> are the concurrent parts: scheduling from other threads against the
    start of \<open>run\<close>, its loop, its end and its next call, and \<open>allow_exit\<close> against an idle loop.
  \<^item> \<open>Sync_Wait\<close> (\<open>sync_wait.hpp\<close>): spawning, running and joining one coroutine, composed of the models of
    \<open>Task\<close>, \<open>Runtime_Options\<close> and \<open>Runtime\<close>: what it returns, and what becomes of an exception of the loop.
  \<^item> \<open>Ring_Settings\<close> (\<open>ring_settings.hpp\<close>): the tables and settings of a ring, and the life of the probe.
  \<^item> \<open>Futex\<close> (\<open>futex.hpp\<close>): waits, notifications and cancellations, and what a cancellation does to a
    \<open>notify_all\<close> that has already taken the list of waiters.
  \<^item> \<open>Finish_Handles\<close> (\<open>cqe_handler.hpp\<close>, \<open>detail/finish_handles.hpp\<close>), \<open>Op_States\<close>
    (\<open>detail/op_states.hpp\<close>): completions, streams of completions, the start of operations, and the
    parallel and linked compositions. The locale \<open>parallel_receive\<close> covers tuples and vectors.
    \<open>Op_Lifetime\<close> is their storage: every child state is constructed once and destroyed once.
  \<^item> \<open>Async_Operations\<close> (\<open>async_operations.hpp\<close>), \<open>Sender_Operations\<close> (\<open>sender_operations.hpp\<close>,
    \<open>detail/senders.hpp\<close>): what each operation submits, what the kernel
    finds in the entry once it has started, and how operations are composed.
  \<^item> \<open>Buffers\<close> (\<open>buffers.hpp\<close>): plain buffers, which hold exactly the bytes of the object they are made from.
  \<^item> \<open>Provided_Buffers\<close> (\<open>provided_buffers.hpp\<close>), \<open>Zcrx\<close> (\<open>zcrx.hpp\<close>): buffers that the program and the
    kernel hand to each other: conservation, order, and the refill ring.
  \<^item> \<open>Execution\<close> (\<open>execution.hpp\<close>, \<open>detail/execution.hpp\<close>): the adapters to \<open>std::execution\<close>.
  \<^item> \<open>Co_Script\<close>: coroutines of the examples as functions of the results they await.
    \<open>Ex_File_Server\<close>, \<open>Ex_Echo_Server\<close>, \<open>Ex_Link_Cp\<close>, \<open>Ex_Fuse_Prime\<close>, \<open>Ex_Ublk_Loop\<close>: the example of
    the same name. \<open>Ex_Link_Cp_Program\<close> adds to \<open>Ex_Link_Cp\<close> what runs before and after the copying tasks.
  \<^item> \<open>Interleaving\<close>: counting the participants of an interleaving at certain places, and the locale
    \<open>counted_loops\<close> of producers and consumers whose loops have a number of rounds.
  \<^item> \<open>Ex_Queue_Futex\<close>, \<open>Ex_Queue_Program\<close> (\<open>examples/queue-condy-futex.cpp\<close>): a bounded queue with mutex and
    condition variables made of futexes, over the contract of \<open>Futex\<close>: mutual exclusion, order, capacity,
    no lost wake-up; and the program of producers and consumers over it, which cannot deadlock.
  \<^item> \<open>Ex_Queue_Kernel\<close> (\<open>examples/queue-kernel-futex.cpp\<close>): the same with semaphores over the futexes of the
    kernel, between threads and coroutines: the tokens of the semaphores are conserved, and no deadlock.

  \<^bold>\<open>Conventions.\<close> A pointer is a 64-bit word and null is 0. \<open>None\<close> is a failed assertion, undefined
  behaviour or a loop that does not return; exceptions are values of a sum type. Concurrent code is a
  sequence of atomic steps of its threads.

  \<^bold>\<open>Hypotheses.\<close> liburing and the kernel are arguments. What is assumed of them are named predicates:
  \<open>sq_contract\<close>, \<open>queue_view\<close> and \<open>batch_view\<close> (the submission queue and what is submitted from it),
  \<open>prep_contract\<close> (preparing an entry clears its flags), \<open>ms_contract\<close> and \<open>zc_contract\<close> (which
  completions an operation gets), \<open>buf_ring_contract\<close> (buffer rings), \<open>wake_contract\<close> (which waiters the kernel
  wakes), \<open>probe_contract\<close> (allocation of probes), and those of \<open>Zcrx\<close>. Every property that uses them has a
  witness with a concrete instance.

  \<^bold>\<open>Bounds and fuel.\<close> Loops of the code are total functions, or partial functions of which it is proved when they return.
  The primality test of \<open>Ex_Fuse_Prime\<close> is right up to the square of \<open>2 ^ 32 - 1\<close>, since its counter is
  squared in 64 bits. The fuel of \<open>dir_walk\<close>, the client that reads a directory, is shown to exist for
  every directory. \<open>Ex_Queue_Futex\<close> bounds the number of enqueued items by \<open>2 ^ 32\<close>, the number of
  generations of a condition variable. \<open>Ex_Queue_Kernel\<close> has fewer than \<open>2 ^ 32\<close> places in the queue, since the
  count of a semaphore has 32 bits, and fewer than \<open>2 ^ 64\<close> items. That these two programs finish means that
  they are never stuck before the end; how often an exchange fails before it succeeds is not bounded.

  \<^bold>\<open>Not modelled.\<close> Compile-time traits, aliases and the module, which have no behaviour at run time; the
  benchmarks, which measure time; command lines, socket set-up, mounting and printed text of the examples, which are
  input and output; the examples \<open>custom-allocator\<close> and \<open>module-hello\<close>, which only call the library.
  Memory orders are sequentially consistent except in \<open>Runtime_Exit\<close> and for the relaxed loads of
  \<open>Ex_Queue_Kernel\<close>.
\<close>

end
